(* ===== verification/VS_Prelude.thy ===== *)
theory VS_Prelude
  imports Main "HOL-Library.Word"
begin

text \<open>
  Shared vocabulary of the development: machine integers of the C code, monitored memory
  reads, contiguous runs of flat element indices, and the lemma collections the component
  theories add to.

  \<^item> \<open>byte\<close>, \<open>u32\<close>, \<open>u64\<close> are the C types \<open>uint8_t\<close>, \<open>uint32_t\<close> and
    \<open>uint64_t\<close> / \<open>size_t\<close> (LP64);
  \<^item> where the code does arithmetic on \<open>uint64_t\<close> counters whose overflow matters only at the
    edges, the models use \<open>nat\<close> and write the wrap-around as \<open>wrap64\<close>;
  \<^item> a C function that returns \<open>-1\<close> on failure returns \<open>Inl EFail\<close>; a read outside a
    buffer, undefined behaviour in C, is the distinct value \<open>Inl EOob\<close>, so that memory
    safety is a theorem rather than a convention.
\<close>

unbundle bit_operations_syntax

type_synonym byte = "8 word"
type_synonym u16 = "16 word"
type_synonym u32 = "32 word"
type_synonym u64 = "64 word"

named_theorems codec_simps
named_theorems run_simps
named_theorems wrap_simps

datatype cerr = EFail | EOob

type_synonym 'a cres = "cerr + 'a"

definition cbind :: "'a cres \<Rightarrow> ('a \<Rightarrow> 'b cres) \<Rightarrow> 'b cres" where
  "cbind m f = (case m of Inl e \<Rightarrow> Inl e | Inr a \<Rightarrow> f a)"

lemma cbind_simps [simp]:
  "cbind (Inl e) f = Inl e"
  "cbind (Inr a) f = f a"
  by (simp_all add: cbind_def)

lemma cbind_eq_Inr [simp]:
  "cbind m f = Inr b \<longleftrightarrow> (\<exists>a. m = Inr a \<and> f a = Inr b)"
  by (cases m) simp_all

lemma cbind_not_Oob:
  "m \<noteq> Inl EOob \<Longrightarrow> (\<And>a. m = Inr a \<Longrightarrow> f a \<noteq> Inl EOob) \<Longrightarrow> cbind m f \<noteq> Inl EOob"
  by (cases m) simp_all

text \<open>A read of \<open>n\<close> bytes at offset \<open>off\<close> of a buffer.\<close>

definition mem_read :: "byte list \<Rightarrow> nat \<Rightarrow> nat \<Rightarrow> byte list cres" where
  "mem_read bs off n = (if off + n \<le> length bs then Inr (take n (drop off bs)) else Inl EOob)"

lemma mem_read_ok: "off + n \<le> length bs \<Longrightarrow> mem_read bs off n = Inr (take n (drop off bs))"
  by (simp add: mem_read_def)

lemma mem_read_Inr: "mem_read bs off n = Inr xs \<longleftrightarrow> off + n \<le> length bs \<and> xs = take n (drop off bs)"
  by (auto simp: mem_read_def)

lemma mem_read_length: "mem_read bs off n = Inr xs \<Longrightarrow> length xs = n"
  by (auto simp: mem_read_def split: if_splits)

lemma mem_read_append:
  "length ys = n \<Longrightarrow> length xs = off \<Longrightarrow> mem_read (xs @ ys @ zs) off n = Inr ys"
  by (simp add: mem_read_def)

subsection \<open>Unsigned 64-bit arithmetic on natural numbers\<close>

definition U64_MAX :: nat where "U64_MAX = 2 ^ 64 - 1"

lemma U64_MAX_val: "U64_MAX = 18446744073709551615"
  by (simp add: U64_MAX_def)

definition wrap64 :: "nat \<Rightarrow> nat" where "wrap64 n = n mod 2 ^ 64"

lemma wrap64_id [wrap_simps]: "n \<le> U64_MAX \<Longrightarrow> wrap64 n = n"
  by (simp add: wrap64_def U64_MAX_def)

lemma wrap64_le [simp]: "wrap64 n \<le> U64_MAX"
  by (simp add: wrap64_def U64_MAX_def less_Suc_eq_le [symmetric])

lemma wrap64_le_arg: "wrap64 n \<le> n"
  by (simp add: wrap64_def)

lemma wrap64_wrap64 [simp]: "wrap64 (wrap64 n) = wrap64 n"
  by (simp add: wrap64_def)

text \<open>\<open>a - b\<close> in \<open>uint64_t\<close>.\<close>

definition sub64 :: "nat \<Rightarrow> nat \<Rightarrow> nat" where
  "sub64 a b = (a + 2 ^ 64 - b) mod 2 ^ 64"

lemma sub64_id [wrap_simps]: "b \<le> a \<Longrightarrow> a \<le> U64_MAX \<Longrightarrow> sub64 a b = a - b"
proof -
  assume "b \<le> a" and "a \<le> U64_MAX"
  then have "a + 2 ^ 64 - b = (a - b) + 2 ^ 64" and "a - b < 2 ^ 64"
    by (simp_all add: U64_MAX_def)
  then show ?thesis
    unfolding sub64_def by (metis mod_add_self2 mod_less)
qed

subsection \<open>Runs of contiguous flat element indices\<close>

text \<open>\<open>H5VL_stream_flat_run_t\<close> (H5VLstream.c) and \<open>vs_tr_run_t\<close> (tr_mercury.h).\<close>

record flat_run =
  run_start :: nat
  run_count :: nat

definition run_set :: "flat_run \<Rightarrow> nat set" where
  "run_set r = {run_start r ..< run_start r + run_count r}"

definition runs_set :: "flat_run list \<Rightarrow> nat set" where
  "runs_set rs = (\<Union>r \<in> set rs. run_set r)"

text \<open>Elements in the order the runs list them: the order of a packed buffer.\<close>

definition run_elems :: "flat_run \<Rightarrow> nat list" where
  "run_elems r = [run_start r ..< run_start r + run_count r]"

definition runs_elems :: "flat_run list \<Rightarrow> nat list" where
  "runs_elems rs = concat (map run_elems rs)"

lemma set_run_elems [run_simps]: "set (run_elems r) = run_set r"
  by (simp add: run_elems_def run_set_def)

lemma set_runs_elems [run_simps]: "set (runs_elems rs) = runs_set rs"
  by (simp add: runs_elems_def runs_set_def run_simps)

lemma runs_elems_Nil [simp]: "runs_elems [] = []"
  by (simp add: runs_elems_def)

lemma runs_elems_Cons [simp]: "runs_elems (r # rs) = run_elems r @ runs_elems rs"
  by (simp add: runs_elems_def)

lemma runs_elems_append [simp]: "runs_elems (rs @ qs) = runs_elems rs @ runs_elems qs"
  by (simp add: runs_elems_def)

lemma runs_set_Nil [simp]: "runs_set [] = {}"
  by (simp add: runs_set_def)

lemma runs_set_Cons [simp]: "runs_set (r # rs) = run_set r \<union> runs_set rs"
  by (simp add: runs_set_def)

lemma runs_set_append [simp]: "runs_set (rs @ qs) = runs_set rs \<union> runs_set qs"
  by (simp add: runs_set_def)

lemma length_run_elems [simp]: "length (run_elems r) = run_count r"
  by (simp add: run_elems_def)

text \<open>
  The step shared by the three loops of the code that build a run list: extend the last run
  when the new piece abuts it, otherwise open a new run.
\<close>

definition run_push :: "flat_run list \<Rightarrow> nat \<Rightarrow> nat \<Rightarrow> flat_run list" where
  "run_push rs s c =
     (if rs \<noteq> [] \<and> run_start (last rs) + run_count (last rs) = s
      then butlast rs @ [(last rs)\<lparr>run_count := run_count (last rs) + c\<rparr>]
      else rs @ [\<lparr>run_start = s, run_count = c\<rparr>])"

lemma runs_elems_run_push: "runs_elems (run_push rs s c) = runs_elems rs @ [s ..< s + c]"
proof (cases "rs \<noteq> [] \<and> run_start (last rs) + run_count (last rs) = s")
  case True
  then obtain qs r where rs: "rs = qs @ [r]" and s: "run_start r + run_count r = s"
    by (cases rs rule: rev_cases) auto
  have "run_start r \<le> s" using s by simp
  then have "[run_start r ..< s + c] = [run_start r ..< s] @ [s ..< s + c]"
    by (metis le_add1 le_add_diff_inverse upt_add_eq_append)
  then show ?thesis
    using rs s by (simp add: run_push_def run_elems_def ac_simps)
next
  case False
  then have "run_push rs s c = rs @ [\<lparr>run_start = s, run_count = c\<rparr>]"
    unfolding run_push_def by (rule if_not_P)
  then show ?thesis by (simp add: run_elems_def)
qed

lemma runs_set_run_push [simp]: "runs_set (run_push rs s c) = runs_set rs \<union> {s ..< s + c}"
  by (metis runs_elems_run_push set_append set_runs_elems set_upt)

lemma length_run_push:
  "length (run_push rs s c) \<le> Suc (length rs)"
  by (cases rs rule: rev_cases) (auto simp: run_push_def)

lemma run_push_not_Nil [simp]: "run_push rs s c \<noteq> []"
  by (simp add: run_push_def)

text \<open>Runs in ascending order with a gap between neighbours: the maximal decomposition.\<close>

fun runs_separated :: "flat_run list \<Rightarrow> bool" where
  "runs_separated [] = True"
| "runs_separated [r] = (0 < run_count r)"
| "runs_separated (r # q # rs) =
     (0 < run_count r \<and> run_start r + run_count r < run_start q \<and> runs_separated (q # rs))"

lemma runs_separated_snoc:
  "runs_separated (rs @ [r, q]) \<longleftrightarrow>
     runs_separated (rs @ [r]) \<and> run_start r + run_count r < run_start q \<and> 0 < run_count q"
  by (induction rs rule: runs_separated.induct) auto

lemma runs_separated_run_push:
  assumes "runs_separated rs" "0 < c"
    and "rs \<noteq> [] \<Longrightarrow> run_start (last rs) + run_count (last rs) \<le> s"
  shows "runs_separated (run_push rs s c)"
proof (cases rs rule: rev_cases)
  case Nil
  then show ?thesis using assms(2) by (simp add: run_push_def)
next
  case (snoc qs r)
  show ?thesis
  proof (cases "run_start r + run_count r = s")
    case True
    have "runs_separated (qs @ [r\<lparr>run_count := run_count r + c\<rparr>])"
      using assms(1,2) snoc
      by (cases qs rule: rev_cases) (auto simp: runs_separated_snoc)
    then show ?thesis using True snoc by (simp add: run_push_def)
  next
    case False
    then have "run_start r + run_count r < s" using assms(3) snoc by simp
    then show ?thesis
      using False snoc assms(1,2) by (simp add: run_push_def runs_separated_snoc)
  qed
qed

end
