(* ===== verification/VS_Bytes.thy ===== *)
theory VS_Bytes
  imports VS_Prelude
begin

text \<open>
  The hand-rolled little-endian scalars of H5VLstream.c: the VL length tag, the predicate
  blob and the schema blob. A \<open>put\<close> function of the code stores its bytes through a pointer;
  the model returns the bytes it stores, in address order. A \<open>get\<close> function reads through a
  pointer; the model takes the buffer it points into.
\<close>

definition put_u64le :: "u64 \<Rightarrow> byte list" where
  "put_u64le v = map (\<lambda>i. ucast (drop_bit (8 * i) v AND 0xff)) [0..<8]"

definition get_u64le :: "byte list \<Rightarrow> u64" where
  "get_u64le src = foldl (\<lambda>v i. v OR push_bit (8 * i) (ucast (src ! i))) 0 [0..<8]"

definition put_u16le :: "u16 \<Rightarrow> byte list" where
  "put_u16le v = [ucast (v AND 0xff), ucast (drop_bit 8 v AND 0xff)]"

definition put_u32le :: "u32 \<Rightarrow> byte list" where
  "put_u32le v =
     [ucast (v AND 0xff), ucast (drop_bit 8 v AND 0xff),
      ucast (drop_bit 16 v AND 0xff), ucast (drop_bit 24 v AND 0xff)]"

definition get_u32le :: "byte list \<Rightarrow> u32" where
  "get_u32le p =
     ucast (p ! 0) OR push_bit 8 (ucast (p ! 1)) OR push_bit 16 (ucast (p ! 2))
       OR push_bit 24 (ucast (p ! 3))"

lemma length_put [simp]:
  "length (put_u64le v) = 8" "length (put_u32le w) = 4" "length (put_u16le x) = 2"
  by (simp_all add: put_u64le_def put_u32le_def put_u16le_def)

lemma bit_FF: "bit (0xff :: 'a::len word) n \<longleftrightarrow> n < 8 \<and> n < LENGTH('a)"
proof -
  have "bit (mask 8 :: 'a word) n \<longleftrightarrow> n < 8 \<and> n < LENGTH('a)"
    by (auto simp only: bit_mask_iff min_less_iff_conj possible_bit_word)
  then show ?thesis by (simp add: mask_numeral)
qed

lemma and_FF_ucast [simp]: "(ucast (x AND 0xff) :: byte) = ucast (x :: 'a::len word)"
  by (rule bit_word_eqI) (auto simp: bit_ucast_iff bit_and_iff bit_FF
      simp del: bit_numeral_word_iff dest: bit_imp_le_length)

lemma bit_or_bytes:
  "bit (foldl (\<lambda>v i. v OR push_bit (8 * i) (ucast (src ! i :: byte))) (0 :: u64) [0..<k]) n
     \<longleftrightarrow> n < 8 * k \<and> n < 64 \<and> bit (src ! (n div 8)) (n mod 8)"
proof (induction k)
  case 0
  then show ?case by simp
next
  case (Suc k)
  have "8 * k \<le> n \<Longrightarrow> n < 8 * Suc k \<Longrightarrow> n div 8 = k \<and> n mod 8 = n - 8 * k"
    by (auto simp: div_nat_eqI modulo_nat_def)
  then show ?case
    using Suc bit_imp_le_length [of "src ! k" "n - 8 * k"]
    by (cases "8 * k \<le> n") (auto simp: bit_or_iff bit_push_bit_iff bit_ucast_iff)
qed

lemma get_put_u64le [simp, codec_simps]: "get_u64le (put_u64le v) = v"
proof (rule bit_word_eqI)
  fix n :: nat
  assume "n < LENGTH(64)"
  then have n: "n < 64" and "n div 8 < 8" by simp_all
  then have "put_u64le v ! (n div 8) = ucast (drop_bit (8 * (n div 8)) v)"
    by (simp add: put_u64le_def)
  moreover have "8 * (n div 8) + n mod 8 = n" by simp
  ultimately have "bit (put_u64le v ! (n div 8)) (n mod 8) = bit v n"
    by (simp add: bit_ucast_iff bit_drop_bit_eq)
  then show "bit (get_u64le (put_u64le v)) n = bit v n"
    using n by (simp only: get_u64le_def bit_or_bytes) simp
qed

lemma get_put_u32le [simp, codec_simps]: "get_u32le (put_u32le v) = v"
proof (rule bit_word_eqI)
  fix n :: nat
  assume "n < LENGTH(32)"
  then consider "n < 8" | "8 \<le> n" "n < 16" | "16 \<le> n" "n < 24" | "24 \<le> n" "n < 32"
    by fastforce
  then show "bit (get_u32le (put_u32le v)) n = bit v n"
    by cases (auto simp: get_u32le_def put_u32le_def bit_simps)
qed

text \<open>Both readers look at their leading bytes only, so they read the same through a longer buffer.\<close>

lemma get_u32le_take [simp]: "get_u32le (take 4 bs) = get_u32le bs"
  by (simp add: get_u32le_def)

lemma get_u64le_take [simp]: "get_u64le (take 8 bs) = get_u64le bs"
  by (simp add: get_u64le_def upt_rec)

lemma get_u32le_append [simp]: "get_u32le (put_u32le v @ bs) = v"
  by (metis append_eq_conv_conj get_put_u32le get_u32le_take length_put(2))

lemma get_u64le_append [simp]: "get_u64le (put_u64le v @ bs) = v"
  by (metis append_eq_conv_conj get_put_u64le get_u64le_take length_put(1))

text \<open>Monitored reads at an offset.\<close>

definition rd_u32le :: "byte list \<Rightarrow> nat \<Rightarrow> u32 cres" where
  "rd_u32le bs off = cbind (mem_read bs off 4) (\<lambda>p. Inr (get_u32le p))"

definition rd_u64le :: "byte list \<Rightarrow> nat \<Rightarrow> u64 cres" where
  "rd_u64le bs off = cbind (mem_read bs off 8) (\<lambda>p. Inr (get_u64le p))"

definition rd_u8 :: "byte list \<Rightarrow> nat \<Rightarrow> byte cres" where
  "rd_u8 bs off = cbind (mem_read bs off 1) (\<lambda>p. Inr (p ! 0))"

lemma rd_ok:
  "off + 4 \<le> length bs \<Longrightarrow> rd_u32le bs off = Inr (get_u32le (drop off bs))"
  "off + 8 \<le> length bs \<Longrightarrow> rd_u64le bs off = Inr (get_u64le (drop off bs))"
  "off + 1 \<le> length bs \<Longrightarrow> rd_u8 bs off = Inr (bs ! off)"
  by (simp_all add: rd_u32le_def rd_u64le_def rd_u8_def mem_read_def)

lemma rd_append [codec_simps]:
  "length xs = off \<Longrightarrow> rd_u32le (xs @ put_u32le v @ ys) off = Inr v"
  "length xs = off \<Longrightarrow> rd_u64le (xs @ put_u64le w @ ys) off = Inr w"
  by (simp_all add: rd_ok)

end
