(* ===== verification/VS_Selection.thy ===== *)
theory VS_Selection
  imports VS_Bytes
begin

text \<open>
  Selections as contiguous runs of flat (row-major) element indices:
  \<open>H5VL__stream_space_1d_bounds\<close>, \<open>H5VL__stream_space_flat_runs_range\<close> and the functions on
  top of it. A dataspace is represented by what the H5S accessors return for it; \<open>None\<close> is a
  failing accessor. A block of a hyperslab is its start and (inclusive) end coordinates, in
  the order \<open>H5Sget_select_hyper_blocklist\<close> lists them. Coordinates and flat indices are
  \<open>uint64_t\<close> in the code; the model computes on \<open>nat\<close> with the wrap-around written out. The
  loop over the leading coordinates of a block is a \<^theory_text>\<open>partial_function\<close>.
\<close>

datatype h5sel = SEL_ALL | SEL_HYPERSLABS "(nat list \<times> nat list) list option" | SEL_OTHER

record dspace =
  ds_scalar :: bool
  ds_dims :: "nat list option"
  ds_sel :: h5sel
  ds_npoints :: "nat option"
  ds_bounds :: "(nat list \<times> nat list) option"

definition bounds_step :: "nat \<times> nat \<times> nat \<Rightarrow> nat \<times> nat \<times> nat \<Rightarrow> nat \<times> nat \<times> nat" where
  "bounds_step acc x = (case (acc, x) of ((lo, hi, stride), (l, h, d)) \<Rightarrow>
     (wrap64 (lo + l * stride), wrap64 (hi + h * stride), wrap64 (stride * d)))"

definition space_1d_bounds :: "dspace \<Rightarrow> (nat \<times> nat) cres" where
  "space_1d_bounds sp =
     (if ds_scalar sp then Inr (0, 1)
      else case ds_dims sp of
        None \<Rightarrow> Inl EFail
      | Some dims \<Rightarrow>
          if dims = [] then Inr (0, 1)
          else case ds_bounds sp of
            None \<Rightarrow> Inl EFail
          | Some (low, high) \<Rightarrow>
              (case foldl bounds_step (0, 0, 1) (rev (zip low (zip high dims))) of
                 (flat_low, flat_high, _) \<Rightarrow> Inr (flat_low, wrap64 (sub64 flat_high flat_low + 1))))"

text \<open>Row-major strides, last dimension fastest.\<close>

fun strides :: "nat list \<Rightarrow> nat list" where
  "strides [] = []"
| "strides [d] = [1]"
| "strides (d # e # ds) = wrap64 (hd (strides (e # ds)) * e) # strides (e # ds)"

definition flat_idx :: "nat list \<Rightarrow> nat list \<Rightarrow> nat" where
  "flat_idx cur st = wrap64 (sum_list (map2 (*) cur st))"

text \<open>
  The emission shared by the two branches: clip, skip when empty, merge with the last run when
  they abut, else open a new run if the budget allows.
\<close>

definition emit_run :: "nat \<Rightarrow> nat \<Rightarrow> nat \<Rightarrow> nat \<Rightarrow> nat \<Rightarrow> flat_run list \<Rightarrow> flat_run list cres" where
  "emit_run rs re max_runs s e runs =
     (let cs = (if s > rs then s else rs); ce = (if e < re then e else re) in
      if cs \<ge> ce then Inr runs
      else if runs \<noteq> [] \<and> run_start (last runs) + run_count (last runs) = cs
      then Inr (butlast runs @ [(last runs)\<lparr>run_count := run_count (last runs) + (ce - cs)\<rparr>])
      else if length runs \<ge> max_runs then Inl EFail
      else Inr (runs @ [\<lparr>run_start = cs, run_count = ce - cs\<rparr>]))"

text \<open>The odometer over the leading coordinates: \<open>None\<close> when every one has rolled over.\<close>

fun advance :: "(nat \<times> nat) list \<Rightarrow> nat list \<Rightarrow> nat list option" where
  "advance ((b, e) # bounds) (c # cs) =
     (case advance bounds cs of
        Some cs' \<Rightarrow> Some (c # cs')
      | None \<Rightarrow> if c < e then Some ((c + 1) # map fst bounds) else None)"
| "advance _ _ = None"

partial_function (option) row_walk ::
  "nat list \<Rightarrow> nat \<Rightarrow> nat \<Rightarrow> nat \<Rightarrow> (nat \<times> nat) list \<Rightarrow> nat \<Rightarrow> nat \<Rightarrow> nat list \<Rightarrow> flat_run list \<Rightarrow> flat_run list cres option" where
  "row_walk st rs re max_runs bounds last_c run_len lead runs =
     (if lead \<noteq> [] \<and> hd st > 0 \<and> wrap64 (hd lead * hd st) \<ge> re then Some (Inr runs)
      else
        (let flat = flat_idx (lead @ [last_c]) st in
         case emit_run rs re max_runs flat (wrap64 (flat + run_len)) runs of
           Inl err \<Rightarrow> Some (Inl err)
         | Inr runs' \<Rightarrow>
             (case advance bounds lead of
                None \<Rightarrow> Some (Inr runs')
              | Some lead' \<Rightarrow> row_walk st rs re max_runs bounds last_c run_len lead' runs')))"

declare row_walk.simps [code]

definition block_runs ::
  "nat list \<Rightarrow> nat \<Rightarrow> nat \<Rightarrow> nat \<Rightarrow> nat list \<times> nat list \<Rightarrow> flat_run list \<Rightarrow> flat_run list cres option" where
  "block_runs dims rs re max_runs blk runs =
     (case blk of (bs, be) \<Rightarrow>
        let st = strides dims; rank = length dims;
            run_len = wrap64 (sub64 (last be) (last bs) + 1);
            walk = (\<lambda>lead. row_walk st rs re max_runs (zip (butlast bs) (butlast be)) (last bs) run_len lead runs) in
        if rank > 1 \<and> hd st > 0
        then
          if list_all (\<lambda>(b, e, d). b = 0 \<and> e = sub64 d 1) (zip (tl bs) (zip (tl be) (tl dims)))
          then Some (emit_run rs re max_runs (wrap64 (hd bs * hd st)) (wrap64 (wrap64 (hd be + 1) * hd st)) runs)
          else
            (let c0 = (if hd bs < rs div hd st then rs div hd st else hd bs) in
             if c0 > hd be then Some (Inr runs) else walk (c0 # tl (butlast bs)))
        else walk (butlast bs))"

fun blocks_runs ::
  "nat list \<Rightarrow> nat \<Rightarrow> nat \<Rightarrow> nat \<Rightarrow> (nat list \<times> nat list) list \<Rightarrow> flat_run list \<Rightarrow> flat_run list cres option" where
  "blocks_runs dims rs re max_runs [] runs = Some (Inr runs)"
| "blocks_runs dims rs re max_runs (blk # blks) runs =
     Option.bind (block_runs dims rs re max_runs blk runs) (\<lambda>r.
       case r of Inl e \<Rightarrow> Some (Inl e) | Inr runs \<Rightarrow> blocks_runs dims rs re max_runs blks runs)"

definition flat_runs_range :: "dspace \<Rightarrow> nat \<Rightarrow> nat \<Rightarrow> nat \<Rightarrow> flat_run list cres option" where
  "flat_runs_range sp rs re max_runs =
     (if max_runs = 0 then Some (Inl EFail)
      else if ds_scalar sp
      then Some (Inr (if rs > 0 \<or> re = 0 then [] else [\<lparr>run_start = 0, run_count = 1\<rparr>]))
      else case ds_dims sp of
        None \<Rightarrow> Some (Inl EFail)
      | Some dims \<Rightarrow>
          if dims = [] then Some (Inl EFail)
          else case ds_sel sp of
            SEL_ALL \<Rightarrow>
              (case ds_npoints sp of
                 None \<Rightarrow> Some (Inl EFail)
               | Some np \<Rightarrow>
                   (let ce = (if np < re then np else re) in
                    Some (Inr (if rs \<ge> ce then [] else [\<lparr>run_start = rs, run_count = ce - rs\<rparr>]))))
          | SEL_HYPERSLABS bl \<Rightarrow>
              (case bl of
                 None \<Rightarrow> Some (Inl EFail)
               | Some blocks \<Rightarrow>
                   if blocks = [] then Some (Inl EFail) else blocks_runs dims rs re max_runs blocks [])
          | SEL_OTHER \<Rightarrow> Some (Inl EFail))"

definition flat_runs :: "dspace \<Rightarrow> nat \<Rightarrow> flat_run list cres option" where
  "flat_runs sp max_runs = flat_runs_range sp 0 U64_MAX max_runs"

subsection \<open>Memory selections\<close>

text \<open>\<open>mem_space\<close> is \<open>None\<close> for \<open>H5S_ALL\<close>.\<close>

definition MAX_PUSH_RUNS :: nat where "MAX_PUSH_RUNS = 256"

definition mem_sel_is_packed :: "dspace option \<Rightarrow> nat \<Rightarrow> bool option" where
  "mem_sel_is_packed mem_space n_elem =
     (case mem_space of
        None \<Rightarrow> Some True
      | Some sp \<Rightarrow>
          if ds_sel sp = SEL_ALL then Some True
          else Option.bind (flat_runs sp 1) (\<lambda>r.
            Some (case r of Inr [run] \<Rightarrow> run_start run = 0 \<and> run_count run = n_elem | _ \<Rightarrow> False)))"

fun gather_runs :: "byte list \<Rightarrow> nat \<Rightarrow> nat \<Rightarrow> nat \<Rightarrow> byte list \<Rightarrow> flat_run list \<Rightarrow> byte list cres" where
  "gather_runs buf elem_size n_elem done_n out [] = (if done_n = n_elem then Inr out else Inl EFail)"
| "gather_runs buf elem_size n_elem done_n out (r # rs) =
     (if done_n + run_count r > n_elem then Inl EFail
      else cbind (mem_read buf (run_start r * elem_size) (run_count r * elem_size)) (\<lambda>d.
        gather_runs buf elem_size n_elem (done_n + run_count r) (out @ d) rs))"

definition gather_mem :: "byte list option \<Rightarrow> dspace option \<Rightarrow> nat \<Rightarrow> nat \<Rightarrow> byte list cres option" where
  "gather_mem buf mem_space elem_size n_elem =
     (case buf of
        None \<Rightarrow> Some (Inl EFail)
      | Some b \<Rightarrow>
          if elem_size = 0 then Some (Inl EFail)
          else Option.bind (mem_sel_is_packed mem_space n_elem) (\<lambda>packed.
            if packed then Some (mem_read b 0 (n_elem * elem_size))
            else Option.bind (flat_runs (the mem_space) MAX_PUSH_RUNS) (\<lambda>r.
              Some (cbind r (\<lambda>runs. gather_runs b elem_size n_elem 0 [] runs)))))"

subsection \<open>A subscriber's selection inside a pushed range\<close>

definition selection_runs ::
  "(byte list \<Rightarrow> dspace option) \<Rightarrow> byte list \<Rightarrow> byte list \<Rightarrow> nat \<Rightarrow> nat \<Rightarrow> nat \<Rightarrow> flat_run list cres option" where
  "selection_runs H5Sdecode sub_space_enc write_space_enc range_start range_count max_runs =
     (if sub_space_enc = [] \<or> max_runs = 0 \<or> range_count = 0 then Some (Inl EFail)
      else
        (let max_runs = (if max_runs > MAX_PUSH_RUNS then MAX_PUSH_RUNS else max_runs) in
         if write_space_enc = [] then Some (Inl EFail)
         else case (H5Sdecode sub_space_enc, H5Sdecode write_space_enc) of
           (Some sub, Some wsp) \<Rightarrow>
             (case (ds_dims sub, ds_dims wsp) of
                (Some sdims, Some wdims) \<Rightarrow>
                  if length sdims \<noteq> length wdims \<or> tl sdims \<noteq> tl wdims then Some (Inl EFail)
                  else Option.bind (flat_runs_range sub range_start (wrap64 (range_start + range_count)) max_runs) (\<lambda>r.
                    Some (cbind r (\<lambda>sel_runs.
                      Inr (map (\<lambda>r. \<lparr>run_start = run_start r - range_start, run_count = run_count r\<rparr>) sel_runs))))
              | _ \<Rightarrow> Some (Inl EFail))
         | _ \<Rightarrow> Some (Inl EFail)))"

text \<open>
  The chunk shape of \<open>H5VL__stream_refilter_shape_for_subscriber\<close>. \<open>H5Pdecode_chunk\<close> stands for
  decoding the creation property list and asking for its chunk: \<open>None\<close> if decoding fails or
  the layout is not chunked.
\<close>

fun chunk_elems :: "nat \<Rightarrow> nat list \<Rightarrow> nat" where
  "chunk_elems elems [] = elems"
| "chunk_elems elems (d # ds) =
     (if elems = 0 then 0
      else if d = 0 \<or> elems > U64_MAX div d then 0
      else chunk_elems (elems * d) ds)"

definition refilter_shape :: "(byte list \<Rightarrow> nat list option) \<Rightarrow> byte list \<Rightarrow> nat \<Rightarrow> nat" where
  "refilter_shape H5Pdecode_chunk dcpl_enc count =
     (if dcpl_enc = [] then 0
      else case H5Pdecode_chunk dcpl_enc of
        None \<Rightarrow> 0
      | Some chunk_dims \<Rightarrow>
          (let elems = chunk_elems (if chunk_dims = [] then 0 else 1) chunk_dims in
           if elems > 0 \<and> elems < count then elems else 0))"

subsection \<open>Runs as a function of the element sequence\<close>

text \<open>
  Pushing a piece is pushing its elements one by one, so the run list the code builds depends
  only on the sequence of elements, not on how the code cut it into pieces.
\<close>

definition pushes :: "flat_run list \<Rightarrow> nat list \<Rightarrow> flat_run list" where
  "pushes runs xs = foldl (\<lambda>rs x. run_push rs x 1) runs xs"

definition canon :: "nat list \<Rightarrow> flat_run list" where
  "canon xs = pushes [] xs"

definition bounded :: "nat \<Rightarrow> flat_run list \<Rightarrow> flat_run list cres" where
  "bounded m runs = (if length runs \<le> m then Inr runs else Inl EFail)"

lemma pushes_simps [simp]:
  "pushes runs [] = runs" "pushes runs (xs @ ys) = pushes (pushes runs xs) ys"
  by (simp_all add: pushes_def)

lemma run_push_extend: "run_push (run_push rs s c) (s + c) (Suc 0) = run_push rs s (Suc c)"
  by (cases rs rule: rev_cases) (auto simp: run_push_def butlast_append)

lemma pushes_piece: "0 < c \<Longrightarrow> pushes runs [s..<s + c] = run_push runs s c"
proof (induction c)
  case (Suc c)
  then show ?case by (cases "c = 0") (simp_all add: run_push_extend pushes_def)
qed simp

lemma length_pushes_mono: "length runs \<le> length (pushes runs xs)"
proof (induction xs rule: rev_induct)
  case (snoc x xs)
  have "length rs \<le> length (run_push rs x 1)" for rs :: "flat_run list"
    by (cases rs rule: rev_cases) (auto simp: run_push_def)
  then show ?case using snoc by (simp add: pushes_def le_trans)
qed simp

lemma runs_elems_pushes: "runs_elems (pushes runs xs) = runs_elems runs @ xs"
  by (induction xs rule: rev_induct) (simp_all add: pushes_def runs_elems_run_push)

lemma runs_elems_canon [simp]: "runs_elems (canon xs) = xs"
  by (simp add: canon_def runs_elems_pushes)

abbreviation in_range :: "nat \<Rightarrow> nat \<Rightarrow> nat \<Rightarrow> bool" where
  "in_range rs re x \<equiv> rs \<le> x \<and> x < re"

lemma filter_in_range: "filter (in_range rs re) [s..<e] = [max s rs..<min e re]"
proof (induction e)
  case (Suc e)
  show ?case
  proof (cases "e < re")
    case True
    then have "min (Suc e) re = Suc e" "min e re = e" by simp_all
    then show ?thesis using Suc True by (auto simp: max_def)
  next
    case False
    then have "min (Suc e) re = min e re" by simp
    then show ?thesis using Suc False by auto
  qed
qed simp

lemma emit_run_pushes:
  assumes "length runs \<le> m"
  shows "emit_run rs re m s e runs = bounded m (pushes runs (filter (in_range rs re) [s..<e]))"
proof (cases "max s rs < min e re")
  case True
  let ?cs = "max s rs" and ?ce = "min e re"
  have "pushes runs [?cs..<?ce] = run_push runs ?cs (?ce - ?cs)"
    using pushes_piece [of "?ce - ?cs" runs ?cs] True by simp
  moreover have "emit_run rs re m s e runs =
      (if runs \<noteq> [] \<and> run_start (last runs) + run_count (last runs) = ?cs
       then Inr (butlast runs @ [(last runs)\<lparr>run_count := run_count (last runs) + (?ce - ?cs)\<rparr>])
       else if length runs \<ge> m then Inl EFail
       else Inr (runs @ [\<lparr>run_start = ?cs, run_count = ?ce - ?cs\<rparr>]))"
    using True by (auto simp: emit_run_def Let_def max_def min_def)
  moreover have "runs \<noteq> [] \<Longrightarrow> length (butlast runs @ [r]) = length runs" for r :: flat_run
    by simp
  ultimately show ?thesis
    unfolding filter_in_range bounded_def run_push_def using assms by auto
next
  case False
  then have "min e re \<le> max s rs" by (rule leI)
  then have nil: "[max s rs..<min e re] = []" by (rule upt_conv_Nil)
  have emit: "emit_run rs re m s e runs = Inr runs"
    using False by (auto simp: emit_run_def Let_def max_def min_def split: if_splits)
  show ?thesis unfolding filter_in_range nil emit using assms by (simp add: bounded_def)
qed

lemma bounded_stops: "\<not> length runs \<le> m \<Longrightarrow> bounded m (pushes runs xs) = Inl EFail"
  using length_pushes_mono [of runs xs] by (simp add: bounded_def)

subsection \<open>Coordinates in row-major order\<close>

fun flat_of :: "nat list \<Rightarrow> nat list \<Rightarrow> nat" where
  "flat_of (d # ds) (c # cs) = c * prod_list ds + flat_of ds cs"
| "flat_of _ _ = 0"

fun rect :: "(nat \<times> nat) list \<Rightarrow> nat list list" where
  "rect [] = [[]]"
| "rect ((b, e) # bounds) = concat (map (\<lambda>c. map ((#) c) (rect bounds)) [b..<Suc e])"

definition block_elems :: "nat list \<Rightarrow> nat list \<times> nat list \<Rightarrow> nat list" where
  "block_elems dims blk = map (flat_of dims) (rect (zip (fst blk) (snd blk)))"

definition block_ok :: "nat list \<Rightarrow> nat list \<times> nat list \<Rightarrow> bool" where
  "block_ok dims blk \<longleftrightarrow> length (fst blk) = length dims \<and> length (snd blk) = length dims \<and>
     list_all2 (\<le>) (fst blk) (snd blk) \<and> list_all2 (<) (snd blk) dims"

fun linked :: "('a \<Rightarrow> 'a option) \<Rightarrow> 'a list \<Rightarrow> 'a option \<Rightarrow> bool" where
  "linked f [] nxt = True"
| "linked f [x] nxt = (f x = nxt)"
| "linked f (x # y # r) nxt = (f x = Some y \<and> linked f (y # r) nxt)"

lemma linked_append:
  "xs \<noteq> [] \<Longrightarrow> ys \<noteq> [] \<Longrightarrow> linked f (xs @ ys) nxt \<longleftrightarrow> linked f xs (Some (hd ys)) \<and> linked f ys nxt"
proof (induction xs)
  case (Cons x xs)
  then show ?case by (cases xs; cases ys) auto
qed simp

lemma linked_map:
  assumes "\<And>x y. f x = Some y \<Longrightarrow> g (h x) = Some (h y)" "\<And>x. f x = None \<Longrightarrow> g (h x) = nxt"
  shows "linked f xs None \<Longrightarrow> linked g (map h xs) nxt"
proof (induction xs)
  case (Cons x xs)
  then show ?case by (cases xs) (auto simp: assms)
qed simp

lemma rect_hd: "list_all (\<lambda>(b, e). b \<le> e) bounds \<Longrightarrow> rect bounds \<noteq> [] \<and> hd (rect bounds) = map fst bounds"
proof (induction bounds)
  case (Cons be bounds)
  obtain b e where be: "be = (b, e)" by (cases be)
  then have "[b..<Suc e] = b # [Suc b..<Suc e]" using Cons.prems by (simp add: upt_conv_Cons)
  then show ?case using Cons be by (simp add: hd_append hd_map)
qed simp

lemma rect_linked: "list_all (\<lambda>(b, e). b \<le> e) bounds \<Longrightarrow> linked (advance bounds) (rect bounds) None"
proof (induction bounds)
  case (Cons be bounds)
  obtain b e where be: "be = (b, e)" by (cases be)
  let ?f = "advance ((b, e) # bounds)"
  let ?row = "\<lambda>c. map ((#) c) (rect bounds)"
  have ok: "list_all (\<lambda>(b, e). b \<le> e) bounds" "b \<le> e" using Cons.prems be by simp_all
  note hd = rect_hd [OF ok(1)]
  have row: "linked ?f (?row c) (if c < e then Some ((c + 1) # map fst bounds) else None)" for c
    by (rule linked_map [OF _ _ Cons.IH [OF ok(1)]]) auto
  have "linked ?f (concat (map ?row [c..<Suc e])) None" if "c \<le> e" for c
    using that
  proof (induction "e - c" arbitrary: c)
    case 0
    then have "c = e" by simp
    then show ?case using row [of e] by simp
  next
    case (Suc n)
    then have c: "c < e" "[c..<Suc e] = c # [Suc c..<Suc e]" by (simp_all add: upt_conv_Cons)
    have ne: "?row c \<noteq> []" "concat (map ?row [Suc c..<Suc e]) \<noteq> []"
      using hd c(1) by (auto simp: upt_conv_Cons)
    have "[Suc c..<Suc e] = Suc c # [Suc (Suc c)..<Suc e]" using c(1) by (simp add: upt_conv_Cons del: upt_Suc)
    then have h: "hd (concat (map ?row [Suc c..<Suc e])) = (c + 1) # map fst bounds"
      using hd by (simp add: hd_append hd_map del: upt_Suc)
    show ?case
      unfolding c(2) list.map concat.simps linked_append [OF ne] h
      using row [of c] c(1) Suc.hyps(1) [of "Suc c"] Suc.hyps(2) by simp
  qed
  then show ?case using ok(2) be by simp
qed simp

subsection \<open>Strides and flat indices\<close>

definition ext_ok :: "nat list \<Rightarrow> bool" where
  "ext_ok dims \<longleftrightarrow> list_all (\<lambda>d. 0 < d) dims \<and> prod_list dims \<le> U64_MAX"

lemma prod_list_pos: "list_all (\<lambda>d. 0 < d) dims \<Longrightarrow> 0 < prod_list (dims :: nat list)"
  by (induction dims) auto

lemma ext_ok_Cons: "ext_ok (d # ds) \<Longrightarrow> ext_ok ds \<and> 0 < d \<and> prod_list ds \<le> U64_MAX \<and> 0 < prod_list ds"
proof -
  assume a: "ext_ok (d # ds)"
  then have "1 * prod_list ds \<le> d * prod_list ds" by (intro mult_le_mono1) (simp add: ext_ok_def)
  moreover have "d * prod_list ds \<le> U64_MAX" using a by (simp add: ext_ok_def)
  ultimately have "prod_list ds \<le> U64_MAX" by linarith
  then show ?thesis using a prod_list_pos [of ds] by (simp add: ext_ok_def)
qed

lemma strides_Cons: "ext_ok (d # ds) \<Longrightarrow> strides (d # ds) = prod_list ds # strides ds"
proof (induction ds arbitrary: d)
  case (Cons e ds)
  have "ext_ok (e # ds)" "prod_list (e # ds) \<le> U64_MAX" using ext_ok_Cons [OF Cons.prems] by simp_all
  then show ?case using Cons.IH [of e] by (simp add: wrap64_id mult.commute)
qed simp

lemma flat_sum:
  "ext_ok dims \<Longrightarrow> length c = length dims \<Longrightarrow> sum_list (map2 (*) c (strides dims)) = flat_of dims c"
proof (induction dims arbitrary: c)
  case (Cons d ds)
  obtain x xs where c: "c = x # xs" "length xs = length ds" using Cons.prems(2) by (cases c) auto
  then show ?case using Cons.IH [of xs] ext_ok_Cons [OF Cons.prems(1)] strides_Cons [OF Cons.prems(1)] by simp
qed simp

lemma flat_lt: "list_all2 (<) c dims \<Longrightarrow> flat_of dims c < prod_list dims"
proof (induction dims arbitrary: c)
  case (Cons d ds)
  then obtain x xs where c: "c = x # xs" "x < d" "list_all2 (<) xs ds" by (auto simp: list_all2_Cons2)
  then have "flat_of (d # ds) c < x * prod_list ds + prod_list ds" using Cons.IH by simp
  also have "\<dots> \<le> d * prod_list ds" using c(2) by (metis Suc_leI add.commute mult_Suc mult_le_mono1)
  finally show ?case by simp
qed simp

lemma flat_idx_exact: "ext_ok dims \<Longrightarrow> list_all2 (<) c dims \<Longrightarrow> flat_idx c (strides dims) = flat_of dims c"
  using flat_lt [of c dims] by (simp add: flat_idx_def flat_sum list_all2_lengthD wrap64_id ext_ok_def)

lemma flat_of_last:
  "length c + 1 = length dims \<Longrightarrow> flat_of dims (c @ [x]) = flat_of dims (c @ [0]) + x"
proof (induction dims arbitrary: c)
  case (Cons d ds)
  show ?case
  proof (cases c)
    case Nil
    then show ?thesis using Cons.prems by simp
  next
    case (Cons y ys)
    then show ?thesis using Cons.prems Cons.IH [of ys] by simp
  qed
qed simp

lemma flat_of_row_start: "list_all2 (<) (x # xs) (d # ds) \<Longrightarrow> x * prod_list ds \<le> flat_of (d # ds) (x # xs)"
  "list_all2 (<) (x # xs) (d # ds) \<Longrightarrow> flat_of (d # ds) (x # xs) < Suc x * prod_list ds"
  using flat_lt [of xs ds] by auto

lemma rect_bounds:
  "length bs = length be \<Longrightarrow> c \<in> set (rect (zip bs be)) \<Longrightarrow>
     length c = length bs \<and> (\<forall>i < length bs. bs ! i \<le> c ! i \<and> c ! i \<le> be ! i)"
proof (induction bs arbitrary: be c)
  case (Cons b bs)
  from Cons.prems(1) obtain e es where be: "be = e # es" by (cases be) auto
  obtain x xs where "c = x # xs" "b \<le> x" "x \<le> e" "xs \<in> set (rect (zip bs es))"
    using Cons.prems(2) be by (auto simp: less_Suc_eq_le simp del: upt_Suc)
  then show ?case using Cons.IH [of es xs] Cons.prems(1) be by (auto simp: nth_Cons split: nat.split)
qed simp

lemma rect_in_dims:
  assumes "block_ok dims (bs, be)" "c \<in> set (rect (zip bs be))"
  shows "list_all2 (<) c dims"
proof -
  have "length bs = length be" using assms(1) by (simp add: block_ok_def)
  note b = rect_bounds [OF this assms(2)]
  have "be ! i < dims ! i" if "i < length dims" for i
    using assms(1) that by (auto simp: block_ok_def list_all2_conv_all_nth)
  then show ?thesis using b assms(1) by (auto simp: block_ok_def list_all2_conv_all_nth intro: le_less_trans)
qed

lemma concat_map_concat: "concat (map (\<lambda>y. concat (f y)) ys) = concat (concat (map f ys))"
  by (induction ys) simp_all

lemma rect_snoc: "rect (bounds @ [(b, e)]) = concat (map (\<lambda>c. map (\<lambda>x. c @ [x]) [b..<Suc e]) (rect bounds))"
proof (induction bounds)
  case Nil
  then show ?case by (simp add: map_concat comp_def del: upt_Suc)
next
  case (Cons be bounds)
  obtain p q where be: "be = (p, q)" by (cases be)
  show ?case unfolding be by (simp add: Cons map_concat comp_def concat_map_concat del: upt_Suc)
qed

subsection \<open>The walk over a block\<close>

lemma map_shift_upt: "map (\<lambda>x. k + x) [b..<e] = [k + b..<k + e]" for k :: nat
  by (induction e) auto

lemma zip_butlast_last:
  "bs \<noteq> [] \<Longrightarrow> length bs = length be \<Longrightarrow> zip bs be = zip (butlast bs) (butlast be) @ [(last bs, last be)]"
proof -
  assume a: "bs \<noteq> []" "length bs = length be"
  then have "zip (butlast bs @ [last bs]) (butlast be @ [last be]) = zip (butlast bs) (butlast be) @ [(last bs, last be)]"
    by (subst zip_append) simp_all
  then show ?thesis using a by (metis append_butlast_last_id length_0_conv)
qed

definition row :: "nat list \<Rightarrow> nat \<Rightarrow> nat \<Rightarrow> nat list \<Rightarrow> nat list" where
  "row dims bl len c = [flat_of dims (c @ [bl])..<flat_of dims (c @ [bl]) + len]"

lemma list_all2_last: "list_all2 P xs ys \<Longrightarrow> xs \<noteq> [] \<Longrightarrow> P (last xs) (last ys)"
  by (induction xs ys rule: list_all2_induct) (auto simp: list_all2_Cons1)

lemma block_elems_rows:
  assumes "block_ok dims (bs, be)" "dims \<noteq> []"
  shows "block_elems dims (bs, be) =
    concat (map (row dims (last bs) (Suc (last be) - last bs)) (rect (zip (butlast bs) (butlast be))))"
proof -
  have l: "length bs = length dims" "length be = length dims" using assms(1) by (simp_all add: block_ok_def)
  then have ne: "bs \<noteq> []" "length bs = length be" using assms(2) by auto
  have le: "last bs \<le> last be"
    using assms(1) ne(1) by (auto simp: block_ok_def intro: list_all2_last)
  have "map (flat_of dims) (map (\<lambda>x. c @ [x]) [last bs..<Suc (last be)]) = row dims (last bs) (Suc (last be) - last bs) c"
    if "c \<in> set (rect (zip (butlast bs) (butlast be)))" for c
  proof -
    have "length c + 1 = length dims" using rect_bounds [OF _ that] l assms(2) by simp
    then have f: "flat_of dims (c @ [x]) = flat_of dims (c @ [0]) + x" for x by (rule flat_of_last)
    have "map (flat_of dims) (map (\<lambda>x. c @ [x]) [last bs..<Suc (last be)]) = map (\<lambda>x. flat_of dims (c @ [0]) + x) [last bs..<Suc (last be)]"
      unfolding map_map comp_def by (rule map_cong [OF refl]) (rule f)
    also have "\<dots> = [flat_of dims (c @ [0]) + last bs..<flat_of dims (c @ [0]) + Suc (last be)]"
      by (rule map_shift_upt)
    also have "flat_of dims (c @ [0]) + Suc (last be) = flat_of dims (c @ [0]) + last bs + (Suc (last be) - last bs)"
      using le by simp
    finally show ?thesis unfolding row_def f [of "last bs"] .
  qed
  then show ?thesis
    unfolding block_elems_def fst_conv snd_conv zip_butlast_last [OF ne] rect_snoc map_concat
    by (simp add: comp_def cong: map_cong)
qed

lemma lead_start:
  assumes "ext_ok dims" "list_all2 (<) (c @ [bl]) dims" "c \<noteq> []"
  shows "0 < hd (strides dims)" "hd c * hd (strides dims) \<le> flat_of dims (c @ [bl])"
    "wrap64 (hd c * hd (strides dims)) = hd c * hd (strides dims)"
proof -
  obtain x xs where c: "c = x # xs" using assms(3) by (cases c) auto
  obtain d ds where d: "dims = d # ds" using assms(2) c by (cases dims) auto
  have hd: "hd (strides dims) = prod_list ds" using strides_Cons assms(1) d by simp
  show "0 < hd (strides dims)" using hd ext_ok_Cons assms(1) d by simp
  show le: "hd c * hd (strides dims) \<le> flat_of dims (c @ [bl])"
    using flat_of_row_start(1) [of x "xs @ [bl]" d ds] assms(2) c d hd by simp
  show "wrap64 (hd c * hd (strides dims)) = hd c * hd (strides dims)"
    using le flat_lt [OF assms(2)] assms(1) by (intro wrap64_id) (simp add: ext_ok_def)
qed

lemma row_walk_step:
  assumes "ext_ok dims" "list_all2 (<) (lead @ [bl]) dims" "flat_of dims (lead @ [bl]) + len \<le> prod_list dims" "length runs \<le> m"
  shows "row_walk (strides dims) rs re m bounds bl len lead runs =
    (if lead \<noteq> [] \<and> re \<le> hd lead * hd (strides dims) then Some (Inr runs)
     else case bounded m (pushes runs (filter (in_range rs re) (row dims bl len lead))) of
            Inl err \<Rightarrow> Some (Inl err)
          | Inr runs' \<Rightarrow> (case advance bounds lead of
                None \<Rightarrow> Some (Inr runs')
              | Some lead' \<Rightarrow> row_walk (strides dims) rs re m bounds bl len lead' runs'))"
proof -
  have "wrap64 (flat_of dims (lead @ [bl]) + len) = flat_of dims (lead @ [bl]) + len"
    using assms(1,3) by (intro wrap64_id) (simp add: ext_ok_def)
  moreover have "lead \<noteq> [] \<and> hd (strides dims) > 0 \<and> wrap64 (hd lead * hd (strides dims)) \<ge> re \<longleftrightarrow>
      lead \<noteq> [] \<and> re \<le> hd lead * hd (strides dims)"
    using lead_start [OF assms(1,2)] by auto
  ultimately show ?thesis
    by (subst row_walk.simps) (simp only: Let_def flat_idx_exact [OF assms(1,2)] emit_run_pushes [OF assms(4)] row_def)
qed

lemma past_range:
  assumes "ext_ok dims" "lead \<noteq> []" "re \<le> hd lead * hd (strides dims)"
    and "\<forall>c \<in> set cs. length c = length lead \<and> list_all2 (<) (c @ [bl]) dims \<and> hd lead \<le> hd c"
  shows "filter (in_range rs re) (concat (map (row dims bl len) cs)) = []"
proof -
  have "re \<le> x" if "c \<in> set cs" "x \<in> set (row dims bl len c)" for c x
  proof -
    have c: "list_all2 (<) (c @ [bl]) dims" "hd lead \<le> hd c" "c \<noteq> []" using that(1) assms(2,4) by auto
    have "re \<le> hd c * hd (strides dims)" using assms(3) c(2) by (meson le_trans mult_le_mono1)
    also have "\<dots> \<le> flat_of dims (c @ [bl])" by (rule lead_start(2) [OF assms(1) c(1,3)])
    also have "\<dots> \<le> x" using that(2) by (simp add: row_def)
    finally show ?thesis .
  qed
  then show ?thesis by (fastforce simp: filter_empty_conv)
qed

lemma row_walk_rows:
  assumes "ext_ok dims" "linked (advance bounds) (lead # rest) None" "sorted (map hd (lead # rest))"
    and "\<forall>c \<in> set (lead # rest). length c = length lead \<and> list_all2 (<) (c @ [bl]) dims \<and> flat_of dims (c @ [bl]) + len \<le> prod_list dims"
    and "length runs \<le> m"
  shows "row_walk (strides dims) rs re m bounds bl len lead runs =
    Some (bounded m (pushes runs (filter (in_range rs re) (concat (map (row dims bl len) (lead # rest))))))"
  using assms(2-5)
proof (induction rest arbitrary: lead runs)
  case Nil
  have one: "list_all2 (<) (lead @ [bl]) dims" "flat_of dims (lead @ [bl]) + len \<le> prod_list dims" using Nil.prems(3) by simp_all
  have out: "lead \<noteq> [] \<Longrightarrow> re \<le> hd lead * hd (strides dims) \<Longrightarrow> filter (in_range rs re) (concat (map (row dims bl len) [lead])) = []"
    using past_range [OF assms(1), of lead re "[lead]" bl rs len] one by simp
  have adv: "advance bounds lead = None" using Nil.prems(1) by simp
  show ?case
    unfolding row_walk_step [OF assms(1) one Nil.prems(4)] adv
    using out Nil.prems(4) by (auto simp: bounded_def)
next
  case (Cons a rest)
  let ?R = "pushes runs (filter (in_range rs re) (row dims bl len lead))"
  have one: "list_all2 (<) (lead @ [bl]) dims" "flat_of dims (lead @ [bl]) + len \<le> prod_list dims" using Cons.prems(3) by simp_all
  have out: "lead \<noteq> [] \<Longrightarrow> re \<le> hd lead * hd (strides dims) \<Longrightarrow>
      filter (in_range rs re) (concat (map (row dims bl len) (lead # a # rest))) = []"
  proof (rule past_range [OF assms(1)])
    show "\<forall>c \<in> set (lead # a # rest). length c = length lead \<and> list_all2 (<) (c @ [bl]) dims \<and> hd lead \<le> hd c"
      using Cons.prems(2,3) by simp
  qed
  have adv: "advance bounds lead = Some a" using Cons.prems(1) by simp
  have IH: "row_walk (strides dims) rs re m bounds bl len a ?R =
      Some (bounded m (pushes ?R (filter (in_range rs re) (concat (map (row dims bl len) (a # rest))))))" if "length ?R \<le> m"
  proof (rule Cons.IH [OF _ _ _ that])
    show "linked (advance bounds) (a # rest) None" "sorted (map hd (a # rest))" using Cons.prems(1,2) by simp_all
    show "\<forall>c \<in> set (a # rest). length c = length a \<and> list_all2 (<) (c @ [bl]) dims \<and> flat_of dims (c @ [bl]) + len \<le> prod_list dims"
      using Cons.prems(3) by simp
  qed
  have split: "pushes runs (filter (in_range rs re) (concat (map (row dims bl len) (lead # a # rest)))) =
      pushes ?R (filter (in_range rs re) (concat (map (row dims bl len) (a # rest))))" by simp
  show ?case
  proof (cases "lead \<noteq> [] \<and> re \<le> hd lead * hd (strides dims)")
    case True
    then show ?thesis
      unfolding row_walk_step [OF assms(1) one Cons.prems(4)] using out Cons.prems(4) by (simp add: bounded_def)
  next
    case False
    note step = row_walk_step [OF assms(1) one Cons.prems(4), of rs re bounds, unfolded if_not_P [OF False] adv]
    show ?thesis
    proof (cases "length ?R \<le> m")
      case True
      then have "bounded m ?R = Inr ?R" by (simp add: bounded_def)
      then show ?thesis unfolding step split using IH [OF True] by simp
    next
      case False
      then have "bounded m ?R = Inl EFail" by (simp add: bounded_def)
      then show ?thesis unfolding step split bounded_stops [OF False] by simp
    qed
  qed
qed

lemma sorted_rect_hd:
  assumes "list_all (\<lambda>(b, e). b \<le> e) bounds"
  shows "sorted (map hd (rect bounds))"
proof (cases bounds)
  case (Cons be r)
  obtain b e where be: "be = (b, e)" by (cases be)
  have "sorted (concat (map (\<lambda>c. replicate k c) [b..<n])) \<and> (\<forall>x \<in> set (concat (map (\<lambda>c. replicate k c) [b..<n])). x < n)" for k n
    by (induction n) (auto simp: sorted_append less_Suc_eq_le)
  moreover have "map hd (rect bounds) = concat (map (\<lambda>c. replicate (length (rect r)) c) [b..<Suc e])"
    unfolding Cons be by (simp add: map_concat comp_def map_replicate_const del: upt_Suc)
  ultimately show ?thesis by (simp del: upt_Suc)
qed simp

lemma walk_block:
  assumes "ext_ok dims" "dims \<noteq> []" "block_ok dims (bs, be)" "length runs \<le> m"
    and "advance bounds = advance (zip (butlast bs) (butlast be))"
  shows "row_walk (strides dims) rs re m bounds (last bs) (Suc (last be) - last bs) (butlast bs) runs =
    Some (bounded m (pushes runs (filter (in_range rs re) (block_elems dims (bs, be)))))"
proof -
  let ?b = "zip (butlast bs) (butlast be)"
  have l: "length bs = length dims" "length be = length dims" using assms(3) by (simp_all add: block_ok_def)
  have ne: "bs \<noteq> []" "be \<noteq> []" "length bs = length be" using l assms(2) by auto
  have le: "bs ! i \<le> be ! i" if "i < length bs" for i
    using assms(3) that by (auto simp: block_ok_def list_all2_conv_all_nth)
  have ok: "list_all (\<lambda>(b, e). b \<le> e) ?b"
    using le ne by (auto simp: list_all_length nth_butlast)
  have hd: "rect ?b \<noteq> []" "hd (rect ?b) = butlast bs" using rect_hd [OF ok] ne by (simp_all add: map_fst_zip)
  then obtain rest where rest: "rect ?b = butlast bs # rest" by (cases "rect ?b") auto
  have in_dims: "length c = length (butlast bs) \<and> list_all2 (<) (c @ [last bs]) dims \<and>
      flat_of dims (c @ [last bs]) + (Suc (last be) - last bs) \<le> prod_list dims" if "c \<in> set (rect ?b)" for c
  proof -
    have mem: "c @ [x] \<in> set (rect (zip bs be))" if "last bs \<le> x" "x \<le> last be" for x
      unfolding zip_butlast_last [OF ne(1,3)] rect_snoc using \<open>c \<in> set (rect ?b)\<close> that
      by (auto simp: less_Suc_eq_le simp del: upt_Suc intro!: bexI [of _ c])
    have lb: "last bs \<le> last be" using assms(3) ne(1) by (auto simp: block_ok_def intro: list_all2_last)
    have len: "length c = length (butlast bs)" using rect_bounds [OF _ that] ne by simp
    then have f: "flat_of dims (c @ [x]) = flat_of dims (c @ [0]) + x" for x using l assms(2) by (intro flat_of_last) simp
    have "flat_of dims (c @ [last be]) < prod_list dims" using flat_lt [OF rect_in_dims [OF assms(3) mem]] lb by simp
    then show ?thesis
      using len rect_in_dims [OF assms(3) mem [OF order_refl lb]] lb f [of "last be"] f [of "last bs"] by simp
  qed
  have "row_walk (strides dims) rs re m bounds (last bs) (Suc (last be) - last bs) (butlast bs) runs =
      Some (bounded m (pushes runs (filter (in_range rs re) (concat (map (row dims (last bs) (Suc (last be) - last bs)) (butlast bs # rest))))))"
    using rect_linked [OF ok] sorted_rect_hd [OF ok] in_dims assms(4,5) unfolding rest
    by (intro row_walk_rows [OF assms(1)]) simp_all
  then show ?thesis unfolding block_elems_rows [OF assms(3,2)] rest .
qed

subsection \<open>The two shortcuts of a block\<close>

lemma concat_slices: "b \<le> e \<Longrightarrow> concat (map (\<lambda>c. [c * k..<Suc c * k]) [b..<e]) = [b * k..<e * k]" for k :: nat
proof (induction e)
  case (Suc e)
  show ?case
  proof (cases "b = Suc e")
    case False
    then have be: "b \<le> e" using Suc.prems by simp
    then have "b * k \<le> e * k" by simp
    then have "[b * k..<e * k] @ [e * k..<e * k + k] = [b * k..<e * k + k]"
      by (metis le_add1 le_add_diff_inverse upt_add_eq_append)
    then show ?thesis using Suc.IH [OF be] be by (simp add: add.commute)
  qed simp
qed simp

lemma rect_full:
  "list_all (\<lambda>d. 0 < d) ds \<Longrightarrow> map (flat_of ds) (rect (zip (replicate (length ds) 0) (map (\<lambda>d. d - 1) ds))) = [0..<prod_list ds]"
proof (induction ds)
  case (Cons d ds)
  let ?r = "rect (zip (replicate (length ds) 0) (map (\<lambda>d. d - 1) ds))"
  have "map (flat_of (d # ds)) (map ((#) c) ?r) = [c * prod_list ds..<Suc c * prod_list ds]" for c
  proof -
    have "map (flat_of (d # ds)) (map ((#) c) ?r) = map (\<lambda>x. c * prod_list ds + x) (map (flat_of ds) ?r)"
      by simp
    also have "\<dots> = [c * prod_list ds..<Suc c * prod_list ds]"
      using Cons map_shift_upt [of "c * prod_list ds" 0 "prod_list ds"] by (simp add: add.commute)
    finally show ?thesis .
  qed
  then have "map (flat_of (d # ds)) (rect (zip (replicate (length (d # ds)) 0) (map (\<lambda>d. d - 1) (d # ds)))) =
      concat (map (\<lambda>c. [c * prod_list ds..<Suc c * prod_list ds]) [0..<d])"
    using Cons.prems by (simp add: map_concat comp_def del: upt_Suc)
  then show ?case using concat_slices [of 0 d "prod_list ds"] by simp
qed simp

lemma block_full:
  assumes "ext_ok (d # ds)" "b0 \<le> e0" "bs = replicate (length ds) 0" "be = map (\<lambda>d. d - 1) ds"
  shows "block_elems (d # ds) (b0 # bs, e0 # be) = [b0 * prod_list ds..<Suc e0 * prod_list ds]"
proof -
  have pos: "list_all (\<lambda>d. 0 < d) ds" using assms(1) by (simp add: ext_ok_def)
  have "map (flat_of (d # ds)) (map ((#) c) (rect (zip bs be))) = [c * prod_list ds..<Suc c * prod_list ds]" for c
  proof -
    have "map (flat_of (d # ds)) (map ((#) c) (rect (zip bs be))) = map (\<lambda>x. c * prod_list ds + x) (map (flat_of ds) (rect (zip bs be)))"
      by simp
    also have "\<dots> = [c * prod_list ds..<Suc c * prod_list ds]"
      using rect_full [OF pos] map_shift_upt [of "c * prod_list ds" 0 "prod_list ds"] assms(3,4) by (simp add: add.commute)
    finally show ?thesis .
  qed
  then have "block_elems (d # ds) (b0 # bs, e0 # be) = concat (map (\<lambda>c. [c * prod_list ds..<Suc c * prod_list ds]) [b0..<Suc e0])"
    by (simp add: block_elems_def map_concat comp_def del: upt_Suc)
  then show ?thesis using concat_slices [of b0 "Suc e0" "prod_list ds"] assms(2) by simp
qed

lemma block_skip:
  assumes "block_ok (d # ds) (b0 # bs, e0 # be)" "b0 \<le> c0" "c0 \<le> Suc e0" "c0 * prod_list ds \<le> rs"
  shows "filter (in_range rs re) (block_elems (d # ds) (b0 # bs, e0 # be)) =
    filter (in_range rs re) (map (flat_of (d # ds)) (concat (map (\<lambda>c. map ((#) c) (rect (zip bs be))) [c0..<Suc e0])))"
proof -
  have "[b0..<Suc e0] = [b0..<c0] @ [c0..<Suc e0]"
    using assms(2,3) by (metis le_add_diff_inverse upt_add_eq_append)
  then have split: "block_elems (d # ds) (b0 # bs, e0 # be) =
      map (flat_of (d # ds)) (concat (map (\<lambda>c. map ((#) c) (rect (zip bs be))) [b0..<c0])) @
      map (flat_of (d # ds)) (concat (map (\<lambda>c. map ((#) c) (rect (zip bs be))) [c0..<Suc e0]))"
    by (simp add: block_elems_def del: upt_Suc)
  have "flat_of (d # ds) (c # cs) < rs" if "c < c0" "b0 \<le> c" "cs \<in> set (rect (zip bs be))" for c cs
  proof -
    have "c # cs \<in> set (rect (zip (b0 # bs) (e0 # be)))" using that assms(3) by (auto simp del: upt_Suc)
    then have "flat_of (d # ds) (c # cs) < Suc c * prod_list ds"
      using rect_in_dims [OF assms(1)] flat_of_row_start(2) by blast
    also have "\<dots> \<le> c0 * prod_list ds" using that(1) by (intro mult_le_mono1 Suc_leI)
    finally show ?thesis using assms(4) by simp
  qed
  then have "filter (in_range rs re) (map (flat_of (d # ds)) (concat (map (\<lambda>c. map ((#) c) (rect (zip bs be))) [b0..<c0]))) = []"
    by (fastforce simp: filter_empty_conv)
  then show ?thesis unfolding split by simp
qed

lemma advance_head: "advance ((b, e) # bounds) = advance ((b', e) # bounds)"
proof
  show "advance ((b, e) # bounds) c = advance ((b', e) # bounds) c" for c by (cases c) auto
qed

lemma dim_le_prod: "list_all (\<lambda>d. 0 < d) dims \<Longrightarrow> d \<in> set dims \<Longrightarrow> d \<le> prod_list (dims :: nat list)"
proof (induction dims)
  case (Cons e dims)
  have p: "0 < e" "0 < prod_list dims" using Cons.prems(1) prod_list_pos by simp_all
  show ?case
  proof (cases "d = e")
    case True
    then show ?thesis using p by simp
  next
    case False
    then have "d \<le> prod_list dims" using Cons by simp
    also have "\<dots> \<le> e * prod_list dims" using p by simp
    finally show ?thesis by simp
  qed
qed simp

lemma ext_ok_dim: "ext_ok dims \<Longrightarrow> d \<in> set dims \<Longrightarrow> 0 < d \<and> d \<le> U64_MAX"
  using dim_le_prod [of dims d] by (auto simp: ext_ok_def list_all_iff)

lemma full_test:
  assumes "ext_ok ds" "length bs = length ds" "length be = length ds"
  shows "list_all (\<lambda>(b, e, d). b = 0 \<and> e = sub64 d 1) (zip bs (zip be ds)) \<longleftrightarrow>
    bs = replicate (length ds) 0 \<and> be = map (\<lambda>d. d - 1) ds"
proof -
  have "sub64 (ds ! i) 1 = ds ! i - 1" if "i < length ds" for i
    using ext_ok_dim [OF assms(1), of "ds ! i"] that by (intro sub64_id) auto
  then show ?thesis
    using assms(2,3) by (auto simp: list_all_length list_eq_iff_nth_eq)
qed

lemma block_runs_ok:
  assumes "ext_ok dims" "dims \<noteq> []" "block_ok dims blk" "length runs \<le> m"
  shows "block_runs dims rs re m blk runs = Some (bounded m (pushes runs (filter (in_range rs re) (block_elems dims blk))))"
proof -
  obtain bs be where blk: "blk = (bs, be)" by (cases blk)
  have ok: "block_ok dims (bs, be)" using assms(3) blk by simp
  have l: "length bs = length dims" "length be = length dims" using ok by (simp_all add: block_ok_def)
  have ne: "bs \<noteq> []" "be \<noteq> []" using l assms(2) by auto
  have lb: "last bs \<le> last be" "last be < last dims"
    using ok ne by (auto simp: block_ok_def intro: list_all2_last)
  have "last dims \<le> U64_MAX" using ext_ok_dim [OF assms(1)] assms(2) by simp
  then have len: "wrap64 (sub64 (last be) (last bs) + 1) = Suc (last be) - last bs"
    using lb by (simp add: sub64_id wrap64_id Suc_diff_le)
  show ?thesis
  proof (cases "length dims > 1 \<and> hd (strides dims) > 0")
    case False
    then have "block_runs dims rs re m blk runs =
        row_walk (strides dims) rs re m (zip (butlast bs) (butlast be)) (last bs) (Suc (last be) - last bs) (butlast bs) runs"
      unfolding blk block_runs_def prod.case Let_def len by (rule if_not_P)
    then show ?thesis using walk_block [OF assms(1,2) ok assms(4) refl] blk by simp
  next
    case True
    obtain d ds where dims: "dims = d # ds" "ds \<noteq> []" using True by (cases dims) auto
    obtain b0 bs' e0 be' where b: "bs = b0 # bs'" "be = e0 # be'" "length bs' = length ds" "length be' = length ds"
      using l dims by (cases bs; cases be) auto
    have st: "hd (strides dims) = prod_list ds" using strides_Cons assms(1) dims by simp
    have e0: "b0 \<le> e0" "e0 < d" using ok b dims by (simp_all add: block_ok_def)
    have ds: "ext_ok ds" "prod_list ds \<le> U64_MAX" "0 < prod_list ds" using ext_ok_Cons assms(1) dims by auto
    have fits: "c \<le> d \<Longrightarrow> c * prod_list ds \<le> U64_MAX" for c
      using assms(1) dims by (metis ext_ok_def le_trans mult_le_mono1 prod_list.Cons)
    have dU: "d \<le> U64_MAX" using ext_ok_dim [OF assms(1)] dims by simp
    show ?thesis
    proof (cases "bs' = replicate (length ds) 0 \<and> be' = map (\<lambda>d. d - 1) ds")
      case full: True
      have "block_runs dims rs re m blk runs = Some (emit_run rs re m (b0 * prod_list ds) (Suc e0 * prod_list ds) runs)"
        using True full full_test [OF ds(1) b(3,4)] fits [of b0] fits [of "Suc e0"] e0 dU
        unfolding blk block_runs_def prod.case Let_def b dims list.sel
        by (simp add: wrap64_id st [unfolded dims(1)])
      then show ?thesis
        using block_full [of d ds b0 e0 bs' be'] assms(1,4) dims e0 full blk b by (simp add: emit_run_pushes)
    next
      case part: False
      define c0 where "c0 = (if b0 < rs div prod_list ds then rs div prod_list ds else b0)"
      have c0: "b0 \<le> c0" "c0 \<noteq> b0 \<Longrightarrow> c0 * prod_list ds \<le> rs" by (auto simp: c0_def)
      have nt: "\<not> list_all (\<lambda>(b, e, d). b = 0 \<and> e = sub64 d 1) (zip (tl bs) (zip (tl be) (tl dims)))"
        using full_test [OF ds(1) b(3,4)] part b dims by simp
      have eq: "block_runs dims rs re m blk runs =
          (if c0 > e0 then Some (Inr runs)
           else row_walk (strides dims) rs re m (zip (butlast bs) (butlast be)) (last bs) (Suc (last be) - last bs) (c0 # tl (butlast bs)) runs)"
        unfolding blk block_runs_def prod.case Let_def len if_P [OF True] if_not_P [OF nt] by (simp only: st c0_def b(1,2) list.sel)
      have okb: "block_ok (d # ds) (b0 # bs', e0 # be')" using ok b dims by simp
      show ?thesis
      proof (cases "c0 > e0")
        case True
        then have "Suc e0 * prod_list ds \<le> c0 * prod_list ds" by (intro mult_le_mono1 Suc_leI)
        then have "Suc e0 * prod_list ds \<le> rs" using c0(2) True e0(1) by linarith
        then have "filter (in_range rs re) (block_elems dims blk) = []"
          using block_skip [OF okb _ order_refl, of rs re] e0(1) dims blk b by simp
        then show ?thesis unfolding eq using True assms(4) by (simp add: bounded_def)
      next
        case False
        then have ok0: "block_ok dims (c0 # bs', be)" using okb dims b by (simp add: block_ok_def)
        have nb: "bs' \<noteq> []" "be' \<noteq> []" using b dims by auto
        have adv: "advance (zip (butlast bs) (butlast be)) = advance (zip (butlast (c0 # bs')) (butlast be))"
          using nb b advance_head [of b0 e0 _ c0] by simp
        have skip: "filter (in_range rs re) (block_elems dims blk) = filter (in_range rs re) (block_elems dims (c0 # bs', be))"
        proof (cases "c0 = b0")
          case neq: False
          then show ?thesis
            using block_skip [OF okb c0(1) _ c0(2) [OF neq], of re] False dims blk b by (simp add: block_elems_def del: upt_Suc)
        qed (simp add: blk b)
        have lead: "c0 # tl (butlast bs) = butlast (c0 # bs')" "last bs = last (c0 # bs')" using nb b by simp_all
        show ?thesis
          unfolding eq skip if_not_P [OF False] lead by (rule walk_block [OF assms(1,2) ok0 assms(4) adv])
      qed
    qed
  qed
qed

lemma blocks_runs_ok:
  assumes "ext_ok dims" "dims \<noteq> []" "list_all (block_ok dims) blks" "length runs \<le> m"
  shows "blocks_runs dims rs re m blks runs =
    Some (bounded m (pushes runs (filter (in_range rs re) (concat (map (block_elems dims) blks)))))"
  using assms(3,4)
proof (induction blks arbitrary: runs)
  case Nil
  then show ?case by (simp add: bounded_def)
next
  case (Cons blk blks)
  let ?R = "pushes runs (filter (in_range rs re) (block_elems dims blk))"
  have blk: "block_runs dims rs re m blk runs = Some (bounded m ?R)"
    using block_runs_ok [OF assms(1,2) _ Cons.prems(2)] Cons.prems(1) by simp
  have split: "pushes runs (filter (in_range rs re) (concat (map (block_elems dims) (blk # blks)))) =
      pushes ?R (filter (in_range rs re) (concat (map (block_elems dims) blks)))" by simp
  show ?case
  proof (cases "length ?R \<le> m")
    case True
    then have "bounded m ?R = Inr ?R" by (simp add: bounded_def)
    then show ?thesis unfolding split using blk Cons.IH [OF _ True] Cons.prems(1) by simp
  next
    case False
    then have "bounded m ?R = Inl EFail" by (simp add: bounded_def)
    then show ?thesis unfolding split bounded_stops [OF False] using blk by simp
  qed
qed

text \<open>
  (C9) The decomposition of a hyperslab selection returns and is exact: the runs list, in the
  order of the block list and row-major within a block, exactly the selected elements that
  lie in the range, abutting pieces merged; and it is refused exactly when that merged list
  needs more runs than the budget, whatever lies outside the range. The two shortcuts that
  skip rows do not change the answer.
\<close>

theorem flat_runs_range_exact:
  assumes "\<not> ds_scalar sp" and "ds_dims sp = Some dims" and "dims \<noteq> []" and "ext_ok dims"
    and "ds_sel sp = SEL_HYPERSLABS (Some blocks)" and "blocks \<noteq> []" and "list_all (block_ok dims) blocks"
    and "0 < max_runs"
  shows "flat_runs_range sp rs re max_runs =
    (let elems = filter (\<lambda>x. rs \<le> x \<and> x < re) (concat (map (block_elems dims) blocks)) in
     Some (if length (canon elems) \<le> max_runs then Inr (canon elems) else Inl EFail)) \<and>
    runs_elems (canon (filter (\<lambda>x. rs \<le> x \<and> x < re) (concat (map (block_elems dims) blocks)))) =
      filter (\<lambda>x. rs \<le> x \<and> x < re) (concat (map (block_elems dims) blocks))"
  using assms blocks_runs_ok [OF assms(4,3,7), of "[]" max_runs rs re]
  by (simp add: flat_runs_range_def canon_def bounded_def runs_elems_pushes)

theorem flat_runs_range_exact_witness:
  "flat_runs_range \<lparr>ds_scalar = False, ds_dims = Some [4, 3], ds_sel = SEL_HYPERSLABS (Some [([1, 0], [2, 2]), ([3, 1], [3, 1])]),
       ds_npoints = Some 7, ds_bounds = Some ([1, 0], [3, 2])\<rparr> 4 100 8 =
   Some (Inr [\<lparr>run_start = 4, run_count = 5\<rparr>, \<lparr>run_start = 10, run_count = 1\<rparr>])"
proof -
  let ?sp = "\<lparr>ds_scalar = False, ds_dims = Some [4, 3], ds_sel = SEL_HYPERSLABS (Some [([1, 0], [2, 2]), ([3, 1], [3, 1])]),
       ds_npoints = Some 7, ds_bounds = Some ([1, 0], [3, 2])\<rparr>"
  have "canon (filter (\<lambda>x. 4 \<le> x \<and> x < 100) (concat (map (block_elems [4, 3]) [([1, 0], [2, 2]), ([3, 1], [3, 1])]))) =
      [\<lparr>run_start = 4, run_count = 5\<rparr>, \<lparr>run_start = 10, run_count = 1\<rparr>]"
    by code_simp
  then show ?thesis
    using flat_runs_range_exact [of ?sp "[4, 3]" "[([1, 0], [2, 2]), ([3, 1], [3, 1])]" 8 4 100]
    by (simp add: ext_ok_def block_ok_def U64_MAX_val)
qed

subsection \<open>The linear span of a selection's bounding box\<close>

lemma bounds_fold:
  "ext_ok dims \<Longrightarrow> list_all2 (<) low dims \<Longrightarrow> list_all2 (<) high dims \<Longrightarrow>
   foldr (\<lambda>x acc. bounds_step acc x) (zip low (zip high dims)) (0, 0, 1) =
     (flat_of dims low, flat_of dims high, prod_list dims)"
proof (induction dims arbitrary: low high)
  case (Cons d ds)
  obtain l ls h hs where c: "low = l # ls" "high = h # hs" "list_all2 (<) ls ds" "list_all2 (<) hs ds"
    using Cons.prems(2,3) by (auto simp: list_all2_Cons2)
  have "flat_of (d # ds) low \<le> U64_MAX" "flat_of (d # ds) high \<le> U64_MAX" "prod_list (d # ds) \<le> U64_MAX"
    using flat_lt [OF Cons.prems(2)] flat_lt [OF Cons.prems(3)] Cons.prems(1) by (simp_all add: ext_ok_def)
  then show ?case
    using Cons.IH [OF _ c(3,4)] ext_ok_Cons [OF Cons.prems(1)] c(1,2)
    by (simp add: bounds_step_def wrap64_id ac_simps)
qed simp

lemma flat_mono: "list_all2 (\<le>) c c' \<Longrightarrow> length c = length dims \<Longrightarrow> flat_of dims c \<le> flat_of dims c'"
proof (induction c c' arbitrary: dims rule: list_all2_induct)
  case (Cons x xs y ys)
  then show ?case by (cases dims) (auto intro: add_mono mult_le_mono1)
qed simp

text \<open>
  The one-dimensional span routing uses for a selection is computed without wrap-around
  and covers the selection: every element whose coordinates lie in the bounding box is inside
  the span, and the two corners of the box are its first and last element.
\<close>

theorem space_1d_bounds_covers:
  assumes "\<not> ds_scalar sp" and "ds_dims sp = Some dims" and "dims \<noteq> []" and "ext_ok dims"
    and "ds_bounds sp = Some (low, high)" and "list_all2 (<) low dims" and "list_all2 (<) high dims"
    and "list_all2 (\<le>) low high"
  shows "\<exists>start count. space_1d_bounds sp = Inr (start, count) \<and>
      start = flat_of dims low \<and> start + count = flat_of dims high + 1 \<and>
      (\<forall>c. list_all2 (\<le>) low c \<and> list_all2 (\<le>) c high \<longrightarrow> start \<le> flat_of dims c \<and> flat_of dims c < start + count)"
proof -
  have l: "length low = length dims" "length high = length dims" using assms(6,7) by (simp_all add: list_all2_lengthD)
  have hi: "flat_of dims high + 1 \<le> U64_MAX" using flat_lt [OF assms(7)] assms(4) by (simp add: ext_ok_def)
  have lh: "flat_of dims low \<le> flat_of dims high" using flat_mono [OF assms(8)] l by simp
  have "space_1d_bounds sp = Inr (flat_of dims low, flat_of dims high - flat_of dims low + 1)"
    using assms(1-5) bounds_fold [OF assms(4,6,7)] hi lh
    by (simp add: space_1d_bounds_def foldl_conv_foldr sub64_id wrap64_id)
  moreover have "flat_of dims low \<le> flat_of dims c \<and> flat_of dims c \<le> flat_of dims high"
    if "list_all2 (\<le>) low c" "list_all2 (\<le>) c high" for c
    using flat_mono [OF that(1), of dims] flat_mono [OF that(2), of dims] l list_all2_lengthD [OF that(1)] by simp
  ultimately show ?thesis using lh
    by (intro exI [of _ "flat_of dims low"] exI [of _ "flat_of dims high - flat_of dims low + 1"]) (simp add: less_Suc_eq_le)
qed

theorem space_1d_bounds_covers_witness:
  "space_1d_bounds \<lparr>ds_scalar = False, ds_dims = Some [6, 8], ds_sel = SEL_HYPERSLABS None, ds_npoints = Some 6,
       ds_bounds = Some ([0, 3], [5, 3])\<rparr> = Inr (3, 41)"
proof -
  let ?sp = "\<lparr>ds_scalar = False, ds_dims = Some [6, 8], ds_sel = SEL_HYPERSLABS None, ds_npoints = Some 6,
       ds_bounds = Some ([0, 3], [5, 3])\<rparr>"
  have ok: "ext_ok [6, 8]" by (simp add: ext_ok_def U64_MAX_val)
  obtain start count where "space_1d_bounds ?sp = Inr (start, count)" and "start = flat_of [6, 8] [0, 3]"
    and "start + count = flat_of [6, 8] [5, 3] + 1"
    using space_1d_bounds_covers [OF _ _ _ ok, of ?sp "[0, 3]" "[5, 3]"] by auto
  then show ?thesis by simp
qed

subsection \<open>Gathering a memory selection\<close>

definition elem_bytes :: "nat \<Rightarrow> byte list \<Rightarrow> nat \<Rightarrow> byte list" where
  "elem_bytes es buf i = take es (drop (i * es) buf)"

lemma elem_bytes_piece:
  "concat (map (elem_bytes es buf) [s..<s + c]) = take (c * es) (drop (s * es) buf)"
proof (induction c)
  case (Suc c)
  have "take (c * es) (drop (s * es) buf) @ take es (drop ((s + c) * es) buf) = take (c * es + es) (drop (s * es) buf)"
    unfolding take_add [of "c * es" es] drop_drop add_mult_distrib add.commute [of "s * es"] ..
  moreover have "[s..<s + Suc c] = [s..<s + c] @ [s + c]" by simp
  ultimately show ?case unfolding mult_Suc add.commute [of es] using Suc by (simp add: elem_bytes_def)
qed simp

lemma runs_elems_bound: "\<forall>x \<in> set (runs_elems runs). x < n \<Longrightarrow> r \<in> set runs \<Longrightarrow> 0 < run_count r \<Longrightarrow>
  run_start r + run_count r \<le> n"
proof -
  assume a: "\<forall>x \<in> set (runs_elems runs). x < n" "r \<in> set runs" "0 < run_count r"
  then have "run_start r + run_count r - 1 \<in> set (runs_elems runs)"
    by (auto simp: run_simps runs_set_def run_set_def intro!: bexI [of _ r])
  then show ?thesis using a(1) by fastforce
qed

lemma gather_runs_exact:
  assumes "\<forall>x \<in> set (runs_elems runs). x < n" "\<forall>r \<in> set runs. 0 < run_count r" "n * es \<le> length buf"
    "k + length (runs_elems runs) = m"
  shows "gather_runs buf es m k out runs = Inr (out @ concat (map (elem_bytes es buf) (runs_elems runs)))"
  using assms
proof (induction runs arbitrary: k out)
  case (Cons r rs)
  have "run_start r + run_count r \<le> n" using runs_elems_bound [OF Cons.prems(1)] Cons.prems(2) by simp
  then have "(run_start r + run_count r) * es \<le> length buf"
    using Cons.prems(3) by (meson le_trans mult_le_mono1)
  then have "mem_read buf (run_start r * es) (run_count r * es) =
      Inr (concat (map (elem_bytes es buf) (run_elems r)))"
    by (simp add: mem_read_def run_elems_def elem_bytes_piece add_mult_distrib)
  then show ?case using Cons.prems Cons.IH [of "k + run_count r" "out @ concat (map (elem_bytes es buf) (run_elems r))"] by simp
qed simp

lemma pushes_pos: "\<forall>r \<in> set runs. 0 < run_count r \<Longrightarrow> \<forall>r \<in> set (pushes runs xs). 0 < run_count r"
proof (induction xs rule: rev_induct)
  case (snoc x xs)
  have "\<forall>r \<in> set (run_push qs x 1). 0 < run_count r" if "\<forall>r \<in> set qs. 0 < run_count r" for qs :: "flat_run list"
    using that by (cases qs rule: rev_cases) (auto simp: run_push_def)
  then show ?case using snoc by (simp add: pushes_def)
qed simp

lemma block_elems_bound: "list_all (block_ok dims) blocks \<Longrightarrow> x \<in> set (concat (map (block_elems dims) blocks)) \<Longrightarrow> x < prod_list dims"
  by (auto simp: block_elems_def list_all_iff dest!: bspec intro!: flat_lt intro: rect_in_dims)

lemma flat_runs_hyperslabs:
  assumes "\<not> ds_scalar sp" "ds_dims sp = Some dims" "dims \<noteq> []" "ext_ok dims"
    "ds_sel sp = SEL_HYPERSLABS (Some blocks)" "blocks \<noteq> []" "list_all (block_ok dims) blocks" "0 < m"
  shows "flat_runs sp m = Some (bounded m (canon (concat (map (block_elems dims) blocks))))"
proof -
  have "x < U64_MAX" if "x \<in> set (concat (map (block_elems dims) blocks))" for x
    using block_elems_bound [OF assms(7) that] assms(4) by (simp add: ext_ok_def)
  then have "filter (in_range 0 U64_MAX) (concat (map (block_elems dims) blocks)) = concat (map (block_elems dims) blocks)"
    by (intro filter_True) auto
  then show ?thesis
    using blocks_runs_ok [OF assms(4,3,7), of "[]" m 0 U64_MAX] assms by (simp add: flat_runs_def flat_runs_range_def canon_def)
qed

lemma canon_one_run: "canon xs = [\<lparr>run_start = s, run_count = c\<rparr>] \<Longrightarrow> xs = [s..<s + c]"
  by (metis append_Nil2 flat_run.select_convs run_elems_def runs_elems_Cons runs_elems_Nil runs_elems_canon)

lemma mem_packed_hyperslabs:
  assumes "flat_runs sp 1 = Some (bounded 1 (canon xs))" "ds_sel sp \<noteq> SEL_ALL"
  shows "\<exists>b. mem_sel_is_packed (Some sp) n = Some b \<and> (b \<longrightarrow> xs = [0..<n])"
proof (cases "length (canon xs) \<le> 1")
  case True
  then consider "canon xs = []" | r where "canon xs = [r]" by (cases "canon xs") auto
  then show ?thesis
  proof cases
    case 2
    then show ?thesis
      using assms canon_one_run [of xs 0 n] by (cases r) (auto simp: mem_sel_is_packed_def bounded_def)
  qed (use assms in \<open>auto simp: mem_sel_is_packed_def bounded_def\<close>)
qed (use assms in \<open>auto simp: mem_sel_is_packed_def bounded_def\<close>)


abbreviation two_columns :: dspace where
  "two_columns \<equiv> \<lparr>ds_scalar = False, ds_dims = Some [2, 3], ds_sel = SEL_HYPERSLABS (Some [([0, 0], [1, 0]), ([0, 2], [1, 2])]),
     ds_npoints = Some 4, ds_bounds = Some ([0, 0], [1, 2])\<rparr>"

lemma two_columns_elems: "concat (map (block_elems [2, 3]) [([0, 0], [1, 0]), ([0, 2], [1, 2])]) = [0, 3, 2, 5]"
  by code_simp

lemma two_columns_ok: "ext_ok [2, 3]" "list_all (block_ok [2, 3]) [([0, 0], [1, 0]), ([0, 2], [1, 2])]"
  by (simp_all add: ext_ok_def block_ok_def U64_MAX_val)


text \<open>
  The order of the runs is the order of the block list, which is not the row-major order
  of the selection when a block spans several rows and several blocks share a row: two
  columns of a 2 by 3 array are listed column by column.
\<close>

theorem flat_runs_not_row_major:
  "\<exists>runs. flat_runs two_columns 256 = Some (Inr runs) \<and> runs_elems runs = [0, 3, 2, 5] \<and>
     runs_elems runs \<noteq> sort (runs_elems runs)"
proof -
  have "length (canon [0, 3, 2, 5]) = 4" by code_simp
  then show ?thesis
    using flat_runs_hyperslabs [of two_columns, OF _ _ _ two_columns_ok(1) _ _ two_columns_ok(2), of 256]
    by (auto simp: bounded_def two_columns_elems simp del: list.map concat.simps One_nat_def)
qed

text \<open>
  (C23) What a subscriber is sent of a pushed range: when the selection of the subscriber and the
  write agree on every dimension but the first, the returned runs, relative to the start of the
  range, list exactly the selected elements that lie in the range.
\<close>

theorem selection_runs_exact:
  assumes "sub_enc \<noteq> []" and "write_enc \<noteq> []" and "0 < max_runs" and "0 < range_count"
    and "range_start + range_count \<le> U64_MAX"
    and "H5Sdecode sub_enc = Some sub" and "H5Sdecode write_enc = Some wsp"
    and "ds_dims sub = Some dims" and "ds_dims wsp = Some wdims" and "length wdims = length dims" and "tl wdims = tl dims"
    and "\<not> ds_scalar sub" and "dims \<noteq> []" and "ext_ok dims"
    and "ds_sel sub = SEL_HYPERSLABS (Some blocks)" and "blocks \<noteq> []" and "list_all (block_ok dims) blocks"
  shows "(case selection_runs H5Sdecode sub_enc write_enc range_start range_count max_runs of
      Some (Inr runs) \<Rightarrow> length runs \<le> max_runs \<and>
        map ((+) range_start) (runs_elems runs) =
          filter (\<lambda>x. range_start \<le> x \<and> x < range_start + range_count) (concat (map (block_elems dims) blocks))
    | Some (Inl e) \<Rightarrow> e = EFail \<and> length (canon (filter (\<lambda>x. range_start \<le> x \<and> x < range_start + range_count)
        (concat (map (block_elems dims) blocks)))) > min max_runs 256
    | None \<Rightarrow> False)"
proof -
  define m where "m = (if max_runs > MAX_PUSH_RUNS then MAX_PUSH_RUNS else max_runs)"
  have m: "m = min max_runs 256" "0 < m" using assms(3) by (auto simp: m_def MAX_PUSH_RUNS_def)
  define xs where "xs = filter (in_range range_start (range_start + range_count)) (concat (map (block_elems dims) blocks))"
  let ?sh = "\<lambda>r. \<lparr>run_start = run_start r - range_start, run_count = run_count r\<rparr>"
  have fr: "flat_runs_range sub range_start (range_start + range_count) m = Some (bounded m (canon xs))"
    using blocks_runs_ok [OF assms(14,13,17), of "[]" m range_start "range_start + range_count"] assms(8,12,13,15,16) m(2)
    by (simp add: flat_runs_range_def canon_def xs_def)
  have sr: "selection_runs H5Sdecode sub_enc write_enc range_start range_count max_runs =
      Some (cbind (bounded m (canon xs)) (\<lambda>rs. Inr (map ?sh rs)))"
    using assms(1-11) fr m_def by (simp add: selection_runs_def Let_def wrap64_id)
  have ge: "range_start \<le> run_start r" if "r \<in> set (canon xs)" for r
  proof -
    have "run_start r \<in> set (runs_elems (canon xs))"
      using that pushes_pos [of "[]" xs] by (auto simp: set_runs_elems runs_set_def run_set_def canon_def intro!: bexI [of _ r])
    then show ?thesis by (simp add: xs_def)
  qed
  have "map ((+) range_start) (runs_elems (map ?sh rs)) = runs_elems rs" if "\<forall>r \<in> set rs. range_start \<le> run_start r" for rs
    using that by (induction rs) (auto simp: run_elems_def map_shift_upt)
  then have "map ((+) range_start) (runs_elems (map ?sh (canon xs))) = xs" using ge by simp
  then show ?thesis unfolding sr xs_def [symmetric] using m by (auto simp: bounded_def)
qed

theorem selection_runs_exact_witness:
  "\<exists>runs. selection_runs (\<lambda>_. Some two_columns) [1] [1] 1 4 8 = Some (Inr runs) \<and> map ((+) 1) (runs_elems runs) = [3, 2]"
proof -
  have f: "filter (\<lambda>x. 1 \<le> x \<and> x < (1::nat) + 4) [0, 3, 2, 5] = [3, 2]" by simp
  have c: "length (canon [3, 2]) = 2" by code_simp
  show ?thesis
    using selection_runs_exact [of "[1]" "[1]" 8 4 1 "\<lambda>_. Some two_columns" two_columns two_columns "[2, 3]" "[2, 3]",
        OF _ _ _ _ _ _ _ _ _ _ _ _ _ two_columns_ok(1) _ _ two_columns_ok(2)]
    unfolding two_columns_elems f by (simp add: U64_MAX_val c split: option.splits sum.splits)
qed

end
