(* ===== verification/VS_Text.thy ===== *)
theory VS_Text
  imports VS_Prelude
begin

text \<open>
  Strings the connector builds and parses: decimal numbers (\<open>%llu\<close>/\<open>%zu\<close> of
  \<open>snprintf\<close> and \<open>strtoull\<close> with base 10), the logical paths of objects and attributes,
  and the physical paths under \<open>/step/<n>\<close>. A C string is a \<open>string\<close> without its
  terminator; a NULL \<open>char *\<close> is \<open>None\<close>.
\<close>

type_synonym path = string

named_theorems text_simps

definition digit_char :: "nat \<Rightarrow> char" where
  "digit_char d = char_of (48 + d)"

definition is_digit :: "char \<Rightarrow> bool" where
  "is_digit c \<longleftrightarrow> (48 :: nat) \<le> of_char c \<and> of_char c \<le> (57 :: nat)"

definition digit_val :: "char \<Rightarrow> nat" where
  "digit_val c = of_char c - 48"

fun dec :: "nat \<Rightarrow> string" where
  "dec n = (if n < 10 then [digit_char n] else dec (n div 10) @ [digit_char (n mod 10)])"

declare dec.simps [simp del]

definition is_space :: "char \<Rightarrow> bool" where
  "is_space c \<longleftrightarrow> (of_char c :: nat) = 32 \<or> (9 \<le> (of_char c :: nat) \<and> (of_char c :: nat) \<le> 13)"

text \<open>
  \<open>strtoull(s, &end, 10)\<close>: \<open>None\<close> when there is no number (\<open>end == s\<close>), else the value
  and the text at \<open>end\<close>. Out of range gives \<open>ULLONG_MAX\<close>; a minus sign negates modulo
  \<open>2 ^ 64\<close>.
\<close>

definition sign_split :: "string \<Rightarrow> bool \<times> string" where
  "sign_split s = (case s of
      [] \<Rightarrow> (False, [])
    | c # r \<Rightarrow> if (of_char c :: nat) = 45 then (True, r) else if (of_char c :: nat) = 43 then (False, r) else (False, s))"

definition strtoull10 :: "string \<Rightarrow> (nat \<times> string) option" where
  "strtoull10 s =
     (let (neg, t) = sign_split (dropWhile is_space s);
          ds = takeWhile is_digit t;
          v = foldl (\<lambda>a c. a * 10 + digit_val c) 0 ds
      in if ds = [] then None
         else Some (if v > U64_MAX then U64_MAX else if neg then wrap64 (2 ^ 64 - v) else v,
                    dropWhile is_digit t))"

lemma digit_char_props [text_simps]:
  assumes "d < 10"
  shows "is_digit (digit_char d)" "digit_val (digit_char d) = d" "\<not> is_space (digit_char d)"
    "(of_char (digit_char d) :: nat) \<noteq> 45" "(of_char (digit_char d) :: nat) \<noteq> 43"
proof -
  have "(of_char (char_of (48 + d) :: char) :: nat) = 48 + d"
    using assms by (simp add: of_char_of)
  then show "is_digit (digit_char d)" "digit_val (digit_char d) = d" "\<not> is_space (digit_char d)"
    "(of_char (digit_char d) :: nat) \<noteq> 45" "(of_char (digit_char d) :: nat) \<noteq> 43"
    using assms by (simp_all add: digit_char_def is_digit_def digit_val_def is_space_def)
qed

lemma dec_digits: "\<forall>c \<in> set (dec n). is_digit c"
proof (induction n rule: less_induct)
  case (less n)
  show ?case
  proof (cases "n < 10")
    case True
    then show ?thesis by (subst dec.simps) (simp add: text_simps)
  next
    case False
    then have "\<forall>c \<in> set (dec (n div 10)). is_digit c" by (intro less.IH) simp
    then show ?thesis using False by (subst dec.simps) (auto simp: text_simps)
  qed
qed

lemma dec_value: "foldl (\<lambda>a c. a * 10 + digit_val c) 0 (dec n) = n"
proof (induction n rule: less_induct)
  case (less n)
  then show ?case
    by (subst dec.simps) (auto simp: text_simps)
qed

lemma dec_hd: "\<exists>d r. dec n = digit_char d # r \<and> d < 10"
proof (induction n rule: less_induct)
  case (less n)
  show ?case
  proof (cases "n < 10")
    case True
    then show ?thesis by (subst dec.simps) auto
  next
    case False
    then obtain d r where "dec (n div 10) = digit_char d # r" "d < 10" using less.IH [of "n div 10"] by auto
    then show ?thesis using False by (subst dec.simps) auto
  qed
qed

lemma strtoull10_dec [text_simps]:
  assumes "n \<le> U64_MAX"
  shows "strtoull10 (dec n) = Some (n, [])"
proof -
  obtain d r where d: "dec n = digit_char d # r" "d < 10" using dec_hd by blast
  then have "dropWhile is_space (dec n) = dec n" "sign_split (dec n) = (False, dec n)"
    by (simp_all add: sign_split_def text_simps)
  moreover have "takeWhile is_digit (dec n) = dec n" "dropWhile is_digit (dec n) = []"
    using dec_digits [of n] by simp_all
  moreover have "dec n \<noteq> []" using d by simp
  ultimately show ?thesis using assms dec_value [of n] by (simp add: strtoull10_def Let_def del: takeWhile_eq_all_conv dropWhile_eq_Nil_conv)
qed

lemma dec_inj: "dec m = dec n \<longleftrightarrow> m = n"
  by (metis dec_value)

subsection \<open>Logical paths\<close>

abbreviation slash :: char where "slash \<equiv> CHR ''/''"

definition child_path :: "path option \<Rightarrow> string option \<Rightarrow> path option" where
  "child_path parent_path name =
     (case (parent_path, name) of
        (Some p, Some n) \<Rightarrow> Some (p @ [slash] @ dropWhile (\<lambda>c. c = slash) n)
      | _ \<Rightarrow> None)"

definition attr_path :: "path option \<Rightarrow> string option \<Rightarrow> path option" where
  "attr_path parent_path name =
     (case (parent_path, name) of (Some p, Some n) \<Rightarrow> Some (p @ ''@'' @ n) | _ \<Rightarrow> None)"

definition abs_path :: "path option \<Rightarrow> string option \<Rightarrow> path option" where
  "abs_path base name =
     (case name of
        None \<Rightarrow> None
      | Some n \<Rightarrow> if n \<noteq> [] \<and> hd n = slash then Some n
                  else child_path (Some (case base of None \<Rightarrow> '''' | Some b \<Rightarrow> b)) (Some n))"

text \<open>\<open>"/step/%llu"\<close> followed by a logical path.\<close>

definition step_path :: "nat \<Rightarrow> path \<Rightarrow> path" where
  "step_path n p = ''/step/'' @ dec n @ p"

lemma dropWhile_append_hit: "\<exists>x \<in> set xs. \<not> P x \<Longrightarrow> dropWhile P (xs @ ys) = dropWhile P xs @ ys"
  by (induction xs) auto

text \<open>
  An object reached in two hops (group handle, then name) and in one hop (the joined
  name, with or without leading slashes) gets the same logical path, so what a writer
  captured and what a reader looks up agree.
\<close>

theorem child_path_two_hops:
  assumes "\<exists>c \<in> set a. c \<noteq> slash" and "b = [] \<or> hd b \<noteq> slash"
  shows "child_path (child_path (Some p) (Some a)) (Some b) = child_path (Some p) (Some (replicate k slash @ a @ [slash] @ b))"
proof -
  have "dropWhile (\<lambda>c. c = slash) (replicate k slash @ x) = dropWhile (\<lambda>c. c = slash) x" for x
    by (induction k) auto
  moreover have "dropWhile (\<lambda>c. c = slash) b = b" using assms(2) by (cases b) auto
  ultimately show ?thesis
    using assms(1) dropWhile_append_hit [of a "\<lambda>c. c = slash" "slash # b"] by (simp add: child_path_def)
qed

theorem child_path_two_hops_witness:
  "child_path (child_path (Some '''') (Some ''grp'')) (Some ''sub'') = child_path (Some '''') (Some ''/grp/sub'')"
  using child_path_two_hops [of "''grp''" "''sub''" "''''" 1] by simp

text \<open>
  Attribute paths share the name space of object paths: whatever the attribute, there is an
  object name whose logical path is the same string, so the separator does not rule collisions out.
\<close>

theorem attr_path_collides:
  "\<exists>name. attr_path (child_path (Some p) (Some d)) (Some a) = child_path (Some p) (Some name)"
proof
  show "attr_path (child_path (Some p) (Some d)) (Some a) =
      child_path (Some p) (Some (dropWhile (\<lambda>c. c = slash) d @ ''@'' @ a))"
  proof -
    have "dropWhile (\<lambda>c. c = slash) (dropWhile (\<lambda>c. c = slash) d @ CHR ''@'' # a) =
        dropWhile (\<lambda>c. c = slash) d @ CHR ''@'' # a"
      by (induction d) auto
    then show ?thesis by (simp add: attr_path_def child_path_def)
  qed
qed

end
