(* ===== verification/VS_Tables.thy ===== *)
theory VS_Tables
  imports VS_Text
begin

text \<open>
  The tables of a step manifest (\<open>vol_stream.fbs\<close>) as the generated accessors expose them,
  and the states of the step machine. An absent \<open>type_enc\<close> vector has length 0, as the
  accessors report it; an absent string or other vector is \<open>None\<close>. Building and verifying
  the flat buffer itself is generated code, a parameter of the definitions that use it.
\<close>

datatype vs_kind = DsetCreate | DsetWrite | Attr | Group | Link

record vs_entry =
  en_kind :: vs_kind
  en_path :: "path option"
  en_type_enc :: "byte list"
  en_space_enc :: "byte list"
  en_dcpl_enc :: "byte list option"
  en_payload_off :: nat
  en_payload_len :: nat

record vs_step =
  st_physical_step :: nat
  st_logical_ids :: "nat list"
  st_wall_time_ns :: nat
  st_hdf5_version :: nat
  st_entries :: "vs_entry list"
  st_payload_bytes :: nat

datatype step_status = NOT_IN_STEP | IN_STEP | COMMITTING | EOS | READING

end
