(* ===== verification/VS_Hdf5.thy ===== *)
theory VS_Hdf5
  imports VS_Tables
begin

text \<open>
  The HDF5 library as the connector uses it: a parameter. An \<open>hid_t\<close> is an \<open>int\<close>, negative
  when invalid; a library call that can fail returns \<open>None\<close>. The record \<open>h5api\<close> collects the
  calls the modelled functions make on datatypes, dataspaces and property lists; nothing is
  assumed about them here, a theorem that relies on documented behaviour names it as a
  hypothesis. \<open>H5Sdecode\<close> and \<open>H5Pdecode\<close> are given no length by the code, so they take all
  the bytes from their start to the end of the buffer.
\<close>

type_synonym hid = int

abbreviation H5I_INVALID_HID :: hid where "H5I_INVALID_HID \<equiv> -1"

record h5api =
  H5Tencode :: "hid \<Rightarrow> byte list option"
  H5Sencode2 :: "hid \<Rightarrow> byte list option"
  H5Pencode2 :: "hid \<Rightarrow> byte list option"
  H5Tdecode2 :: "byte list \<Rightarrow> hid option"
  H5Sdecode :: "byte list \<Rightarrow> hid option"
  H5Pdecode :: "byte list \<Rightarrow> hid option"
  H5Tcopy :: "hid \<Rightarrow> hid"
  H5Scopy :: "hid \<Rightarrow> hid option"
  H5Sselect_all :: "hid \<Rightarrow> hid option"
  H5Sis_simple :: "hid \<Rightarrow> bool"
  H5Tequal :: "hid \<Rightarrow> hid \<Rightarrow> bool"
  H5Sextent_equal :: "hid \<Rightarrow> hid \<Rightarrow> bool"
  H5T_NATIVE_UCHAR :: hid
  H5Screate_scalar :: hid
  H5get_libversion :: "nat \<times> nat \<times> nat"

definition encode_type :: "h5api \<Rightarrow> hid \<Rightarrow> byte list option" where
  "encode_type h t = H5Tencode h t"

definition encode_space :: "h5api \<Rightarrow> hid \<Rightarrow> byte list option" where
  "encode_space h s = H5Sencode2 h s"

definition encode_dcpl :: "h5api \<Rightarrow> hid \<Rightarrow> byte list option" where
  "encode_dcpl h d = H5Pencode2 h d"

text \<open>
  \<open>H5VL_stream_pending_entry_t\<close> without the access property list and the wrapper it is
  wired to. The payload and its length are one list; a NULL path is \<open>None\<close>.
\<close>

record pending_entry =
  pe_kind :: vs_kind
  pe_path :: "path option"
  pe_type_id :: hid
  pe_space_id :: hid
  pe_dcpl_id :: hid
  pe_payload :: "byte list"

end
