(* ===== verification/VS_Predicate.thy ===== *)
theory VS_Predicate
  imports VS_Selection VS_Hdf5
begin

text \<open>
  Predicate pushdown: the blob a subscriber sends (\<open>H5VL__stream_encode_predicate\<close>) and the
  writer's evaluation of it on a slice about to be pushed (\<open>H5VL__stream_eval_predicate\<close>).

  The datatype calls of HDF5 are parameters, collected in \<open>h5types\<close>. \<open>H5Tconvert\<close> works in
  place: it reads \<open>n\<close> source elements and writes \<open>n\<close> destination elements of the buffer it
  is given, so a buffer too small for either is an out-of-bounds access. A \<open>long long\<close> is the
  signed reading of eight little-endian bytes, a \<open>double\<close> the IEEE 754 reading of them; the
  finite ones are kept exactly, as the integer multiple of \<open>2^-1074\<close> that they are.
\<close>

datatype h5class = H5T_INTEGER | H5T_FLOAT | H5T_OTHER_CLASS

record h5types = h5api +
  H5Tget_size :: "hid \<Rightarrow> nat"
  H5Tget_class :: "hid \<Rightarrow> h5class"
  H5Tsigned :: "hid \<Rightarrow> bool"
  H5Tconvert :: "hid \<Rightarrow> hid \<Rightarrow> nat \<Rightarrow> byte list \<Rightarrow> byte list option"
  H5T_NATIVE_LLONG :: hid
  H5T_NATIVE_DOUBLE :: hid

definition PRED_VERSION :: byte where "PRED_VERSION = 1"
definition PRED_HDR :: nat where "PRED_HDR = 12"

definition encode_predicate :: "'z h5types_scheme \<Rightarrow> byte \<Rightarrow> hid \<Rightarrow> byte list option \<Rightarrow> byte list cres" where
  "encode_predicate h op type_id value =
     (case value of
        None \<Rightarrow> Inl EFail
      | Some v \<Rightarrow>
          (case H5Tencode h type_id of
             None \<Rightarrow> Inl EFail
           | Some type_enc \<Rightarrow>
               (let val_len = H5Tget_size h type_id in
                if val_len = 0 then Inl EFail
                else cbind (mem_read v 0 val_len) (\<lambda>val.
                  Inr ([PRED_VERSION, op] @ put_u16le 0 @ put_u32le (of_nat (length type_enc))
                       @ put_u32le (of_nat val_len) @ type_enc @ val)))))"

definition pred_match_ll :: "int \<Rightarrow> int \<Rightarrow> byte \<Rightarrow> bool" where
  "pred_match_ll v c op =
     (if op = 0 then v < c
      else if op = 1 then v \<le> c
      else if op = 2 then v > c
      else if op = 3 then v \<ge> c
      else if op = 4 then v = c
      else if op = 5 then v \<noteq> c
      else False)"

datatype double = NaN | NegInf | Fin int | PosInf

definition double_of_bits :: "u64 \<Rightarrow> double" where
  "double_of_bits w =
     (let s = bit w 63; e = unat (drop_bit 52 w AND 0x7ff); m = uint (w AND 0xfffffffffffff);
          sg = (\<lambda>k. if s then - k else k) in
      if e = 2047 then (if m \<noteq> 0 then NaN else if s then NegInf else PosInf)
      else if e = 0 then Fin (sg m)
      else Fin (sg ((2 ^ 52 + m) * 2 ^ (e - 1))))"

fun dlt :: "double \<Rightarrow> double \<Rightarrow> bool" where
  "dlt NaN _ = False"
| "dlt _ NaN = False"
| "dlt NegInf b = (b \<noteq> NegInf)"
| "dlt PosInf b = False"
| "dlt (Fin a) NegInf = False"
| "dlt (Fin a) (Fin b) = (a < b)"
| "dlt (Fin a) PosInf = True"

definition deq :: "double \<Rightarrow> double \<Rightarrow> bool" where
  "deq a b \<longleftrightarrow> a \<noteq> NaN \<and> a = b"

definition pred_match_d :: "double \<Rightarrow> double \<Rightarrow> byte \<Rightarrow> bool" where
  "pred_match_d v c op =
     (if op = 0 then dlt v c
      else if op = 1 then dlt v c \<or> deq v c
      else if op = 2 then dlt c v
      else if op = 3 then dlt c v \<or> deq v c
      else if op = 4 then deq v c
      else if op = 5 then \<not> deq v c
      else False)"

text \<open>The value test of one element of the converted slice.\<close>

definition elem_match :: "h5class \<Rightarrow> byte \<Rightarrow> nat \<Rightarrow> byte list \<Rightarrow> byte list \<Rightarrow> nat \<Rightarrow> bool cres" where
  "elem_match cls op canon_size work cval i =
     cbind (rd_u64le work (i * canon_size)) (\<lambda>v.
     cbind (rd_u64le cval 0) (\<lambda>c.
       Inr (if cls = H5T_INTEGER then pred_match_ll (sint v) (sint c) op
            else pred_match_d (double_of_bits v) (double_of_bits c) op)))"

record scan =
  sc_runs :: "flat_run list"
  sc_any :: bool
  sc_first :: nat
  sc_last :: nat
  sc_overflow :: bool

definition scan_hit :: "nat \<Rightarrow> nat \<Rightarrow> scan \<Rightarrow> scan" where
  "scan_hit max_runs i s =
     (let s = (if sc_any s then s else s\<lparr>sc_first := i, sc_any := True\<rparr>);
          s = s\<lparr>sc_last := i\<rparr>; runs = sc_runs s in
      if runs \<noteq> [] \<and> run_start (last runs) + run_count (last runs) = i
      then s\<lparr>sc_runs := butlast runs @ [(last runs)\<lparr>run_count := run_count (last runs) + 1\<rparr>]\<rparr>
      else if length runs < max_runs then s\<lparr>sc_runs := runs @ [\<lparr>run_start = i, run_count = 1\<rparr>]\<rparr>
      else s\<lparr>sc_overflow := True\<rparr>)"

fun pred_scan :: "(nat \<Rightarrow> bool cres) \<Rightarrow> nat \<Rightarrow> nat list \<Rightarrow> scan \<Rightarrow> scan cres" where
  "pred_scan mt max_runs [] s = Inr s"
| "pred_scan mt max_runs (i # is) s =
     cbind (mt i) (\<lambda>match. pred_scan mt max_runs is (if match then scan_hit max_runs i s else s))"

definition scan_result :: "scan \<Rightarrow> flat_run list \<times> bool" where
  "scan_result s =
     (if sc_overflow s then ([\<lparr>run_start = sc_first s, run_count = sc_last s - sc_first s + 1\<rparr>], True)
      else (sc_runs s, False))"

definition h5_convert :: "'z h5types_scheme \<Rightarrow> hid \<Rightarrow> hid \<Rightarrow> nat \<Rightarrow> byte list \<Rightarrow> byte list cres" where
  "h5_convert h src dst n buf =
     (if length buf < n * max (H5Tget_size h src) (H5Tget_size h dst) then Inl EOob
      else case H5Tconvert h src dst n buf of None \<Rightarrow> Inl EFail | Some b \<Rightarrow> Inr b)"

text \<open>
  \<open>H5VL__stream_eval_predicate\<close>. \<open>Inl EFail\<close> is the return value -1, "send the whole overlap".
  The value includes the \<open>coalesced\<close> flag. \<open>raw_buf\<close> is the slice, of which
  \<open>count * elem_size\<close> bytes are read; \<open>junk\<close> is what \<open>malloc\<close> leaves in the rest of the work buffer.
\<close>

definition pred_canon :: "'z h5types_scheme \<Rightarrow> hid \<Rightarrow> hid cres" where
  "pred_canon h dtype =
     (case H5Tget_class h dtype of
        H5T_INTEGER \<Rightarrow>
          if \<not> H5Tsigned h dtype \<and> H5Tget_size h dtype \<ge> 8 then Inl EFail else Inr (H5T_NATIVE_LLONG h)
      | H5T_FLOAT \<Rightarrow> if H5Tget_size h dtype > 8 then Inl EFail else Inr (H5T_NATIVE_DOUBLE h)
      | H5T_OTHER_CLASS \<Rightarrow> Inl EFail)"

definition pred_constant :: "'z h5types_scheme \<Rightarrow> hid \<Rightarrow> hid \<Rightarrow> byte list \<Rightarrow> byte list cres" where
  "pred_constant h ptype canon_id val =
     h5_convert h ptype canon_id 1 (val @ replicate (H5Tget_size h canon_id - length val) 0)"

definition pred_slice :: "'z h5types_scheme \<Rightarrow> (nat \<Rightarrow> byte) \<Rightarrow> hid \<Rightarrow> hid \<Rightarrow> byte list \<Rightarrow> nat \<Rightarrow> nat \<Rightarrow> byte list cres" where
  "pred_slice h junk dtype canon_id raw_buf elem_size count =
     cbind (mem_read raw_buf 0 (count * elem_size)) (\<lambda>d.
       h5_convert h dtype canon_id count
         (d @ map junk [count * elem_size..<count * max elem_size (H5Tget_size h canon_id)]))"

definition pred_fields :: "byte list \<Rightarrow> (byte \<times> byte list \<times> byte list) cres" where
  "pred_fields pred_enc =
     (if length pred_enc < PRED_HDR then Inl EFail
      else if pred_enc ! 0 \<noteq> PRED_VERSION then Inl EFail
      else
        cbind (rd_u32le pred_enc 4) (\<lambda>tl32.
        cbind (rd_u32le pred_enc 8) (\<lambda>vl32.
          (let type_len = unat tl32; val_len = unat vl32 in
           if PRED_HDR + type_len + val_len \<noteq> length pred_enc then Inl EFail
           else
             cbind (mem_read pred_enc PRED_HDR type_len) (\<lambda>ptype_enc.
             cbind (mem_read pred_enc (PRED_HDR + type_len) val_len) (\<lambda>val.
               Inr (pred_enc ! 1, ptype_enc, val)))))))"

definition pred_runs ::
  "'z h5types_scheme \<Rightarrow> (nat \<Rightarrow> byte) \<Rightarrow> byte list \<Rightarrow> nat \<Rightarrow> nat \<Rightarrow> nat \<Rightarrow> byte \<Rightarrow> hid \<Rightarrow> hid \<Rightarrow> byte list
     \<Rightarrow> (flat_run list \<times> bool) cres" where
  "pred_runs h junk raw_buf elem_size count max_runs op dtype ptype val =
     (if H5Tget_size h dtype \<noteq> elem_size then Inl EFail
      else
        cbind (pred_canon h dtype) (\<lambda>canon_id.
        cbind (pred_constant h ptype canon_id val) (\<lambda>cval.
        cbind (pred_slice h junk dtype canon_id raw_buf elem_size count) (\<lambda>work.
        cbind (pred_scan (elem_match (H5Tget_class h dtype) op (H5Tget_size h canon_id) work cval) max_runs [0..<count]
                 \<lparr>sc_runs = [], sc_any = False, sc_first = 0, sc_last = 0, sc_overflow = False\<rparr>) (\<lambda>s.
          Inr (scan_result s))))))"

definition eval_predicate ::
  "'z h5types_scheme \<Rightarrow> (nat \<Rightarrow> byte) \<Rightarrow> byte list \<Rightarrow> nat \<Rightarrow> nat \<Rightarrow> byte list \<Rightarrow> byte list \<Rightarrow> nat
     \<Rightarrow> (flat_run list \<times> bool) cres" where
  "eval_predicate h junk raw_buf elem_size count pred_enc type_enc max_runs =
     (if max_runs = 0 \<or> count = 0 \<or> elem_size = 0 then Inl EFail
      else if length pred_enc < PRED_HDR \<or> type_enc = [] then Inl EFail
      else
        cbind (pred_fields pred_enc) (\<lambda>(op, ptype_enc, val).
          case (H5Tdecode2 h type_enc, H5Tdecode2 h ptype_enc) of
            (Some dtype, Some ptype) \<Rightarrow> pred_runs h junk raw_buf elem_size count max_runs op dtype ptype val
          | _ \<Rightarrow> Inl EFail))"

subsection \<open>The scan\<close>

definition scan_inv :: "nat \<Rightarrow> nat list \<Rightarrow> scan \<Rightarrow> bool" where
  "scan_inv m hs s \<longleftrightarrow>
     (sc_any s \<longleftrightarrow> hs \<noteq> []) \<and> (hs \<noteq> [] \<longrightarrow> sc_first s = hd hs \<and> sc_last s = last hs) \<and>
     (if sc_overflow s then m < length (canon hs) else sc_runs s = canon hs \<and> length (canon hs) \<le> m)"

lemma canon_snoc: "canon (hs @ [i]) = run_push (canon hs) i 1"
  by (simp add: canon_def pushes_def)

lemma scan_hit_fields [simp]:
  "sc_any (scan_hit m i s)" "sc_last (scan_hit m i s) = i"
  "sc_first (scan_hit m i s) = (if sc_any s then sc_first s else i)"
  "sc_overflow (scan_hit m i s) \<longleftrightarrow> sc_overflow s \<or> m < length (run_push (sc_runs s) i 1) \<and> length (sc_runs s) \<ge> m
     \<and> length (run_push (sc_runs s) i 1) \<noteq> length (sc_runs s)"
  "length (run_push (sc_runs s) i 1) \<le> m \<Longrightarrow> sc_runs (scan_hit m i s) = run_push (sc_runs s) i 1"
proof -
  let ?r = "sc_runs s"
  consider (ext) "?r \<noteq> []" "run_start (last ?r) + run_count (last ?r) = i" | (new) "\<not> (?r \<noteq> [] \<and> run_start (last ?r) + run_count (last ?r) = i)"
    by blast
  note cs = this
  show "sc_any (scan_hit m i s)" "sc_last (scan_hit m i s) = i"
    "sc_first (scan_hit m i s) = (if sc_any s then sc_first s else i)"
    by (simp_all add: scan_hit_def Let_def)
  show "sc_overflow (scan_hit m i s) \<longleftrightarrow> sc_overflow s \<or> m < length (run_push ?r i 1) \<and> length ?r \<ge> m
     \<and> length (run_push ?r i 1) \<noteq> length ?r"
    using cs by cases (auto simp: scan_hit_def Let_def run_push_def)
  show "sc_runs (scan_hit m i s) = run_push ?r i 1" if "length (run_push ?r i 1) \<le> m"
    using cs that by cases (auto simp: scan_hit_def Let_def run_push_def)
qed

lemma scan_hit_inv:
  assumes "scan_inv m hs s"
  shows "scan_inv m (hs @ [i]) (scan_hit m i s)"
proof -
  have mono: "length (canon hs) \<le> length (canon (hs @ [i]))"
    unfolding canon_def pushes_simps(2) by (rule length_pushes_mono)
  have ends: "(if sc_any s then sc_first s else i) = hd (hs @ [i])"
    using assms by (cases hs) (simp_all add: scan_inv_def)
  show ?thesis
  proof (cases "sc_overflow s")
    case True
    then have "m < length (canon (hs @ [i]))" using assms mono by (simp add: scan_inv_def)
    then show ?thesis using True ends by (simp add: scan_inv_def)
  next
    case False
    then have "sc_runs s = canon hs" "length (canon hs) \<le> m" using assms by (auto simp: scan_inv_def)
    then show ?thesis
      using False ends length_run_push [of "canon hs" i 1] mono scan_hit_fields(5) [of s i m]
      unfolding scan_inv_def canon_snoc by (cases "length (run_push (canon hs) i 1) \<le> m") auto
  qed
qed

lemma pred_scan_inv:
  assumes "\<And>i. i \<in> set is \<Longrightarrow> mt i = Inr (f i)" "scan_inv m hs s"
  shows "\<exists>s'. pred_scan mt m is s = Inr s' \<and> scan_inv m (hs @ filter f is) s'"
  using assms
proof (induction "is" arbitrary: hs s)
  case (Cons i "is")
  show ?case
  proof (cases "f i")
    case True
    then show ?thesis using Cons.IH [OF _ scan_hit_inv [OF Cons.prems(2)], of i] Cons.prems(1) by simp
  next
    case False
    then show ?thesis using Cons.IH [OF _ Cons.prems(2)] Cons.prems(1) by simp
  qed
qed simp

text \<open>The result of a scan that matched the elements \<open>hs\<close>.\<close>

definition match_result :: "nat \<Rightarrow> nat list \<Rightarrow> flat_run list \<times> bool" where
  "match_result m hs =
     (if length (canon hs) \<le> m then (canon hs, False)
      else ([\<lparr>run_start = hd hs, run_count = last hs - hd hs + 1\<rparr>], True))"

lemma pred_scan_result:
  assumes "\<And>i. i < count \<Longrightarrow> mt i = Inr (f i)"
  shows "cbind (pred_scan mt m [0..<count] \<lparr>sc_runs = [], sc_any = False, sc_first = 0, sc_last = 0, sc_overflow = False\<rparr>)
     (\<lambda>s. Inr (scan_result s)) = Inr (match_result m (filter f [0..<count]))"
proof -
  have "scan_inv m [] \<lparr>sc_runs = [], sc_any = False, sc_first = 0, sc_last = 0, sc_overflow = False\<rparr>"
    by (simp add: scan_inv_def canon_def)
  then obtain s' where s': "pred_scan mt m [0..<count] \<lparr>sc_runs = [], sc_any = False, sc_first = 0, sc_last = 0, sc_overflow = False\<rparr> = Inr s'"
    "scan_inv m (filter f [0..<count]) s'"
    using pred_scan_inv [of "[0..<count]" mt f m "[]"] assms by auto
  have "filter f [0..<count] \<noteq> []" if "sc_overflow s'"
    using s'(2) that by (auto simp: scan_inv_def canon_def)
  then show ?thesis using s' by (auto simp: scan_result_def match_result_def scan_inv_def)
qed

text \<open>Whatever the budget, no matching element is left out, and nothing outside the slice is named.\<close>

lemma match_result_covers:
  assumes "sorted hs" "hs \<noteq> []" "0 < m"
  shows "set hs \<subseteq> runs_set (fst (match_result m hs)) \<and> length (fst (match_result m hs)) \<le> m"
proof (cases "length (canon hs) \<le> m")
  case True
  then show ?thesis by (simp add: match_result_def flip: set_runs_elems)
next
  case False
  have "hd hs \<le> x \<and> x \<le> last hs" if "x \<in> set hs" for x
  proof
    show "hd hs \<le> x" using assms(1,2) that by (cases hs) auto
    show "x \<le> last hs" using assms(1,2) that by (cases hs rule: rev_cases) (auto simp: sorted_append)
  qed
  then show ?thesis using False assms(3) by (fastforce simp: match_result_def run_set_def)
qed

subsection \<open>End to end\<close>

lemma pred_fields_encode:
  assumes "length te < 2 ^ 32" "length val < 2 ^ 32"
  shows "pred_fields ([PRED_VERSION, op] @ put_u16le 0 @ put_u32le (of_nat (length te)) @ put_u32le (of_nat (length val)) @ te @ val)
    = Inr (op, te, val)"
proof -
  let ?p = "[PRED_VERSION, op] @ put_u16le 0"
  let ?tl = "put_u32le (of_nat (length te))" and ?vl = "put_u32le (of_nat (length val))"
  have "unat (of_nat (length te) :: u32) = length te" "unat (of_nat (length val) :: u32) = length val"
    using assms by (simp_all add: unat_of_nat take_bit_nat_eq_self)
  moreover have "rd_u32le (?p @ ?tl @ ?vl @ te @ val) 4 = Inr (of_nat (length te))"
    by (rule rd_append(1)) simp
  moreover have "rd_u32le ((?p @ ?tl) @ ?vl @ te @ val) 8 = Inr (of_nat (length val))"
    by (rule rd_append(1)) simp
  moreover have "mem_read ((?p @ ?tl @ ?vl) @ te @ val) PRED_HDR (length te) = Inr te"
    by (rule mem_read_append) (simp_all add: PRED_HDR_def)
  moreover have "mem_read ((?p @ ?tl @ ?vl @ te) @ val @ []) (PRED_HDR + length te) (length val) = Inr val"
    by (rule mem_read_append) (simp_all add: PRED_HDR_def)
  ultimately show ?thesis
    unfolding pred_fields_def by (simp add: PRED_HDR_def)
qed

text \<open>
  What \<open>H5Tconvert\<close> to a native \<open>long long\<close> is relied on for: it succeeds in place, and each
  element of the result is the value the source element denotes in its type.
\<close>

definition converts_to_llong :: "'z h5types_scheme \<Rightarrow> (hid \<Rightarrow> byte list \<Rightarrow> int) \<Rightarrow> hid \<Rightarrow> nat \<Rightarrow> bool" where
  "converts_to_llong h tval t n \<longleftrightarrow>
     (\<forall>buf. n * max (H5Tget_size h t) 8 \<le> length buf \<longrightarrow>
        (\<exists>out. H5Tconvert h t (H5T_NATIVE_LLONG h) n buf = Some out \<and> length out = length buf \<and>
           (\<forall>i < n. sint (get_u64le (drop (i * 8) out)) = tval t (elem_bytes (H5Tget_size h t) buf i))))"

lemma convertsD:
  assumes "converts_to_llong h tval t n" "H5Tget_size h (H5T_NATIVE_LLONG h) = 8" "length buf = n * max (H5Tget_size h t) 8"
  shows "\<exists>out. h5_convert h t (H5T_NATIVE_LLONG h) n buf = Inr out \<and> length out = length buf \<and>
     (\<forall>i < n. sint (get_u64le (drop (i * 8) out)) = tval t (elem_bytes (H5Tget_size h t) buf i))"
proof -
  obtain out where "H5Tconvert h t (H5T_NATIVE_LLONG h) n buf = Some out" "length out = length buf"
      "\<forall>i < n. sint (get_u64le (drop (i * 8) out)) = tval t (elem_bytes (H5Tget_size h t) buf i)"
    using assms unfolding converts_to_llong_def by (metis order_refl)
  then show ?thesis using assms(2,3) by (simp add: h5_convert_def)
qed

lemma elem_bytes_append: "Suc i * es \<le> length a \<Longrightarrow> elem_bytes es (a @ b) i = elem_bytes es a i"
  by (simp add: elem_bytes_def)

lemma pred_runs_llong:
  assumes "H5Tget_size h dtype = elem_size" "H5Tget_class h dtype = H5T_INTEGER" "H5Tsigned h dtype \<or> elem_size < 8"
    "H5Tget_size h (H5T_NATIVE_LLONG h) = 8"
    "converts_to_llong h tval dtype count" "converts_to_llong h tval ptype 1"
    "length val = H5Tget_size h ptype" "count * elem_size \<le> length raw_buf"
  shows "pred_runs h junk raw_buf elem_size count max_runs op dtype ptype val =
    Inr (match_result max_runs
      (filter (\<lambda>i. pred_match_ll (tval dtype (elem_bytes elem_size raw_buf i)) (tval ptype val) op) [0..<count]))"
proof -
  let ?L = "H5T_NATIVE_LLONG h"
  have canon: "pred_canon h dtype = Inr ?L" using assms(1-3) by (auto simp: pred_canon_def)
  have pad: "length (val @ replicate (8 - length val) 0) = 1 * max (H5Tget_size h ptype) 8" using assms(7) by simp
  obtain cval where c: "pred_constant h ptype ?L val = Inr cval" "8 \<le> length cval" "sint (get_u64le cval) = tval ptype val"
    using convertsD [OF assms(6,4) pad] assms(4,7) pad by (auto simp: pred_constant_def elem_bytes_def)
  let ?d = "take (count * elem_size) raw_buf"
  let ?b = "?d @ map junk [count * elem_size..<count * max elem_size 8]"
  have "length ?b = count * max (H5Tget_size h dtype) 8" using assms(1,8) by simp
  then obtain work where w: "h5_convert h dtype ?L count ?b = Inr work" "length work = count * max elem_size 8"
    "\<forall>i < count. sint (get_u64le (drop (i * 8) work)) = tval dtype (elem_bytes elem_size ?b i)"
    using convertsD [OF assms(5,4)] assms(1) by metis
  have slice: "pred_slice h junk dtype ?L raw_buf elem_size count = Inr work"
    using w(1) assms(1,4,8) by (simp add: pred_slice_def mem_read_ok)
  have "elem_match H5T_INTEGER op 8 work cval i =
      Inr (pred_match_ll (tval dtype (elem_bytes elem_size raw_buf i)) (tval ptype val) op)" if i: "i < count" for i
  proof -
    have "Suc i * elem_size \<le> count * elem_size" "Suc i * 8 \<le> count * 8" using i by (intro mult_le_mono1, simp)+
    moreover have "count * 8 \<le> length work" using w(2) by simp
    ultimately have "elem_bytes elem_size ?b i = elem_bytes elem_size raw_buf i" "i * 8 + 8 \<le> length work"
      using assms(8) by (simp_all add: elem_bytes_append) (simp add: elem_bytes_def drop_take min_def)
    then show ?thesis using w(3) i c(2,3) by (simp add: elem_match_def rd_ok)
  qed
  then show ?thesis
    unfolding pred_runs_def using assms(1,2,4) canon c(1) slice pred_scan_result [of count] by simp
qed

text \<open>
  (C19) A subscriber's predicate on integer data, from the subscriber's call to the writer's
  answer: the encoded predicate is accepted and the runs the writer returns are, merged, the
  elements of the slice whose value compares with the constant as asked; when that takes more
  runs than the budget, the one run from the first to the last of them, flagged. The
  hypotheses on HDF5 are that decoding an encoding gives a type with the same size and values, and
  that \<open>H5Tconvert\<close> preserves values.
\<close>

theorem predicate_end_to_end:
  assumes "encode_predicate h op type_id (Some constant) = Inr pred_enc"
    and "H5Tencode h type_id = Some te" and "length te < 2 ^ 32" and "H5Tget_size h type_id < 2 ^ 32"
    and "H5Tdecode2 h te = Some ptype" and "H5Tget_size h ptype = H5Tget_size h type_id"
    and "type_enc \<noteq> []" and "H5Tdecode2 h type_enc = Some dtype" and "H5Tget_size h dtype = elem_size"
    and "H5Tget_class h dtype = H5T_INTEGER" and "H5Tsigned h dtype \<or> elem_size < 8"
    and "H5Tget_size h (H5T_NATIVE_LLONG h) = 8"
    and "converts_to_llong h tval dtype count" and "converts_to_llong h tval ptype 1"
    and "count * elem_size \<le> length raw_buf" and "0 < max_runs" and "0 < count" and "0 < elem_size"
  shows "\<exists>runs coalesced. eval_predicate h junk raw_buf elem_size count pred_enc type_enc max_runs = Inr (runs, coalesced) \<and>
    (let matches = filter (\<lambda>i. pred_match_ll (tval dtype (elem_bytes elem_size raw_buf i))
           (tval ptype (take (H5Tget_size h type_id) constant)) op) [0..<count] in
     length runs \<le> max_runs \<and> set matches \<subseteq> runs_set runs \<and>
     (if coalesced then max_runs < length (canon matches) \<and> runs = [\<lparr>run_start = hd matches, run_count = last matches - hd matches + 1\<rparr>]
      else runs = canon matches))"
proof -
  let ?val = "take (H5Tget_size h type_id) constant"
  have e: "H5Tget_size h type_id \<le> length constant"
    "pred_enc = [PRED_VERSION, op] @ put_u16le 0 @ put_u32le (of_nat (length te)) @ put_u32le (of_nat (length ?val)) @ te @ ?val"
    using assms(1,2) by (auto simp: encode_predicate_def Let_def mem_read_def split: if_splits)
  let ?ms = "filter (\<lambda>i. pred_match_ll (tval dtype (elem_bytes elem_size raw_buf i)) (tval ptype ?val) op) [0..<count]"
  have "pred_fields pred_enc = Inr (op, te, ?val)"
    unfolding e(2) by (rule pred_fields_encode) (use assms(3,4) in simp_all)
  moreover have "PRED_HDR \<le> length pred_enc" unfolding e(2) by (simp add: PRED_HDR_def)
  ultimately have "eval_predicate h junk raw_buf elem_size count pred_enc type_enc max_runs = Inr (match_result max_runs ?ms)"
    using assms(5,7,8,16-18) pred_runs_llong [OF assms(9-14) _ assms(15)] assms(6) e(1)
    by (simp add: eval_predicate_def)
  moreover have "set ?ms \<subseteq> runs_set (fst (match_result max_runs ?ms)) \<and> length (fst (match_result max_runs ?ms)) \<le> max_runs"
    using match_result_covers [of ?ms max_runs] assms(16)
    by (cases "?ms = []") (auto simp: match_result_def canon_def sorted_wrt_filter)
  ultimately show ?thesis
    by (intro exI [of _ "fst (match_result max_runs ?ms)"] exI [of _ "snd (match_result max_runs ?ms)"])
      (simp add: Let_def match_result_def)
qed

abbreviation h5t_example :: h5types where
  "h5t_example \<equiv> \<lparr>H5Tencode = (\<lambda>t. Some [1]), H5Sencode2 = (\<lambda>s. None), H5Pencode2 = (\<lambda>d. None),
     H5Tdecode2 = (\<lambda>bs. Some (if bs = [1] then 1 else 2)), H5Sdecode = (\<lambda>bs. None), H5Pdecode = (\<lambda>bs. None),
     H5Tcopy = (\<lambda>t. t), H5Scopy = (\<lambda>s. None), H5Sselect_all = (\<lambda>s. None), H5Sis_simple = (\<lambda>s. True),
     H5Tequal = (=), H5Sextent_equal = (=), H5T_NATIVE_UCHAR = 0, H5Screate_scalar = 0, H5get_libversion = (2, 0, 0),
     H5Tget_size = (\<lambda>t. if t = 2 then 16 else 8), H5Tget_class = (\<lambda>t. H5T_INTEGER), H5Tsigned = (\<lambda>t. True),
     H5Tconvert = (\<lambda>src dst n buf. Some buf), H5T_NATIVE_LLONG = 1, H5T_NATIVE_DOUBLE = 3\<rparr>"

lemma h5t_example_converts: "converts_to_llong h5t_example (\<lambda>t b. sint (get_u64le b)) 1 n"
  by (simp add: converts_to_llong_def elem_bytes_def)

theorem predicate_end_to_end_witness:
  "\<exists>runs coalesced. eval_predicate h5t_example (\<lambda>_. 0) (put_u64le 7 @ put_u64le 2 @ put_u64le 9) 8 3
       ([PRED_VERSION, 2] @ put_u16le 0 @ put_u32le 1 @ put_u32le 8 @ [1] @ put_u64le 5) [1] 1 = Inr (runs, coalesced) \<and>
     coalesced \<and> runs = [\<lparr>run_start = 0, run_count = 3\<rparr>]"
proof -
  let ?raw = "put_u64le 7 @ put_u64le 2 @ put_u64le (9 :: u64)"
  let ?p = "[PRED_VERSION, 2] @ put_u16le 0 @ put_u32le 1 @ put_u32le 8 @ [1] @ put_u64le 5"
  let ?ms = "filter (\<lambda>i. pred_match_ll (sint (get_u64le (elem_bytes 8 ?raw i))) (sint (get_u64le (put_u64le 5))) 2) [0..<3]"
  have "elem_bytes 8 ?raw 0 = put_u64le 7" "elem_bytes 8 ?raw 1 = put_u64le 2" "elem_bytes 8 ?raw 2 = put_u64le 9"
    by (simp_all add: elem_bytes_def)
  moreover have "[0..<3] = [0, 1, 2 :: nat]" by (simp add: upt_rec)
  ultimately have ms: "?ms = [0, 2]" by (simp only: filter.simps get_put_u64le) (simp add: pred_match_ll_def)
  have c: "length (canon [0, 2]) = 2" by code_simp
  have enc: "encode_predicate h5t_example 2 1 (Some (put_u64le 5)) = Inr ?p"
    by (simp add: encode_predicate_def mem_read_def)
  obtain runs coalesced where r: "eval_predicate h5t_example (\<lambda>_. 0) ?raw 8 3 ?p [1] 1 = Inr (runs, coalesced)"
    "let matches = ?ms in length runs \<le> 1 \<and> set matches \<subseteq> runs_set runs \<and>
     (if coalesced then 1 < length (canon matches) \<and> runs = [\<lparr>run_start = hd matches, run_count = last matches - hd matches + 1\<rparr>]
      else runs = canon matches)"
  proof -
    have "\<exists>runs coalesced. eval_predicate h5t_example (\<lambda>_. 0) ?raw 8 3 ?p [1] 1 = Inr (runs, coalesced) \<and>
      (let matches = filter (\<lambda>i. pred_match_ll (sint (get_u64le (elem_bytes 8 ?raw i)))
           (sint (get_u64le (take (H5Tget_size h5t_example 1) (put_u64le 5)))) 2) [0..<3] in
       length runs \<le> 1 \<and> set matches \<subseteq> runs_set runs \<and>
       (if coalesced then 1 < length (canon matches) \<and> runs = [\<lparr>run_start = hd matches, run_count = last matches - hd matches + 1\<rparr>]
        else runs = canon matches))"
      by (rule predicate_end_to_end [OF enc, where dtype = 1 and ptype = 1 and te = "[1]" and tval = "\<lambda>t b. sint (get_u64le b)"])
        (simp_all add: h5t_example_converts)
    moreover have "take (H5Tget_size h5t_example 1) (put_u64le 5) = put_u64le 5" by simp
    ultimately show thesis using that by metis
  qed
  have "length runs \<le> 1" "\<not> coalesced \<Longrightarrow> runs = canon [0, 2]" using r(2) unfolding ms Let_def by simp_all
  then have co: "coalesced" using c by fastforce
  have "runs = [\<lparr>run_start = 0, run_count = 3\<rparr>]" using r(2) co unfolding ms Let_def by simp
  then show ?thesis using r(1) co by blast
qed



text \<open>
  A predicate blob whose operator is none of the six comparisons is not declined: it
  matches nothing, so the subscriber is sent no element at all.
\<close>

theorem predicate_unknown_operator:
  assumes "pred_fields pred_enc = Inr (op, te, val)" and "5 < op" and "H5Tdecode2 h te = Some ptype"
    and "type_enc \<noteq> []" and "H5Tdecode2 h type_enc = Some dtype" and "H5Tget_size h dtype = elem_size"
    and "H5Tget_class h dtype = H5T_INTEGER" and "H5Tsigned h dtype \<or> elem_size < 8"
    and "H5Tget_size h (H5T_NATIVE_LLONG h) = 8"
    and "converts_to_llong h tval dtype count" and "converts_to_llong h tval ptype 1"
    and "length val = H5Tget_size h ptype" and "count * elem_size \<le> length raw_buf"
    and "0 < max_runs" and "0 < count" and "0 < elem_size"
  shows "eval_predicate h junk raw_buf elem_size count pred_enc type_enc max_runs = Inr ([], False)"
proof -
  have "\<not> length pred_enc < PRED_HDR" using assms(1) by (auto simp: pred_fields_def split: if_splits)
  moreover have "\<not> pred_match_ll v c op" for v c
    using assms(2) by (auto simp: pred_match_ll_def)
  ultimately show ?thesis
    using assms(1,3,4,5,14-16) pred_runs_llong [OF assms(6-13)]
    by (simp add: eval_predicate_def match_result_def canon_def)
qed

theorem predicate_unknown_operator_witness:
  "eval_predicate h5t_example (\<lambda>_. 0) (put_u64le 7) 8 1
     ([PRED_VERSION, 6] @ put_u16le 0 @ put_u32le (of_nat (length [1 :: byte])) @ put_u32le (of_nat (length (put_u64le 5))) @ [1] @ put_u64le 5)
     [1] 4 = Inr ([], False)"
  by (rule predicate_unknown_operator [OF pred_fields_encode, of "[1]" "put_u64le 5" 6 h5t_example 1 "[1]" 1 8 "\<lambda>t b. sint (get_u64le b)"])
    (simp_all add: h5t_example_converts)

end
