(* ===== verification/VS_Group.thy ===== *)
theory VS_Group
  imports VS_Text
begin

text \<open>
  The control plane of the Mercury transport (\<open>tr_mercury.c\<close>): the table of group members, the
  queue of announced steps, end of stream, the lag table, the subscription table, and the remote
  calls between a reader and the writer.

  The state of one process is the record \<open>tr\<close>. Every table is guarded by a lock of its own and
  every handler holds it for the whole of its work on the table, so a handler is one atomic
  function on \<open>tr\<close>. Memory allocation is assumed to succeed (so \<open>eos_untracked\<close>, which
  records its failure, never gets set). A blob is its list of bytes, the empty one
  meaning none, as in \<open>vs_blob_dup\<close>. Flock's member hash, Margo's address lookup and the
  fate of a forwarded request are arguments.
\<close>

type_synonym member_id = nat

record tr_member =
  m_id :: member_id
  m_addr_str :: string
  m_provider_id :: nat
  m_addr :: "nat option"

datatype backfill = LIVE | STAGED | RELEASED

record sub_entry =
  se_member :: member_id
  se_path :: string
  se_sel_start :: nat
  se_sel_count :: nat
  se_dcpl :: "byte list"
  se_pred :: "byte list"
  se_space :: "byte list"
  se_want_type :: "byte list"
  se_backfill :: backfill
  se_backfill_from :: nat

record data_item =
  di_step :: nat
  di_path :: string
  di_buf :: "byte list"
  di_elem_start :: nat
  di_elem_count :: nat
  di_dcpl :: "byte list"
  di_type :: "byte list"
  di_filter_mask :: u32
  di_delivery :: u32

record tr =
  tr_in_group :: bool
  tr_is_writer :: bool
  tr_self_id :: member_id
  tr_members :: "tr_member list"
  tr_last_step :: "(nat \<times> nat) option"
  tr_schema :: "byte list"
  tr_schema_step :: nat
  tr_pending :: "(nat \<times> nat) list"
  tr_stopped :: bool
  tr_eos_writers :: "(member_id \<times> bool) list"
  tr_done_path :: "string option"
  tr_writer_done :: bool
  tr_writer_member :: "member_id option"
  tr_lag :: "(member_id \<times> nat) list"
  tr_subs :: "sub_entry list"
  tr_data :: "data_item list"
  tr_data_eos :: bool

text \<open>The state \<open>vs_tr_start\<close> leaves behind.\<close>

definition tr_start :: "member_id \<Rightarrow> tr" where
  "tr_start self =
     \<lparr>tr_in_group = False, tr_is_writer = False, tr_self_id = self, tr_members = [], tr_last_step = None,
      tr_schema = [], tr_schema_step = 0, tr_pending = [], tr_stopped = False, tr_eos_writers = [],
      tr_done_path = None, tr_writer_done = False, tr_writer_member = None, tr_lag = [], tr_subs = [],
      tr_data = [], tr_data_eos = False\<rparr>"

subsection \<open>The member table\<close>

definition member_add :: "(nat \<Rightarrow> string \<Rightarrow> member_id) \<Rightarrow> string \<Rightarrow> nat \<Rightarrow> tr \<Rightarrow> tr" where
  "member_add hash addr_str provider_id tr =
     (let mid = hash provider_id addr_str in
      if mid = tr_self_id tr then tr
      else if mid \<in> m_id ` set (tr_members tr) then tr
      else tr\<lparr>tr_members := tr_members tr @
                [\<lparr>m_id = mid, m_addr_str = addr_str, m_provider_id = provider_id, m_addr = None\<rparr>]\<rparr>)"

fun remove_member :: "member_id \<Rightarrow> tr_member list \<Rightarrow> tr_member list" where
  "remove_member mid [] = []"
| "remove_member mid (m # ms) = (if m_id m = mid then ms else m # remove_member mid ms)"

definition member_remove :: "member_id \<Rightarrow> tr \<Rightarrow> tr" where
  "member_remove mid tr = tr\<lparr>tr_members := remove_member mid (tr_members tr)\<rparr>"

fun cache_addr :: "member_id \<Rightarrow> nat \<Rightarrow> tr_member list \<Rightarrow> tr_member list" where
  "cache_addr mid a [] = []"
| "cache_addr mid a (m # ms) = (if m_id m = mid then m\<lparr>m_addr := Some a\<rparr> # ms else m # cache_addr mid a ms)"

definition member_addr :: "(string \<Rightarrow> nat option) \<Rightarrow> member_id \<Rightarrow> tr \<Rightarrow> tr \<times> nat option" where
  "member_addr lookup mid tr =
     (case find (\<lambda>m. m_id m = mid) (tr_members tr) of
        None \<Rightarrow> (tr, None)
      | Some m \<Rightarrow>
          (case m_addr m of
             Some a \<Rightarrow> (tr, Some a)
           | None \<Rightarrow>
               (case lookup (m_addr_str m) of
                  None \<Rightarrow> (tr, None)
                | Some a \<Rightarrow> (tr\<lparr>tr_members := cache_addr mid a (tr_members tr)\<rparr>, Some a))))"

definition member_is_present :: "tr \<Rightarrow> member_id \<Rightarrow> bool" where
  "member_is_present tr mid \<longleftrightarrow> mid \<in> m_id ` set (tr_members tr)"

definition members_clear :: "tr \<Rightarrow> tr" where
  "members_clear tr = tr\<lparr>tr_members := []\<rparr>"

definition snapshot_members :: "tr \<Rightarrow> member_id list" where
  "snapshot_members tr =
     (if \<not> tr_in_group tr then [] else filter (\<lambda>mid. mid \<noteq> tr_self_id tr) (map m_id (tr_members tr)))"

subsection \<open>Announced steps and end of stream\<close>

definition note_writer :: "member_id \<Rightarrow> tr \<Rightarrow> tr" where
  "note_writer mid tr =
     (if mid \<in> fst ` set (tr_eos_writers tr) then tr
      else tr\<lparr>tr_eos_writers := tr_eos_writers tr @ [(mid, False)]\<rparr>)"

definition all_writers_gone :: "tr \<Rightarrow> bool" where
  "all_writers_gone tr \<longleftrightarrow> tr_eos_writers tr \<noteq> [] \<and> list_all snd (tr_eos_writers tr)"

definition writer_marked_done :: "(string \<Rightarrow> bool) \<Rightarrow> tr \<Rightarrow> bool" where
  "writer_marked_done access tr \<longleftrightarrow>
     tr_writer_done tr \<or> (case tr_done_path tr of None \<Rightarrow> False | Some p \<Rightarrow> access p)"

definition learn_writer :: "member_id \<Rightarrow> tr \<Rightarrow> tr" where
  "learn_writer mid tr = note_writer mid (tr\<lparr>tr_writer_member := Some mid\<rparr>)"

definition push_pending :: "nat \<Rightarrow> nat \<Rightarrow> tr \<Rightarrow> tr" where
  "push_pending physical_step wall_time_ns tr =
     tr\<lparr>tr_pending := tr_pending tr @ [(physical_step, wall_time_ns)]\<rparr>"

definition push_data_item :: "data_item \<Rightarrow> tr \<Rightarrow> tr" where
  "push_data_item d tr = tr\<lparr>tr_data := tr_data tr @ [d]\<rparr>"

datatype flock_update = MEMBER_JOINED | MEMBER_LEFT | MEMBER_DIED | MEMBER_MOVED

definition writer_left :: "member_id \<Rightarrow> tr \<Rightarrow> tr" where
  "writer_left mid tr =
     (let tr = tr\<lparr>tr_eos_writers := map (\<lambda>(w, gone). (w, gone \<or> w = mid)) (tr_eos_writers tr)\<rparr> in
      if all_writers_gone tr then tr\<lparr>tr_data_eos := True\<rparr> else tr)"

definition purge_subs :: "member_id \<Rightarrow> tr \<Rightarrow> tr" where
  "purge_subs mid tr = tr\<lparr>tr_subs := filter (\<lambda>e. se_member e \<noteq> mid) (tr_subs tr)\<rparr>"

definition membership_cb :: "(nat \<Rightarrow> string \<Rightarrow> member_id) \<Rightarrow> flock_update \<Rightarrow> string \<Rightarrow> nat \<Rightarrow> tr \<Rightarrow> tr" where
  "membership_cb hash upd addr_str provider_id tr =
     (let mid = hash provider_id addr_str in
      case upd of
        MEMBER_JOINED \<Rightarrow> member_add hash addr_str provider_id tr
      | MEMBER_MOVED \<Rightarrow> purge_subs mid (member_add hash addr_str provider_id (member_remove mid tr))
      | MEMBER_LEFT \<Rightarrow> purge_subs mid (writer_left mid (member_remove mid tr))
      | MEMBER_DIED \<Rightarrow> purge_subs mid (writer_left mid (member_remove mid tr)))"

definition end_of_stream :: "(string \<Rightarrow> bool) \<Rightarrow> tr \<Rightarrow> bool" where
  "end_of_stream access tr \<longleftrightarrow>
     (all_writers_gone tr \<or> writer_marked_done access tr) \<and> \<not> length (tr_pending tr) > 0"

definition set_done_marker :: "string option \<Rightarrow> bool \<Rightarrow> tr \<Rightarrow> tr" where
  "set_done_marker path already_done tr = tr\<lparr>tr_done_path := path, tr_writer_done := already_done\<rparr>"

subsection \<open>Handlers of remote calls\<close>

definition step_ready :: "nat \<times> nat \<times> member_id \<Rightarrow> tr \<Rightarrow> tr \<times> bool" where
  "step_ready q tr = (case q of (physical_step, wall_time_ns, writer) \<Rightarrow>
     (push_pending physical_step wall_time_ns (note_writer writer tr), True))"

definition get_current_step :: "unit \<Rightarrow> tr \<Rightarrow> tr \<times> (nat \<times> nat) option" where
  "get_current_step q tr = (tr, tr_last_step tr)"

definition get_schema :: "unit \<Rightarrow> tr \<Rightarrow> tr \<times> (nat \<times> byte list) option" where
  "get_schema q tr =
     (tr, if tr_is_writer tr then Some (if tr_schema tr \<noteq> [] then (tr_schema_step tr, tr_schema tr) else (0, [])) else None)"

fun lag_note :: "member_id \<Rightarrow> nat \<Rightarrow> (member_id \<times> nat) list \<Rightarrow> (member_id \<times> nat) list" where
  "lag_note mid s [] = [(mid, s)]"
| "lag_note mid s ((i, a) # lag) =
     (if i = mid then (i, if s > a then s else a) # lag else (i, a) # lag_note mid s lag)"

definition reader_ack :: "member_id \<times> nat \<Rightarrow> tr \<Rightarrow> tr \<times> bool" where
  "reader_ack q tr =
     (if \<not> tr_is_writer tr then (tr, False)
      else (tr\<lparr>tr_lag := lag_note (fst q) (snd q) (tr_lag tr)\<rparr>, True))"

definition SUB_FLAG_PRED_ONLY :: u32 where "SUB_FLAG_PRED_ONLY = 0x1"
definition SUB_FLAG_TYPE_ONLY :: u32 where "SUB_FLAG_TYPE_ONLY = 0x2"
definition SUB_FLAG_FROM_ONLY :: u32 where "SUB_FLAG_FROM_ONLY = 0x4"

record subscribe_in =
  si_member :: member_id
  si_path :: "string option"
  si_sel_start :: nat
  si_sel_count :: nat
  si_dcpl :: "byte list"
  si_flags :: u32
  si_pred :: "byte list"
  si_space :: "byte list"
  si_type :: "byte list"
  si_start_step :: nat

definition stage :: "nat \<Rightarrow> sub_entry \<Rightarrow> sub_entry" where
  "stage start_step e =
     (if start_step \<noteq> U64_MAX then e\<lparr>se_backfill := STAGED, se_backfill_from := start_step\<rparr> else e)"

definition amend_sub :: "subscribe_in \<Rightarrow> sub_entry \<Rightarrow> sub_entry" where
  "amend_sub q e =
     (if si_flags q AND SUB_FLAG_PRED_ONLY \<noteq> 0 then e\<lparr>se_pred := si_pred q\<rparr>
      else if si_flags q AND SUB_FLAG_TYPE_ONLY \<noteq> 0 then e\<lparr>se_want_type := si_type q\<rparr>
      else stage (si_start_step q)
             (e\<lparr>se_dcpl := si_dcpl q, se_sel_start := si_sel_start q, se_sel_count := si_sel_count q,
                se_space := si_space q, se_pred := [], se_want_type := []\<rparr>))"

fun amend_first :: "subscribe_in \<Rightarrow> string \<Rightarrow> sub_entry list \<Rightarrow> sub_entry list \<times> bool" where
  "amend_first q path [] = ([], False)"
| "amend_first q path (e # es) =
     (if se_member e = si_member q \<and> se_path e = path then (amend_sub q e # es, True)
      else (case amend_first q path es of (es', found) \<Rightarrow> (e # es', found)))"

definition new_sub :: "subscribe_in \<Rightarrow> string \<Rightarrow> sub_entry" where
  "new_sub q path =
     stage (si_start_step q)
       \<lparr>se_member = si_member q, se_path = path, se_sel_start = si_sel_start q, se_sel_count = si_sel_count q,
        se_dcpl = si_dcpl q, se_pred = [], se_space = si_space q, se_want_type = [],
        se_backfill = LIVE, se_backfill_from = 0\<rparr>"

definition release_staged :: "member_id \<Rightarrow> sub_entry list \<Rightarrow> sub_entry list \<times> bool" where
  "release_staged m es =
     (map (\<lambda>e. if se_member e = m \<and> se_backfill e = STAGED then e\<lparr>se_backfill := RELEASED\<rparr> else e) es,
      list_ex (\<lambda>e. se_member e = m \<and> se_backfill e = STAGED) es)"

text \<open>The answer of the subscribe handler: \<open>None\<close> for status -1, else whether the request matched.\<close>

definition subscribe :: "subscribe_in \<Rightarrow> tr \<Rightarrow> tr \<times> bool option" where
  "subscribe q tr =
     (if \<not> tr_is_writer tr then (tr, None)
      else case si_path q of
        None \<Rightarrow> (tr, None)
      | Some path \<Rightarrow>
          (let pred_only = (si_flags q AND SUB_FLAG_PRED_ONLY \<noteq> 0);
               type_only = (si_flags q AND SUB_FLAG_TYPE_ONLY \<noteq> 0);
               from_only = (si_flags q AND SUB_FLAG_FROM_ONLY \<noteq> 0);
               (subs, found) = (if from_only then release_staged (si_member q) (tr_subs tr)
                                else amend_first q path (tr_subs tr))
           in if \<not> found \<and> \<not> pred_only \<and> \<not> type_only \<and> \<not> from_only
              then (tr\<lparr>tr_subs := subs @ [new_sub q path]\<rparr>, Some True)
              else (tr\<lparr>tr_subs := subs\<rparr>, Some found)))"

subsection \<open>Queries of the writer\<close>

fun count_new :: "member_id list \<Rightarrow> member_id list \<Rightarrow> nat" where
  "count_new seen [] = 0"
| "count_new seen (x # xs) = (if x \<in> set seen then 0 else 1) + count_new (seen @ [x]) xs"

definition distinct_subscribers :: "tr \<Rightarrow> nat" where
  "distinct_subscribers tr = count_new [] (map se_member (tr_subs tr))"

definition member_backfilling :: "tr \<Rightarrow> member_id \<Rightarrow> bool" where
  "member_backfilling tr m \<longleftrightarrow> list_ex (\<lambda>e. se_member e = m \<and> se_backfill e \<noteq> LIVE) (tr_subs tr)"

fun min_acked_loop :: "tr \<Rightarrow> (member_id \<times> nat) list \<Rightarrow> nat option \<Rightarrow> nat option" where
  "min_acked_loop tr [] acc = acc"
| "min_acked_loop tr ((mid, acked) # lag) acc =
     (if \<not> member_is_present tr mid then min_acked_loop tr lag acc
      else min_acked_loop tr lag (Some (case acc of None \<Rightarrow> acked | Some m \<Rightarrow> if acked < m then acked else m)))"

definition min_acked_step :: "tr \<Rightarrow> nat option" where
  "min_acked_step tr = min_acked_loop tr (tr_lag tr) None"

definition publish_blob :: "nat \<Rightarrow> byte list \<Rightarrow> tr \<Rightarrow> tr" where
  "publish_blob physical_step blob tr = tr\<lparr>tr_schema := blob, tr_schema_step := physical_step\<rparr>"

text \<open>
  One call of \<open>vs_tr_writer_take_backfill\<close>: the member and the paths released for it, the
  earliest step it asked for, and its entries made live.
\<close>

definition take_backfill :: "tr \<Rightarrow> tr \<times> (member_id \<times> string list \<times> nat) option" where
  "take_backfill tr =
     (case find (\<lambda>e. se_backfill e = RELEASED) (tr_subs tr) of
        None \<Rightarrow> (tr, None)
      | Some e0 \<Rightarrow>
          (let m = se_member e0;
               mine = filter (\<lambda>e. se_backfill e = RELEASED \<and> se_member e = m) (tr_subs tr)
           in (tr\<lparr>tr_subs := map (\<lambda>e. if se_backfill e = RELEASED \<and> se_member e = m then e\<lparr>se_backfill := LIVE\<rparr> else e) (tr_subs tr)\<rparr>,
               Some (m, map se_path mine, foldl (\<lambda>s e. if se_backfill_from e < s then se_backfill_from e else s) (se_backfill_from e0) mine))))"

subsection \<open>Remote calls\<close>

text \<open>
  The processes of a group by address. A request forwarded to an address is lost, or reaches the
  handler of the process there; then its answer comes back, or is lost too (a timeout). The fate
  of a request depends on the address and on the attempt: a first call to the remembered writer
  or a later probe of all members.
\<close>

datatype delivery = Lost | NoReply | Replied

datatype attempt = Known | Probe

type_synonym net = "nat \<rightharpoonup> tr"

record link_env =
  le_lookup :: "string \<Rightarrow> nat option"
  le_deliver :: "attempt \<Rightarrow> nat \<Rightarrow> delivery"

definition forward :: "link_env \<Rightarrow> attempt \<Rightarrow> ('q \<Rightarrow> tr \<Rightarrow> tr \<times> 'r) \<Rightarrow> 'q \<Rightarrow> nat \<Rightarrow> net \<Rightarrow> net \<times> 'r option" where
  "forward env att handler q a net =
     (case net a of
        None \<Rightarrow> (net, None)
      | Some t \<Rightarrow>
          (case le_deliver env att a of
             Lost \<Rightarrow> (net, None)
           | NoReply \<Rightarrow> (net(a \<mapsto> fst (handler q t)), None)
           | Replied \<Rightarrow> (net(a \<mapsto> fst (handler q t)), Some (snd (handler q t)))))"

definition call_member ::
  "link_env \<Rightarrow> attempt \<Rightarrow> ('q \<Rightarrow> tr \<Rightarrow> tr \<times> 'r) \<Rightarrow> 'q \<Rightarrow> member_id \<Rightarrow> tr \<Rightarrow> net \<Rightarrow> tr \<times> net \<times> 'r option" where
  "call_member env att handler q m tr net =
     (case member_addr (le_lookup env) m tr of
        (tr, None) \<Rightarrow> (tr, net, None)
      | (tr, Some a) \<Rightarrow> (case forward env att handler q a net of (net, r) \<Rightarrow> (tr, net, r)))"

text \<open>
  The loop over a snapshot of the members that the readers' calls share: the first member whose
  answer is accepted is the writer, and is remembered.
\<close>

fun probe_members ::
  "link_env \<Rightarrow> ('q \<Rightarrow> tr \<Rightarrow> tr \<times> 'r) \<Rightarrow> ('r \<Rightarrow> 'a option) \<Rightarrow> 'q \<Rightarrow> member_id list \<Rightarrow> tr \<Rightarrow> net \<Rightarrow> tr \<times> net \<times> 'a option" where
  "probe_members env handler accept q [] tr net = (tr, net, None)"
| "probe_members env handler accept q (m # ms) tr net =
     (case call_member env Probe handler q m tr net of (tr, net, r) \<Rightarrow>
        (case Option.bind r accept of
           None \<Rightarrow> probe_members env handler accept q ms tr net
         | Some x \<Rightarrow> (learn_writer m tr, net, Some x)))"

definition ask_writer ::
  "link_env \<Rightarrow> ('q \<Rightarrow> tr \<Rightarrow> tr \<times> 'r) \<Rightarrow> ('r \<Rightarrow> 'a option) \<Rightarrow> 'q \<Rightarrow> tr \<Rightarrow> net \<Rightarrow> tr \<times> net \<times> 'a option" where
  "ask_writer env handler accept q tr net =
     (case (case tr_writer_member tr of
              None \<Rightarrow> (tr, net, None)
            | Some w \<Rightarrow> (case call_member env Known handler q w tr net of (tr, net, r) \<Rightarrow> (tr, net, Option.bind r accept)))
      of (tr, net, Some x) \<Rightarrow> (tr, net, Some x)
       | (tr, net, None) \<Rightarrow> probe_members env handler accept q (snapshot_members tr) tr net)"

definition reader_get_current_step :: "link_env \<Rightarrow> tr \<Rightarrow> net \<Rightarrow> tr \<times> net \<times> (nat \<times> nat) option" where
  "reader_get_current_step env tr net =
     (if \<not> tr_in_group tr then (tr, net, None)
      else probe_members env get_current_step (\<lambda>r. r) () (snapshot_members tr) tr net)"

definition reader_ack_step :: "link_env \<Rightarrow> nat \<Rightarrow> tr \<Rightarrow> net \<Rightarrow> tr \<times> net \<times> unit cres" where
  "reader_ack_step env physical_step tr net =
     (if \<not> tr_in_group tr then (tr, net, Inl EFail)
      else (case ask_writer env reader_ack (\<lambda>ok. if ok then Some () else None) (tr_self_id tr, physical_step) tr net
            of (tr, net, None) \<Rightarrow> (tr, net, Inl EFail) | (tr, net, Some _) \<Rightarrow> (tr, net, Inr ())))"

definition send_subscribe :: "link_env \<Rightarrow> subscribe_in \<Rightarrow> tr \<Rightarrow> net \<Rightarrow> tr \<times> net \<times> bool option" where
  "send_subscribe env q tr net = ask_writer env subscribe (\<lambda>r. r) q tr net"

text \<open>The requests of a reader; the last three also fail when the writer found nothing to amend.\<close>

definition reader_subscribe_at ::
  "link_env \<Rightarrow> string \<Rightarrow> nat \<Rightarrow> nat \<Rightarrow> byte list \<Rightarrow> byte list \<Rightarrow> nat \<Rightarrow> tr \<Rightarrow> net \<Rightarrow> tr \<times> net \<times> unit cres" where
  "reader_subscribe_at env path sel_start sel_count dcpl space start_step tr net =
     (if \<not> tr_in_group tr then (tr, net, Inl EFail)
      else
        (case send_subscribe env
                \<lparr>si_member = tr_self_id tr, si_path = Some path, si_sel_start = sel_start, si_sel_count = sel_count,
                 si_dcpl = dcpl, si_flags = 0, si_pred = [], si_space = space, si_type = [], si_start_step = start_step\<rparr> tr net
         of (tr, net, None) \<Rightarrow> (tr, net, Inl EFail) | (tr, net, Some _) \<Rightarrow> (tr, net, Inr ())))"

definition reader_subscribe ::
  "link_env \<Rightarrow> string \<Rightarrow> nat \<Rightarrow> nat \<Rightarrow> byte list \<Rightarrow> byte list \<Rightarrow> tr \<Rightarrow> net \<Rightarrow> tr \<times> net \<times> unit cres" where
  "reader_subscribe env path sel_start sel_count dcpl space tr net =
     reader_subscribe_at env path sel_start sel_count dcpl space U64_MAX tr net"

definition reader_subscribe_staged ::
  "link_env \<Rightarrow> string \<Rightarrow> nat \<Rightarrow> nat \<Rightarrow> byte list \<Rightarrow> byte list \<Rightarrow> nat \<Rightarrow> tr \<Rightarrow> net \<Rightarrow> tr \<times> net \<times> unit cres" where
  "reader_subscribe_staged env path sel_start sel_count dcpl space start_step tr net =
     reader_subscribe_at env path sel_start sel_count dcpl space (if start_step = U64_MAX then U64_MAX - 1 else start_step) tr net"

definition matched_result :: "tr \<times> net \<times> bool option \<Rightarrow> tr \<times> net \<times> unit cres" where
  "matched_result s = (case s of (tr, net, r) \<Rightarrow> (tr, net, if r = Some True then Inr () else Inl EFail))"

definition reader_subscribe_predicate :: "link_env \<Rightarrow> string \<Rightarrow> byte list \<Rightarrow> tr \<Rightarrow> net \<Rightarrow> tr \<times> net \<times> unit cres" where
  "reader_subscribe_predicate env path pred tr net =
     (if \<not> tr_in_group tr then (tr, net, Inl EFail)
      else matched_result (send_subscribe env
                \<lparr>si_member = tr_self_id tr, si_path = Some path, si_sel_start = 0, si_sel_count = U64_MAX,
                 si_dcpl = [], si_flags = SUB_FLAG_PRED_ONLY, si_pred = pred, si_space = [], si_type = [], si_start_step = U64_MAX\<rparr> tr net))"

definition reader_subscribe_type :: "link_env \<Rightarrow> string \<Rightarrow> byte list \<Rightarrow> tr \<Rightarrow> net \<Rightarrow> tr \<times> net \<times> unit cres" where
  "reader_subscribe_type env path type_enc tr net =
     (if \<not> tr_in_group tr then (tr, net, Inl EFail)
      else matched_result (send_subscribe env
                \<lparr>si_member = tr_self_id tr, si_path = Some path, si_sel_start = 0, si_sel_count = U64_MAX,
                 si_dcpl = [], si_flags = SUB_FLAG_TYPE_ONLY, si_pred = [], si_space = [], si_type = type_enc, si_start_step = U64_MAX\<rparr> tr net))"

definition reader_release_backfill :: "link_env \<Rightarrow> tr \<Rightarrow> net \<Rightarrow> tr \<times> net \<times> unit cres" where
  "reader_release_backfill env tr net =
     (if \<not> tr_in_group tr then (tr, net, Inl EFail)
      else matched_result (send_subscribe env
                \<lparr>si_member = tr_self_id tr, si_path = Some [], si_sel_start = 0, si_sel_count = U64_MAX,
                 si_dcpl = [], si_flags = SUB_FLAG_FROM_ONLY, si_pred = [], si_space = [], si_type = [], si_start_step = U64_MAX\<rparr> tr net))"

subsection \<open>Waiting\<close>

text \<open>
  The waiting loops look at the state at successive moments \<open>i\<close>, \<open>i + 1\<close>, ...: \<open>over i\<close> says
  that the awaited condition holds then, \<open>expired i\<close> that the wait that follows ends at the
  deadline. The result is the moment at which the loop ends and whether the condition held,
  \<open>None\<close> if it never ends.
\<close>

partial_function (option) wait_loop :: "(nat \<Rightarrow> bool) \<Rightarrow> (nat \<Rightarrow> bool) \<Rightarrow> nat \<Rightarrow> (nat \<times> bool) option" where
  "wait_loop over expired i =
     (if over i then Some (i, True) else if expired i then Some (i + 1, False) else wait_loop over expired (i + 1))"

definition deadline_ns :: "nat \<Rightarrow> nat \<Rightarrow> nat" where
  "deadline_ns now timeout_ms = wrap64 (now + wrap64 (timeout_ms * 1000000))"

text \<open>\<open>now 0\<close> is the clock when the deadline is computed, \<open>now (i + 1)\<close> at the \<open>i\<close>-th check.\<close>

definition wait_subscribers :: "(nat \<Rightarrow> tr) \<Rightarrow> (nat \<Rightarrow> nat) \<Rightarrow> nat \<Rightarrow> nat \<Rightarrow> unit cres option" where
  "wait_subscribers st now n_expected timeout_ms =
     (if \<not> tr_in_group (st 0) then Some (Inl EFail)
      else if n_expected = 0 then Some (Inr ())
      else
        Option.bind (wait_loop (\<lambda>i. distinct_subscribers (st i) \<ge> n_expected)
                               (\<lambda>i. now (i + 1) \<ge> deadline_ns (now 0) timeout_ms) 0)
          (\<lambda>(i, ok). Some (if ok then Inr () else Inl EFail)))"

definition pop_pending :: "tr \<Rightarrow> tr \<times> (nat \<times> nat) cres" where
  "pop_pending tr =
     (case tr_pending tr of [] \<Rightarrow> (tr, Inl EFail) | s # ss \<Rightarrow> (tr\<lparr>tr_pending := ss\<rparr>, Inr s))"

definition wait_step_ready :: "(nat \<Rightarrow> string \<Rightarrow> bool) \<Rightarrow> (nat \<Rightarrow> tr) \<Rightarrow> (nat \<Rightarrow> bool) \<Rightarrow> (tr \<times> (nat \<times> nat) cres) option" where
  "wait_step_ready access st timed_out =
     Option.bind (wait_loop (\<lambda>i. tr_pending (st i) \<noteq> [] \<or> tr_stopped (st i) \<or> all_writers_gone (st i) \<or> writer_marked_done (access i) (st i))
                            timed_out 0)
       (\<lambda>(i, _). Some (pop_pending (st i)))"

definition pop_data :: "tr \<Rightarrow> tr \<times> data_item cres" where
  "pop_data tr =
     (case tr_data tr of [] \<Rightarrow> (tr, Inl EFail) | d # ds \<Rightarrow> (tr\<lparr>tr_data := ds\<rparr>, Inr d))"

definition wait_data :: "(nat \<Rightarrow> tr) \<Rightarrow> (nat \<Rightarrow> bool) \<Rightarrow> (tr \<times> data_item cres) option" where
  "wait_data st timed_out =
     Option.bind (wait_loop (\<lambda>i. tr_data (st i) \<noteq> [] \<or> tr_stopped (st i) \<or> tr_data_eos (st i)) timed_out 0)
       (\<lambda>(i, _). Some (pop_data (st i)))"

section \<open>The tables stay well formed\<close>

definition tr_inv :: "tr \<Rightarrow> bool" where
  "tr_inv tr \<longleftrightarrow>
     distinct (map m_id (tr_members tr)) \<and> tr_self_id tr \<notin> m_id ` set (tr_members tr) \<and>
     distinct (map fst (tr_eos_writers tr)) \<and> distinct (map fst (tr_lag tr)) \<and>
     distinct (map (\<lambda>e. (se_member e, se_path e)) (tr_subs tr)) \<and>
     (tr_is_writer tr \<or> tr_lag tr = [] \<and> tr_subs tr = [])"

lemma remove_member_ids: "map m_id (remove_member mid ms) = remove1 mid (map m_id ms)"
  by (induction ms) auto

lemma cache_addr_ids [simp]: "map m_id (cache_addr mid a ms) = map m_id ms"
  by (induction ms) auto

lemma lag_note_keys: "map fst (lag_note m s lag) = (if m \<in> fst ` set lag then map fst lag else map fst lag @ [m])"
  by (induction m s lag rule: lag_note.induct) auto

lemma stage_key [simp]: "se_member (stage s e) = se_member e" "se_path (stage s e) = se_path e"
  by (simp_all add: stage_def)

lemma amend_sub_key [simp]: "se_member (amend_sub q e) = se_member e" "se_path (amend_sub q e) = se_path e"
  by (simp_all add: amend_sub_def)

abbreviation sub_key :: "sub_entry \<Rightarrow> member_id \<times> string" where
  "sub_key e \<equiv> (se_member e, se_path e)"

lemma amend_first_keys: "map sub_key (fst (amend_first q path es)) = map sub_key es"
  by (induction es) (auto split: prod.split)

lemma amend_first_found: "snd (amend_first q path es) \<longleftrightarrow> (si_member q, path) \<in> sub_key ` set es"
  by (induction es) (auto split: prod.split)

lemma release_staged_keys: "map sub_key (fst (release_staged m es)) = map sub_key es"
  by (simp add: release_staged_def)

lemma new_sub_key [simp]: "se_member (new_sub q path) = si_member q" "se_path (new_sub q path) = path"
  by (simp_all add: new_sub_def)

lemma subscribe_cases:
  obtains (keep) r where "subscribe q tr = (tr, r)"
  | (release) "tr_is_writer tr" "subscribe q tr = (tr\<lparr>tr_subs := fst (release_staged (si_member q) (tr_subs tr))\<rparr>, Some (snd (release_staged (si_member q) (tr_subs tr))))"
      "si_flags q AND SUB_FLAG_FROM_ONLY \<noteq> 0"
  | (amend) path where "tr_is_writer tr" "si_path q = Some path" "si_flags q AND SUB_FLAG_FROM_ONLY = 0"
      "subscribe q tr = (tr\<lparr>tr_subs := fst (amend_first q path (tr_subs tr))\<rparr>, Some (snd (amend_first q path (tr_subs tr))))"
  | (create) path where "tr_is_writer tr" "si_path q = Some path" "(si_member q, path) \<notin> sub_key ` set (tr_subs tr)"
      "si_flags q AND SUB_FLAG_FROM_ONLY = 0" "si_flags q AND SUB_FLAG_PRED_ONLY = 0" "si_flags q AND SUB_FLAG_TYPE_ONLY = 0"
      "subscribe q tr = (tr\<lparr>tr_subs := fst (amend_first q path (tr_subs tr)) @ [new_sub q path]\<rparr>, Some True)"
proof (cases "tr_is_writer tr \<and> si_path q \<noteq> None")
  case True
  then obtain path where p: "tr_is_writer tr" "si_path q = Some path" by blast
  show thesis
  proof (cases "si_flags q AND SUB_FLAG_FROM_ONLY = 0")
    case False
    with p show thesis by (intro release) (simp_all add: subscribe_def Let_def split: prod.split)
  next
    case from_not: True
    show thesis
    proof (cases "\<not> snd (amend_first q path (tr_subs tr)) \<and> si_flags q AND SUB_FLAG_PRED_ONLY = 0 \<and> si_flags q AND SUB_FLAG_TYPE_ONLY = 0")
      case True
      with p from_not show thesis
        using amend_first_found [of q path "tr_subs tr"] by (intro create) (auto simp: subscribe_def Let_def split: prod.split)
    next
      case False
      with p from_not show thesis by (intro amend [of path]) (auto simp: subscribe_def Let_def split: prod.split)
    qed
  qed
next
  case False
  then have "subscribe q tr = (tr, None)" by (auto simp: subscribe_def)
  then show thesis by (rule keep)
qed

lemma subscribe_keys:
  "map sub_key (tr_subs (fst (subscribe q tr))) = map sub_key (tr_subs tr) \<or>
   (\<exists>path. tr_is_writer tr \<and> (si_member q, path) \<notin> sub_key ` set (tr_subs tr) \<and>
      map sub_key (tr_subs (fst (subscribe q tr))) = map sub_key (tr_subs tr) @ [(si_member q, path)])"
  by (cases rule: subscribe_cases [of q tr]) (auto simp: release_staged_keys amend_first_keys)

lemma subscribe_frame: "fst (subscribe q tr) = tr\<lparr>tr_subs := tr_subs (fst (subscribe q tr))\<rparr>"
  by (cases rule: subscribe_cases [of q tr]) simp_all

text \<open>
  What happens to a process: the membership callback, requests arriving from others, its own
  calls, and the answers to them.
\<close>

inductive tr_step :: "(nat \<Rightarrow> string \<Rightarrow> member_id) \<Rightarrow> tr \<Rightarrow> tr \<Rightarrow> bool" for hash where
  membership: "tr_step hash tr (membership_cb hash upd addr prov tr)"
| seed: "tr_step hash tr (member_add hash addr prov tr)"
| become_writer: "tr_step hash tr (tr\<lparr>tr_is_writer := True, tr_in_group := True\<rparr>)"
| join: "\<not> tr_is_writer tr \<Longrightarrow> tr_step hash tr (tr\<lparr>tr_in_group := True\<rparr>)"
| leave: "tr_step hash tr (tr\<lparr>tr_in_group := False\<rparr>)"
| stop: "tr_step hash tr (members_clear (tr\<lparr>tr_stopped := True\<rparr>))"
| step_ready: "tr_step hash tr (fst (step_ready s tr))"
| data_push: "tr_step hash tr (push_data_item d tr)"
| ack: "tr_step hash tr (fst (reader_ack a tr))"
| subscribe: "tr_step hash tr (fst (subscribe q tr))"
| lookup: "tr_step hash tr (fst (member_addr look m tr))"
| learn: "tr_step hash tr (learn_writer m tr)"
| marker: "tr_step hash tr (set_done_marker p b tr)"
| pop: "tr_step hash tr (fst (pop_pending tr))"
| pop_item: "tr_step hash tr (fst (pop_data tr))"
| publish: "tr_step hash tr (publish_blob n b tr)"
| announce: "tr_step hash tr (tr\<lparr>tr_last_step := Some (n, t)\<rparr>)"
| backfill: "tr_step hash tr (fst (take_backfill tr))"

lemma member_add_inv: "tr_inv tr \<Longrightarrow> tr_inv (member_add hash addr prov tr)"
  by (auto simp: tr_inv_def member_add_def Let_def)

lemma member_remove_inv: "tr_inv tr \<Longrightarrow> tr_inv (member_remove m tr)"
  using notin_set_remove1 by (fastforce simp: tr_inv_def member_remove_def remove_member_ids simp flip: set_map)

lemma writer_left_inv: "tr_inv tr \<Longrightarrow> tr_inv (writer_left m tr)"
  by (simp add: tr_inv_def writer_left_def Let_def comp_def case_prod_unfold)

lemma purge_subs_inv: "tr_inv tr \<Longrightarrow> tr_inv (purge_subs m tr)"
  by (auto simp: tr_inv_def purge_subs_def distinct_map inj_on_def)

lemma membership_cb_inv: "tr_inv tr \<Longrightarrow> tr_inv (membership_cb hash upd addr prov tr)"
  by (cases upd) (simp_all add: membership_cb_def Let_def member_add_inv member_remove_inv writer_left_inv purge_subs_inv)

lemma note_writer_inv: "tr_inv tr \<Longrightarrow> tr_inv (note_writer m tr)"
  by (auto simp: tr_inv_def note_writer_def)

lemma subscribe_inv: "tr_inv tr \<Longrightarrow> tr_inv (fst (subscribe q tr))"
proof -
  assume inv: "tr_inv tr"
  let ?t = "fst (subscribe q tr)"
  have "distinct (map sub_key (tr_subs ?t)) \<and> (tr_is_writer tr \<or> tr_subs ?t = [])"
    using subscribe_keys [of q tr] inv by (auto simp: tr_inv_def simp flip: set_map)
  then show "tr_inv ?t"
    using inv subscribe_frame [of q tr] by (cases ?t) (auto simp: tr_inv_def)
qed

lemma take_backfill_keys: "map sub_key (tr_subs (fst (take_backfill tr))) = map sub_key (tr_subs tr)"
  by (simp add: take_backfill_def Let_def comp_def split: option.split)

lemma take_backfill_frame: "fst (take_backfill tr) = tr\<lparr>tr_subs := tr_subs (fst (take_backfill tr))\<rparr>"
  by (simp add: take_backfill_def Let_def split: option.split)

lemma take_backfill_inv: "tr_inv tr \<Longrightarrow> tr_inv (fst (take_backfill tr))"
  using take_backfill_keys [of tr] take_backfill_frame [of tr] by (cases "fst (take_backfill tr)") (auto simp: tr_inv_def)

lemma member_addr_inv: "tr_inv tr \<Longrightarrow> tr_inv (fst (member_addr look m tr))"
  by (auto simp: tr_inv_def member_addr_def simp flip: set_map split: option.split)

lemma reader_ack_inv: "tr_inv tr \<Longrightarrow> tr_inv (fst (reader_ack a tr))"
  by (auto simp: tr_inv_def reader_ack_def lag_note_keys)

lemma tr_step_inv: "tr_step hash tr tr' \<Longrightarrow> tr_inv tr \<Longrightarrow> tr_inv tr'"
proof (induction rule: tr_step.induct)
  case (stop tr) then show ?case by (simp add: tr_inv_def members_clear_def)
next
  case (step_ready tr s) then show ?case
    using note_writer_inv [of tr] by (auto simp: step_ready_def push_pending_def tr_inv_def split: prod.split)
next
  case (learn tr m) then show ?case
    using note_writer_inv [of "tr\<lparr>tr_writer_member := Some m\<rparr>" m] by (simp add: learn_writer_def tr_inv_def)
qed (auto simp: membership_cb_inv member_add_inv member_addr_inv subscribe_inv take_backfill_inv reader_ack_inv,
     auto simp: tr_inv_def push_data_item_def set_done_marker_def pop_pending_def pop_data_def publish_blob_def split: list.split)

text \<open>
  (C21) In every state a process can reach, whatever membership updates, requests and own calls it goes
  through and in whatever order: no member is listed twice and the process never lists itself, a
  reader is tracked by one lag entry and a writer by one end-of-stream entry, one member has at
  most one subscription per path, and only the writer holds subscriptions or acknowledgements.
\<close>

theorem group_tables_inv:
  assumes "(tr_step hash)\<^sup>*\<^sup>* (tr_start self) tr"
  shows "distinct (map m_id (tr_members tr)) \<and> tr_self_id tr \<notin> m_id ` set (tr_members tr) \<and>
     distinct (map fst (tr_eos_writers tr)) \<and> distinct (map fst (tr_lag tr)) \<and>
     distinct (map (\<lambda>e. (se_member e, se_path e)) (tr_subs tr)) \<and>
     (tr_is_writer tr \<or> tr_lag tr = [] \<and> tr_subs tr = [])"
proof -
  have "tr_inv tr"
    using assms by (induction rule: rtranclp_induct) (auto simp: tr_step_inv, simp add: tr_inv_def tr_start_def)
  then show ?thesis by (simp add: tr_inv_def)
qed

definition tr_example :: tr where
  "tr_example = fst (reader_ack (7, 3) (fst (reader_ack (7, 2)
     (membership_cb (\<lambda>p a. length a) MEMBER_JOINED ''na+sm:1'' 42
       (membership_cb (\<lambda>p a. length a) MEMBER_JOINED ''na+sm:1'' 42 ((tr_start 1)\<lparr>tr_is_writer := True, tr_in_group := True\<rparr>))))))"

lemma tr_steps_snoc: "(tr_step hash)\<^sup>*\<^sup>* s tr \<Longrightarrow> tr_step hash tr tr' \<Longrightarrow> (tr_step hash)\<^sup>*\<^sup>* s tr'"
  by (rule rtranclp.rtrancl_into_rtrancl)

lemma tr_example_reachable: "(tr_step (\<lambda>p a. length a))\<^sup>*\<^sup>* (tr_start 1) tr_example"
  unfolding tr_example_def
  by (rule tr_steps_snoc, rule tr_steps_snoc, rule tr_steps_snoc, rule tr_steps_snoc, rule tr_steps_snoc,
      rule rtranclp.rtrancl_refl, rule tr_step.become_writer, rule tr_step.membership, rule tr_step.membership,
      rule tr_step.ack, rule tr_step.ack)

theorem group_tables_inv_witness:
  "map m_id (tr_members tr_example) = [7] \<and> tr_lag tr_example = [(7, 3)] \<and>
   distinct (map m_id (tr_members tr_example)) \<and> distinct (map fst (tr_lag tr_example))"
  using group_tables_inv [OF tr_example_reachable]
  by (simp add: tr_example_def tr_start_def reader_ack_def membership_cb_def member_add_def Let_def)

subsection \<open>The lag of the readers\<close>

definition acked :: "(member_id \<times> nat) list \<Rightarrow> member_id \<Rightarrow> nat set" where
  "acked qs m = {s. (m, s) \<in> set qs}"

definition lag_agrees :: "(member_id \<times> nat) list \<Rightarrow> (member_id \<times> nat) list \<Rightarrow> bool" where
  "lag_agrees lag qs \<longleftrightarrow> distinct (map fst lag) \<and> fst ` set lag = fst ` set qs \<and>
     (\<forall>(m, a) \<in> set lag. a = Max (acked qs m))"

lemma acked_snoc: "acked (qs @ [(m, s)]) i = (if i = m then insert s (acked qs i) else acked qs i)"
  by (auto simp: acked_def)

lemma finite_acked [simp]: "finite (acked qs m)"
proof -
  have "acked qs m \<subseteq> snd ` set qs" by (force simp: acked_def)
  then show ?thesis by (rule finite_subset) simp
qed

lemma acked_empty_iff: "acked qs m = {} \<longleftrightarrow> m \<notin> fst ` set qs"
  by (force simp: acked_def)

lemma set_lag_note:
  assumes "distinct (map fst lag)"
  shows "set (lag_note m s lag) =
    (if m \<in> fst ` set lag then (\<lambda>(i, a). (i, if i = m \<and> s > a then s else a)) ` set lag else insert (m, s) (set lag))"
  using assms by (induction m s lag rule: lag_note.induct) (auto simp: image_iff, force+)

lemma lag_agrees_note:
  assumes "lag_agrees lag qs"
  shows "lag_agrees (lag_note m s lag) (qs @ [(m, s)])"
proof -
  have d: "distinct (map fst lag)" and k: "fst ` set lag = fst ` set qs"
    and a: "\<And>i a. (i, a) \<in> set lag \<Longrightarrow> a = Max (acked qs i)"
    using assms by (auto simp: lag_agrees_def)
  have keys: "distinct (map fst (lag_note m s lag))" "fst ` set (lag_note m s lag) = fst ` set (qs @ [(m, s)])"
    using d k lag_note_keys [of m s lag] by (auto simp flip: set_map)
  have "b = Max (acked (qs @ [(m, s)]) i)" if "(i, b) \<in> set (lag_note m s lag)" for i b
  proof (cases "m \<in> fst ` set lag")
    case True
    then have "(i, b) \<in> (\<lambda>(i, a). (i, if i = m \<and> s > a then s else a)) ` set lag"
      using that set_lag_note [OF d, of m s] by simp
    then obtain p where "p \<in> set lag" "(i, b) = (case p of (i, a) \<Rightarrow> (i, if i = m \<and> s > a then s else a))"
      by (rule imageE)
    moreover obtain j a0 where "p = (j, a0)" by (cases p)
    ultimately have "(i, a0) \<in> set lag" "b = (if i = m \<and> s > a0 then s else a0)" by simp_all
    note pa = this
    then have "i \<in> fst ` set lag" by (force simp: image_iff)
    then have ne: "acked qs i \<noteq> {}" by (simp add: k acked_empty_iff)
    moreover have "a0 = Max (acked qs i)" by (rule a [OF pa(1)])
    moreover have "Max (insert s (acked qs i)) = (if s > Max (acked qs i) then s else Max (acked qs i))"
      using ne by (simp add: max_def del: Max_less_iff Max_le_iff)
    ultimately show ?thesis using pa(2) by (cases "i = m") (simp_all add: acked_snoc del: Max_insert Max_less_iff)
  next
    case False
    then have "acked qs m = {}" using k acked_empty_iff by metis
    moreover have "i = m \<and> b = s \<or> (i, b) \<in> set lag"
      using that False set_lag_note [OF d, of m s] by auto
    moreover have "i \<noteq> m" if "(i, b) \<in> set lag" using that False by force
    ultimately show ?thesis using a [of i b] by (auto simp: acked_snoc)
  qed
  then show ?thesis using keys by (auto simp: lag_agrees_def)
qed

abbreviation present_acks :: "tr \<Rightarrow> (member_id \<times> nat) list \<Rightarrow> nat list" where
  "present_acks tr lag \<equiv> map snd (filter (\<lambda>(m, a). member_is_present tr m) lag)"

lemma min_acked_loop_Some: "min_acked_loop tr lag (Some m) = Some (fold min (present_acks tr lag) m)"
  by (induction lag arbitrary: m) (auto simp: min_def)

lemma min_acked_loop_None:
  "min_acked_loop tr lag None = (if present_acks tr lag = [] then None else Some (Min (set (present_acks tr lag))))"
proof (induction lag)
  case (Cons l lag)
  then show ?case
    by (cases l) (auto simp: min_acked_loop_Some simp flip: Min.set_eq_fold)
qed simp

lemma reader_ack_writer: "tr_is_writer tr \<Longrightarrow> fst (reader_ack q tr) = tr\<lparr>tr_lag := lag_note (fst q) (snd q) (tr_lag tr)\<rparr>"
  by (simp add: reader_ack_def)

lemma ack_seq:
  assumes "tr_is_writer tr" "tr_lag tr = []"
  shows "\<exists>lag. fold (\<lambda>q tr. fst (reader_ack q tr)) qs tr = tr\<lparr>tr_lag := lag\<rparr> \<and> lag_agrees lag qs"
proof (induction qs rule: rev_induct)
  case Nil
  then show ?case using assms by (intro exI [of _ "[]"]) (simp add: lag_agrees_def)
next
  case (snoc q qs)
  then obtain lag where "fold (\<lambda>q tr. fst (reader_ack q tr)) qs tr = tr\<lparr>tr_lag := lag\<rparr>" "lag_agrees lag qs" by blast
  then show ?case
    using assms lag_agrees_note [of lag qs "fst q" "snd q"]
    by (intro exI [of _ "lag_note (fst q) (snd q) lag"]) (simp add: reader_ack_writer)
qed

text \<open>
  (C20) The writer's view of reader lag: whatever acknowledgements arrived, and in whatever order, the
  step reported is the smallest, over the readers that are still members and ever acknowledged
  a step, of the largest step each acknowledged; readers that never did do not count, and with
  no such reader nothing is reported.
\<close>

theorem min_acked_exact:
  assumes "tr_is_writer tr" "tr_lag tr = []"
  shows "min_acked_step (fold (\<lambda>q tr. fst (reader_ack q tr)) qs tr) =
    (let R = {m \<in> fst ` set qs. m \<in> m_id ` set (tr_members tr)} in
     if R = {} then None else Some (Min ((\<lambda>m. Max {s. (m, s) \<in> set qs}) ` R)))"
proof -
  let ?R = "{m \<in> fst ` set qs. member_is_present tr m}"
  obtain lag where lag: "fold (\<lambda>q tr. fst (reader_ack q tr)) qs tr = tr\<lparr>tr_lag := lag\<rparr>" "lag_agrees lag qs"
    using ack_seq [OF assms] by blast
  have pres: "member_is_present (tr\<lparr>tr_lag := lag\<rparr>) = member_is_present tr" by (simp add: member_is_present_def fun_eq_iff)
  have keys: "fst ` set lag = fst ` set qs" and val: "\<And>m a. (m, a) \<in> set lag \<Longrightarrow> a = Max (acked qs m)"
    using lag(2) by (auto simp: lag_agrees_def)
  have "set (present_acks tr lag) = (\<lambda>m. Max (acked qs m)) ` ?R"
    unfolding keys [symmetric] using val by (force simp: image_iff)
  moreover from this have "present_acks tr lag = [] \<longleftrightarrow> ?R = {}"
    by (metis (no_types, lifting) empty_is_image set_empty)
  ultimately have "min_acked_step (tr\<lparr>tr_lag := lag\<rparr>) = (if ?R = {} then None else Some (Min ((\<lambda>m. Max (acked qs m)) ` ?R)))"
    by (simp add: min_acked_step_def min_acked_loop_None pres)
  then show ?thesis
    by (simp only: lag(1) Let_def acked_def member_is_present_def)
qed

definition two_readers :: tr where
  "two_readers = (tr_start 1)\<lparr>tr_is_writer := True, tr_in_group := True, tr_members :=
     [\<lparr>m_id = 7, m_addr_str = ''a'', m_provider_id = 0, m_addr = None\<rparr>, \<lparr>m_id = 8, m_addr_str = ''b'', m_provider_id = 0, m_addr = None\<rparr>]\<rparr>"

theorem min_acked_exact_witness:
  "min_acked_step (fold (\<lambda>q tr. fst (reader_ack q tr)) [(7, 2), (9, 0), (7, 1), (8, 5)] two_readers) = Some 2"
proof -
  let ?qs = "[(7, 2), (9, 0), (7, 1), (8, 5)] :: (nat \<times> nat) list"
  have R: "{m \<in> fst ` set ?qs. m \<in> m_id ` set (tr_members two_readers)} = {7, 8}"
    by (auto simp: two_readers_def)
  have M: "{s. (7, s) \<in> set ?qs} = {2, 1}" "{s. (8, s) \<in> set ?qs} = {5}" by auto
  have "tr_is_writer two_readers" "tr_lag two_readers = []" by (simp_all add: two_readers_def tr_start_def)
  from min_acked_exact [OF this, of ?qs, unfolded R] M show ?thesis
    by (simp add: Let_def del: fold_simps set_simps One_nat_def)
qed

subsection \<open>Requests reach the writer and nobody else\<close>

definition sole_writer :: "net \<Rightarrow> nat \<Rightarrow> tr \<Rightarrow> bool" where
  "sole_writer net a w \<longleftrightarrow> net a = Some w \<and> tr_is_writer w \<and> (\<forall>b t. net b = Some t \<and> b \<noteq> a \<longrightarrow> \<not> tr_is_writer t)"

lemma find_cache_addr:
  "find (\<lambda>m. m_id m = i) (cache_addr j a ms) =
     (if i = j then map_option (\<lambda>m. m\<lparr>m_addr := Some a\<rparr>) (find (\<lambda>m. m_id m = i) ms) else find (\<lambda>m. m_id m = i) ms)"
  by (induction ms) auto

lemma member_addr_stable:
  "snd (member_addr look m (fst (member_addr look m' tr))) = snd (member_addr look m tr)"
  by (auto simp: member_addr_def find_cache_addr split: option.split)

lemma snapshot_member_addr: "snapshot_members (fst (member_addr look m tr)) = snapshot_members tr"
  by (simp add: member_addr_def snapshot_members_def split: option.split)

text \<open>
  The contract of a request that looks for the writer by asking: a process that is not the writer
  refuses it and is not changed by it, the writer answers it, and repeating it changes nothing more.
\<close>

locale writer_request =
  fixes handler :: "'q \<Rightarrow> tr \<Rightarrow> tr \<times> 'r" and accept :: "'r \<Rightarrow> 'a option" and q :: 'q
  assumes refuse: "\<not> tr_is_writer t \<Longrightarrow> fst (handler q t) = t" "\<not> tr_is_writer t \<Longrightarrow> accept (snd (handler q t)) = None"
    and answer: "tr_is_writer t \<Longrightarrow> accept (snd (handler q t)) \<noteq> None"
    and role: "tr_is_writer (fst (handler q t)) = tr_is_writer t"
    and again: "fst (handler q (fst (handler q t))) = fst (handler q t)"
begin

lemma forward_reached:
  assumes w: "sole_writer net a w"
    and n: "n = net \<or> n = net(a \<mapsto> fst (handler q w))"
    and f: "forward env att handler q b n = (n', r)"
  shows "(n' = net \<or> n' = net(a \<mapsto> fst (handler q w))) \<and>
    (Option.bind r accept \<noteq> None \<longrightarrow> b = a \<and> n' = net(a \<mapsto> fst (handler q w))) \<and>
    (b = a \<and> le_deliver env att a = Replied \<longrightarrow> Option.bind r accept \<noteq> None)"
proof (cases "b = a")
  case True
  then show ?thesis
    using w n f answer [of w] answer [of "fst (handler q w)"] role [of w]
    by (auto simp: sole_writer_def forward_def again split: delivery.splits)
next
  case False
  then have "n b = net b" using n by auto
  then show ?thesis
  proof (cases "net b")
    case None
    then show ?thesis using \<open>n b = net b\<close> n f False by (auto simp: forward_def)
  next
    case (Some t)
    then have "\<not> tr_is_writer t" using w False by (auto simp: sole_writer_def)
    then have "n(b \<mapsto> fst (handler q t)) = n" "accept (snd (handler q t)) = None"
      using refuse Some \<open>n b = net b\<close> by (auto simp: fun_upd_idem_iff)
    then show ?thesis
      using Some \<open>n b = net b\<close> n f False by (auto simp: forward_def split: delivery.splits)
  qed
qed

lemma call_member_reached:
  assumes w: "sole_writer net a w"
    and n: "n = net \<or> n = net(a \<mapsto> fst (handler q w))"
    and c: "call_member env att handler q m tr n = (tr', n', r)"
  shows "(n' = net \<or> n' = net(a \<mapsto> fst (handler q w))) \<and>
    (Option.bind r accept \<noteq> None \<longrightarrow> n' = net(a \<mapsto> fst (handler q w))) \<and>
    (snd (member_addr (le_lookup env) m tr) = Some a \<and> le_deliver env att a = Replied \<longrightarrow> Option.bind r accept \<noteq> None) \<and>
    tr' = fst (member_addr (le_lookup env) m tr)"
proof -
  obtain t1 ao where ma: "member_addr (le_lookup env) m tr = (t1, ao)" by (cases "member_addr (le_lookup env) m tr")
  show ?thesis
  proof (cases ao)
    case None
    then show ?thesis using c ma n by (simp add: call_member_def)
  next
    case (Some b)
    obtain n2 r2 where f: "forward env att handler q b n = (n2, r2)" by (cases "forward env att handler q b n")
    then have "tr' = t1" "n' = n2" "r = r2" using c ma Some by (simp_all add: call_member_def)
    then show ?thesis using forward_reached [OF w n f] ma Some by simp
  qed
qed

lemma probe_members_reached:
  assumes w: "sole_writer net a w"
    and n: "n = net \<or> n = net(a \<mapsto> fst (handler q w))"
    and p: "probe_members env handler accept q ms tr n = (tr', n', x)"
  shows "(n' = net \<or> n' = net(a \<mapsto> fst (handler q w))) \<and>
    (x \<noteq> None \<longrightarrow> n' = net(a \<mapsto> fst (handler q w))) \<and>
    ((\<exists>m \<in> set ms. snd (member_addr (le_lookup env) m tr) = Some a) \<and> le_deliver env Probe a = Replied \<longrightarrow> x \<noteq> None)"
  using n p
proof (induction ms arbitrary: tr n)
  case Nil
  then show ?case by simp
next
  case (Cons m ms)
  obtain t1 n1 r where c: "call_member env Probe handler q m tr n = (t1, n1, r)"
    by (cases "call_member env Probe handler q m tr n") auto
  note cr = call_member_reached [OF w Cons.prems(1) c]
  show ?case
  proof (cases "Option.bind r accept")
    case (Some y)
    then have "n' = n1" "x = Some y" using Cons.prems(2) c by simp_all
    then show ?thesis using cr Some by simp
  next
    case None
    then have "probe_members env handler accept q ms t1 n1 = (tr', n', x)" using Cons.prems(2) c by simp
    moreover have "n1 = net \<or> n1 = net(a \<mapsto> fst (handler q w))" using cr by simp
    ultimately have ih: "(n' = net \<or> n' = net(a \<mapsto> fst (handler q w))) \<and>
      (x \<noteq> None \<longrightarrow> n' = net(a \<mapsto> fst (handler q w))) \<and>
      ((\<exists>m \<in> set ms. snd (member_addr (le_lookup env) m t1) = Some a) \<and> le_deliver env Probe a = Replied \<longrightarrow> x \<noteq> None)"
      by (rule Cons.IH [rotated])
    have "t1 = fst (member_addr (le_lookup env) m tr)" using cr by simp
    then show ?thesis using ih cr None by (auto simp: member_addr_stable)
  qed
qed

lemma ask_writer_reached:
  assumes w: "sole_writer net a w"
    and ask: "ask_writer env handler accept q tr net = (tr', n', x)"
  shows "(n' = net \<or> n' = net(a \<mapsto> fst (handler q w))) \<and>
    (x \<noteq> None \<longrightarrow> n' = net(a \<mapsto> fst (handler q w))) \<and>
    ((\<exists>m \<in> set (snapshot_members tr). snd (member_addr (le_lookup env) m tr) = Some a) \<and> le_deliver env Probe a = Replied \<longrightarrow> x \<noteq> None)"
proof (cases "tr_writer_member tr")
  case None
  then have "probe_members env handler accept q (snapshot_members tr) tr net = (tr', n', x)"
    using ask by (simp add: ask_writer_def)
  then show ?thesis by (rule probe_members_reached [OF w, rotated]) simp
next
  case (Some m)
  obtain t1 n1 r where c: "call_member env Known handler q m tr net = (t1, n1, r)"
    by (cases "call_member env Known handler q m tr net") auto
  note cr = call_member_reached [OF w disjI1 [OF refl] c]
  show ?thesis
  proof (cases "Option.bind r accept")
    case (Some y)
    then have "n' = n1" "x = Some y" using ask c \<open>tr_writer_member tr = Some m\<close> by (simp_all add: ask_writer_def)
    then show ?thesis using cr Some by simp
  next
    case None
    then have p: "probe_members env handler accept q (snapshot_members t1) t1 n1 = (tr', n', x)"
      using ask c \<open>tr_writer_member tr = Some m\<close> by (simp add: ask_writer_def)
    have "t1 = fst (member_addr (le_lookup env) m tr)" "n1 = net \<or> n1 = net(a \<mapsto> fst (handler q w))" using cr by simp_all
    then show ?thesis using probe_members_reached [OF w _ p] by (simp add: member_addr_stable snapshot_member_addr)
  qed
qed

end

interpretation ack_req: writer_request reader_ack "\<lambda>ok. if ok then Some () else None" "(m, s)" for m s
proof
  show "fst (reader_ack (m, s) (fst (reader_ack (m, s) t))) = fst (reader_ack (m, s) t)" for t
  proof -
    have "lag_note m s (lag_note m s lag) = lag_note m s lag" for lag
      by (induction m s lag rule: lag_note.induct) auto
    then show ?thesis by (simp add: reader_ack_def)
  qed
qed (simp_all add: reader_ack_def)

lemma amend_sub_again: "amend_sub q (amend_sub q e) = amend_sub q e"
  by (simp add: amend_sub_def stage_def)

lemma amend_new_sub:
  "si_flags q AND SUB_FLAG_PRED_ONLY = 0 \<Longrightarrow> si_flags q AND SUB_FLAG_TYPE_ONLY = 0 \<Longrightarrow> amend_sub q (new_sub q path) = new_sub q path"
  by (simp add: amend_sub_def new_sub_def stage_def)

lemma amend_first_again: "fst (amend_first q path (fst (amend_first q path es))) = fst (amend_first q path es)"
  by (induction es) (auto simp: amend_sub_again split: prod.split)

lemma amend_first_miss: "(si_member q, path) \<notin> sub_key ` set es \<Longrightarrow> amend_first q path es = (es, False)"
  by (induction es) (auto split: prod.split)

lemma amend_first_append_new:
  "(si_member q, path) \<notin> sub_key ` set es \<Longrightarrow> si_flags q AND SUB_FLAG_PRED_ONLY = 0 \<Longrightarrow> si_flags q AND SUB_FLAG_TYPE_ONLY = 0 \<Longrightarrow>
   amend_first q path (es @ [new_sub q path]) = (es @ [new_sub q path], True)"
  by (induction es) (auto simp: amend_new_sub split: prod.split)

lemma release_staged_again: "fst (release_staged m (fst (release_staged m es))) = fst (release_staged m es)"
  by (auto simp: release_staged_def)

lemma subscribe_writer:
  assumes "tr_is_writer tr" "si_path q = Some path"
  shows "subscribe q tr =
    (if si_flags q AND SUB_FLAG_FROM_ONLY \<noteq> 0
     then (tr\<lparr>tr_subs := fst (release_staged (si_member q) (tr_subs tr))\<rparr>, Some (snd (release_staged (si_member q) (tr_subs tr))))
     else if (si_member q, path) \<notin> sub_key ` set (tr_subs tr) \<and> si_flags q AND SUB_FLAG_PRED_ONLY = 0 \<and> si_flags q AND SUB_FLAG_TYPE_ONLY = 0
     then (tr\<lparr>tr_subs := tr_subs tr @ [new_sub q path]\<rparr>, Some True)
     else (tr\<lparr>tr_subs := fst (amend_first q path (tr_subs tr))\<rparr>, Some ((si_member q, path) \<in> sub_key ` set (tr_subs tr))))"
  using assms amend_first_found [of q path "tr_subs tr"] amend_first_miss [of q path "tr_subs tr"]
  by (cases "amend_first q path (tr_subs tr)"; cases "release_staged (si_member q) (tr_subs tr)") (simp add: subscribe_def Let_def)

lemma subscribe_refused: "\<not> tr_is_writer tr \<or> si_path q = None \<Longrightarrow> subscribe q tr = (tr, None)"
  by (auto simp: subscribe_def split: option.split)

lemma amend_first_key_set: "sub_key ` set (fst (amend_first q path es)) = sub_key ` set es"
  using amend_first_keys [of q path es] by (metis set_map)

lemma subscribe_again: "fst (subscribe q (fst (subscribe q t))) = fst (subscribe q t)"
proof (cases "tr_is_writer t \<and> si_path q \<noteq> None")
  case True
  then obtain path where p: "tr_is_writer t" "si_path q = Some path" by blast
  then show ?thesis
    using amend_first_again [of q path "tr_subs t"] release_staged_again [of "si_member q" "tr_subs t"]
      amend_first_append_new [of q path "tr_subs t"] amend_first_key_set [of q path "tr_subs t"]
    by (simp add: subscribe_writer)
next
  case False
  then have "subscribe q t = (t, None)" by (intro subscribe_refused) blast
  then show ?thesis by simp
qed

interpretation sub_req: writer_request subscribe "\<lambda>r. r" "q\<lparr>si_path := Some path\<rparr>" for q path
proof
  fix t
  show "fst (subscribe (q\<lparr>si_path := Some path\<rparr>) t) = t" "snd (subscribe (q\<lparr>si_path := Some path\<rparr>) t) = None" if "\<not> tr_is_writer t"
    using that by (simp_all add: subscribe_refused)
  show "snd (subscribe (q\<lparr>si_path := Some path\<rparr>) t) \<noteq> None" if "tr_is_writer t"
    using that subscribe_writer [of t "q\<lparr>si_path := Some path\<rparr>" path] by (auto split: if_splits)
  show "tr_is_writer (fst (subscribe (q\<lparr>si_path := Some path\<rparr>) t)) = tr_is_writer t"
    using subscribe_frame by (metis tr.select_convs(2) tr.surjective tr.update_convs(15))
qed (rule subscribe_again)

definition sub_of :: "tr \<Rightarrow> member_id \<Rightarrow> string \<Rightarrow> sub_entry option" where
  "sub_of tr m path = find (\<lambda>e. sub_key e = (m, path)) (tr_subs tr)"

lemma find_amend_first:
  "find (\<lambda>e. sub_key e = k) (fst (amend_first q path es)) =
     (if k = (si_member q, path) then map_option (amend_sub q) (find (\<lambda>e. sub_key e = k) es) else find (\<lambda>e. sub_key e = k) es)"
  by (induction es) (auto split: prod.split)

lemma find_append: "find P (xs @ ys) = (case find P xs of None \<Rightarrow> find P ys | Some x \<Rightarrow> Some x)"
  by (induction xs) auto

lemma find_SomeD: "find P xs = Some x \<Longrightarrow> P x \<and> x \<in> set xs"
  by (induction xs) (auto split: if_splits)

lemma find_key_None: "find (\<lambda>e. sub_key e = k) es = None \<longleftrightarrow> k \<notin> sub_key ` set es"
  by (auto simp: find_None_iff)

lemma subscribe_plain_eq:
  assumes "tr_is_writer w" "si_path q = Some path" "si_flags q = 0"
  shows "tr_subs (fst (subscribe q w)) =
    (if (si_member q, path) \<in> sub_key ` set (tr_subs w) then fst (amend_first q path (tr_subs w)) else tr_subs w @ [new_sub q path])"
  using assms by (simp add: subscribe_writer)

lemma subscribe_plain_entry:
  assumes "tr_is_writer w" "si_path q = Some path" "si_flags q = 0"
  shows "\<exists>e. sub_of (fst (subscribe q w)) (si_member q) path = Some e \<and> amend_sub q e = e \<and> sub_key e = (si_member q, path)"
proof (cases "find (\<lambda>e. sub_key e = (si_member q, path)) (tr_subs w)")
  case (Some e)
  have k: "sub_key e = (si_member q, path) \<and> e \<in> set (tr_subs w)" by (rule find_SomeD [OF Some])
  then have "(si_member q, path) \<in> sub_key ` set (tr_subs w)" by (intro image_eqI [where x = e]) simp_all
  then have "sub_of (fst (subscribe q w)) (si_member q) path = Some (amend_sub q e)"
    by (simp only: sub_of_def subscribe_plain_eq [OF assms] if_True find_amend_first Some option.map simp_thms)
  with k show ?thesis by (simp add: amend_sub_again)
next
  case None
  then have "(si_member q, path) \<notin> sub_key ` set (tr_subs w)" by (simp only: find_key_None not_False_eq_True)
  then show ?thesis
    using None assms(3) by (simp add: sub_of_def subscribe_plain_eq [OF assms] find_append amend_new_sub)
qed

lemma subscribe_plain_other:
  assumes "tr_is_writer w" "si_path q = Some path" "si_flags q = 0" "(m, p) \<noteq> (si_member q, path)"
  shows "sub_of (fst (subscribe q w)) m p = sub_of w m p"
proof (cases "(si_member q, path) \<in> sub_key ` set (tr_subs w)")
  case True
  then show ?thesis
    using find_amend_first [of "(m, p)" q path "tr_subs w"] assms(4)
    by (simp only: sub_of_def subscribe_plain_eq [OF assms(1-3)] if_True if_False)
next
  case False
  have "\<not> (si_member q = m \<and> path = p)" using assms(4) by auto
  then show ?thesis
    using False by (auto simp: sub_of_def subscribe_plain_eq [OF assms(1-3)] find_append split: option.split)
qed


text \<open>A reader (7) that lists another reader (8) before the writer (1), in a group of three.\<close>

definition reader_example :: tr where
  "reader_example = (tr_start 7)\<lparr>tr_in_group := True, tr_members :=
     [\<lparr>m_id = 8, m_addr_str = ''b'', m_provider_id = 0, m_addr = None\<rparr>, \<lparr>m_id = 1, m_addr_str = ''w'', m_provider_id = 0, m_addr = None\<rparr>]\<rparr>"

definition net_example :: net where
  "net_example = [10 \<mapsto> two_readers, 18 \<mapsto> tr_start 8]"

definition env_example :: link_env where
  "env_example = \<lparr>le_lookup = (\<lambda>a. if a = ''w'' then Some 10 else if a = ''b'' then Some 18 else None), le_deliver = (\<lambda>_ _. Replied)\<rparr>"


subsection \<open>Announced steps and end of stream\<close>

text \<open>
  What a reader lives through between joining and the end: announcements arriving, members
  leaving, and its own waits. \<open>reader_run\<close> is the state it ends in and the steps its waits
  returned; a wait that finds nothing returns none.
\<close>

datatype reader_event = Announced nat nat member_id | Left string nat | Wait

fun reader_do :: "(nat \<Rightarrow> string \<Rightarrow> member_id) \<Rightarrow> reader_event \<Rightarrow> tr \<Rightarrow> tr \<times> (nat \<times> nat) list" where
  "reader_do hash (Announced s t w) tr = (fst (step_ready (s, t, w) tr), [])"
| "reader_do hash (Left addr prov) tr = (membership_cb hash MEMBER_LEFT addr prov tr, [])"
| "reader_do hash Wait tr = (case pop_pending tr of (tr, Inl _) \<Rightarrow> (tr, []) | (tr, Inr s) \<Rightarrow> (tr, [s]))"

fun reader_run :: "(nat \<Rightarrow> string \<Rightarrow> member_id) \<Rightarrow> reader_event list \<Rightarrow> tr \<Rightarrow> tr \<times> (nat \<times> nat) list" where
  "reader_run hash [] tr = (tr, [])"
| "reader_run hash (e # es) tr =
     (case reader_do hash e tr of (tr, out) \<Rightarrow> (case reader_run hash es tr of (tr, outs) \<Rightarrow> (tr, out @ outs)))"

fun announced_steps :: "reader_event list \<Rightarrow> (nat \<times> nat) list" where
  "announced_steps [] = []"
| "announced_steps (Announced s t w # es) = (s, t) # announced_steps es"
| "announced_steps (_ # es) = announced_steps es"

fun leavers :: "(nat \<Rightarrow> string \<Rightarrow> member_id) \<Rightarrow> reader_event list \<Rightarrow> member_id set" where
  "leavers hash [] = {}"
| "leavers hash (Left addr prov # es) = insert (hash prov addr) (leavers hash es)"
| "leavers hash (_ # es) = leavers hash es"

fun announcers :: "reader_event list \<Rightarrow> member_id set" where
  "announcers [] = {}"
| "announcers (Announced s t w # es) = insert w (announcers es)"
| "announcers (_ # es) = announcers es"

lemma membership_left_fields [simp]:
  "tr_pending (membership_cb hash MEMBER_LEFT addr prov tr) = tr_pending tr"
  "tr_eos_writers (membership_cb hash MEMBER_LEFT addr prov tr) =
     map (\<lambda>(w, gone). (w, gone \<or> w = hash prov addr)) (tr_eos_writers tr)"
  "tr_writer_done (membership_cb hash MEMBER_LEFT addr prov tr) = tr_writer_done tr"
  "tr_done_path (membership_cb hash MEMBER_LEFT addr prov tr) = tr_done_path tr"
  by (simp_all add: membership_cb_def Let_def purge_subs_def writer_left_def member_remove_def)

lemma note_writer_fields [simp]: "tr_pending (note_writer w tr) = tr_pending tr" "tr_writer_done (note_writer w tr) = tr_writer_done tr"
  "tr_done_path (note_writer w tr) = tr_done_path tr"
  "tr_eos_writers (note_writer w tr) =
     (if w \<in> fst ` set (tr_eos_writers tr) then tr_eos_writers tr else tr_eos_writers tr @ [(w, False)])"
  by (simp_all add: note_writer_def)

lemma pop_pending_cases:
  obtains (empty) "tr_pending tr = []" "pop_pending tr = (tr, Inl EFail)"
  | (step) s ss where "tr_pending tr = s # ss" "pop_pending tr = (tr\<lparr>tr_pending := ss\<rparr>, Inr s)"
  by (cases "tr_pending tr") (auto simp: pop_pending_def)

lemma reader_event_pending:
  assumes "reader_do hash e tr = (tr', out)"
  shows "out @ tr_pending tr' = tr_pending tr @ announced_steps [e]"
proof (cases e)
  case Wait
  then show ?thesis using assms by (cases rule: pop_pending_cases [of tr]) auto
qed (use assms in \<open>auto simp: step_ready_def push_pending_def\<close>)

lemma announced_steps_Cons: "announced_steps (e # es) = announced_steps [e] @ announced_steps es"
  by (cases e) simp_all

lemma reader_run_fifo:
  "reader_run hash es tr = (tr', outs) \<Longrightarrow> outs @ tr_pending tr' = tr_pending tr @ announced_steps es"
proof (induction es arbitrary: tr outs)
  case (Cons e es)
  obtain t1 out where e: "reader_do hash e tr = (t1, out)" by (cases "reader_do hash e tr")
  obtain t2 outs2 where r: "reader_run hash es t1 = (t2, outs2)" by (cases "reader_run hash es t1")
  have t: "tr' = t2" and "outs = out @ outs2" using Cons.prems e r by simp_all
  then show ?case
    using Cons.IH [OF r [folded t]] reader_event_pending [OF e] announced_steps_Cons [of e es] by (metis append.assoc)
qed simp

definition writers_known :: "tr \<Rightarrow> member_id set" where "writers_known tr = fst ` set (tr_eos_writers tr)"
definition writers_left :: "tr \<Rightarrow> member_id set" where "writers_left tr = {w. (w, True) \<in> set (tr_eos_writers tr)}"

lemma reader_event_writers:
  assumes "reader_do hash e tr = (tr', out)"
  shows "writers_known tr' = writers_known tr \<union> announcers [e]"
    and "writers_left tr' = writers_left tr \<union> (writers_known tr \<inter> leavers hash [e])"
    and "tr_writer_done tr' = tr_writer_done tr" "tr_done_path tr' = tr_done_path tr"
proof -
  have "writers_known tr' = writers_known tr \<union> announcers [e] \<and>
    writers_left tr' = writers_left tr \<union> (writers_known tr \<inter> leavers hash [e]) \<and>
    tr_writer_done tr' = tr_writer_done tr \<and> tr_done_path tr' = tr_done_path tr"
  proof (cases e)
    case Wait
    then show ?thesis using assms by (cases rule: pop_pending_cases [of tr]) (auto simp: writers_known_def writers_left_def)
  next
    case (Left addr prov)
    have A: "{w. (w, True) \<in> (\<lambda>(w, gone). (w, gone \<or> w = hash prov addr)) ` set l} =
      {w. (w, True) \<in> set l} \<union> fst ` set l \<inter> {hash prov addr}" for l :: "(member_id \<times> bool) list"
      by force
    have B: "fst ` (\<lambda>(w, gone). (w, gone \<or> w = hash prov addr)) ` set l = fst ` set l" for l :: "(member_id \<times> bool) list"
      by (force simp: image_image)
    have "tr' = membership_cb hash MEMBER_LEFT addr prov tr" using assms Left by simp
    then show ?thesis using A [of "tr_eos_writers tr"] B [of "tr_eos_writers tr"] Left
      by (simp add: writers_known_def writers_left_def)
  next
    case (Announced s t w)
    then show ?thesis using assms
      by (cases "w \<in> fst ` set (tr_eos_writers tr)") (auto simp: step_ready_def push_pending_def writers_known_def writers_left_def split: if_splits)
  qed
  then show "writers_known tr' = writers_known tr \<union> announcers [e]"
    "writers_left tr' = writers_left tr \<union> (writers_known tr \<inter> leavers hash [e])"
    "tr_writer_done tr' = tr_writer_done tr" "tr_done_path tr' = tr_done_path tr" by simp_all
qed

lemma writer_sets_Cons:
  "announcers (e # es) = announcers [e] \<union> announcers es" "leavers hash (e # es) = leavers hash [e] \<union> leavers hash es"
  by (cases e; simp)+

lemma reader_run_writers:
  assumes "reader_run hash es tr = (tr', outs)"
  shows "writers_known tr' = writers_known tr \<union> announcers es \<and>
    writers_left tr \<subseteq> writers_left tr' \<and> writers_left tr' \<subseteq> writers_left tr \<union> leavers hash es \<and>
    (announcers es = {} \<longrightarrow> writers_left tr' = writers_left tr \<union> (writers_known tr \<inter> leavers hash es)) \<and>
    tr_writer_done tr' = tr_writer_done tr \<and> tr_done_path tr' = tr_done_path tr"
  using assms
proof (induction es arbitrary: tr outs)
  case (Cons e es)
  obtain t1 out where e: "reader_do hash e tr = (t1, out)" by (cases "reader_do hash e tr")
  obtain t2 outs2 where r: "reader_run hash es t1 = (t2, outs2)" by (cases "reader_run hash es t1")
  have t: "tr' = t2" using Cons.prems e r by simp
  show ?case
    using Cons.IH [OF r [folded t]] reader_event_writers [OF e] writer_sets_Cons(1) [of e es] writer_sets_Cons(2) [of hash e es] by auto
qed simp

lemma reader_run_append:
  assumes "reader_run hash es tr = (t1, o1)" "reader_run hash fs t1 = (t2, o2)"
  shows "reader_run hash (es @ fs) tr = (t2, o1 @ o2)"
  using assms
proof (induction es arbitrary: tr o1)
  case (Cons e es)
  obtain t0 out where e: "reader_do hash e tr = (t0, out)" by (cases "reader_do hash e tr")
  obtain t3 o3 where r: "reader_run hash es t0 = (t3, o3)" by (cases "reader_run hash es t0")
  then have "t3 = t1" "o1 = out @ o3" using Cons.prems(1) e by simp_all
  then show ?case using Cons.IH [of t0 o3] Cons.prems(2) e r by simp
qed simp

lemma all_writers_gone_iff:
  assumes "distinct (map fst (tr_eos_writers tr))"
  shows "all_writers_gone tr \<longleftrightarrow> writers_known tr \<noteq> {} \<and> writers_known tr \<subseteq> writers_left tr"
proof -
  have "(\<forall>(w, g) \<in> set (tr_eos_writers tr). g) \<longleftrightarrow> (\<forall>(w, g) \<in> set (tr_eos_writers tr). (w, True) \<in> set (tr_eos_writers tr))"
    using eq_key_imp_eq_value [OF assms] by fastforce
  also have "\<dots> \<longleftrightarrow> writers_known tr \<subseteq> writers_left tr"
    by (force simp: writers_known_def writers_left_def)
  finally show ?thesis
    by (simp add: all_writers_gone_def list_all_iff case_prod_unfold writers_known_def)
qed

lemma reader_run_distinct:
  assumes "reader_run hash es tr = (tr', outs)" "distinct (map fst (tr_eos_writers tr))"
  shows "distinct (map fst (tr_eos_writers tr'))"
  using assms
proof (induction es arbitrary: tr outs)
  case (Cons e es)
  obtain t1 out where e: "reader_do hash e tr = (t1, out)" by (cases "reader_do hash e tr")
  obtain t2 outs2 where r: "reader_run hash es t1 = (t2, outs2)" by (cases "reader_run hash es t1")
  have t: "tr' = t2" using Cons.prems(1) e r by simp
  have "distinct (map fst (tr_eos_writers t1))"
  proof (cases e)
    case Wait
    then show ?thesis using e Cons.prems(2) by (cases rule: pop_pending_cases [of tr]) auto
  next
    case (Left addr prov)
    then show ?thesis using e Cons.prems(2) by (auto simp: comp_def case_prod_unfold)
  qed (use e Cons.prems(2) in \<open>auto simp: step_ready_def push_pending_def\<close>)
  then show ?case using Cons.IH [OF r [folded t]] by simp
qed simp



subsection \<open>Waiting\<close>

lemma count_new_eq: "count_new seen xs = card (set xs - set seen)"
proof (induction seen xs rule: count_new.induct)
  case (2 seen x xs)
  have "set (x # xs) - set seen = (if x \<in> set seen then {} else {x}) \<union> (set xs - set (seen @ [x]))" by auto
  then show ?case using 2 by simp
qed simp

lemma distinct_subscribers_eq: "distinct_subscribers tr = card (se_member ` set (tr_subs tr))"
  by (simp add: distinct_subscribers_def count_new_eq)

lemma wait_loop_skip: "(\<forall>j. i \<le> j \<and> j < k \<longrightarrow> \<not> over j \<and> \<not> expired j) \<Longrightarrow> i \<le> k \<Longrightarrow> wait_loop over expired i = wait_loop over expired k"
proof (induction "k - i" arbitrary: i)
  case (Suc d)
  then have "wait_loop over expired i = wait_loop over expired (i + 1)" by (subst wait_loop.simps) simp
  also have "\<dots> = wait_loop over expired k" using Suc(1) [of "i + 1"] Suc(2-4) by simp
  finally show ?case .
qed simp

lemma wait_loop_returns:
  assumes "over k \<or> expired k" "\<forall>j<k. \<not> over j \<and> \<not> expired j"
  shows "wait_loop over expired 0 = Some (if over k then (k, True) else (k + 1, False))"
  using assms wait_loop_skip [of 0 k over expired] wait_loop.simps [of over expired k] by auto

lemma wait_subscribers_result:
  assumes "tr_in_group (st 0)" "n > 0" "deadline_ns (now 0) timeout_ms \<le> now (k + 1)"
  shows "wait_subscribers st now n timeout_ms =
    Some (if \<exists>i\<le>k. n \<le> distinct_subscribers (st i) \<and> (\<forall>j<i. now (j + 1) < deadline_ns (now 0) timeout_ms) then Inr () else Inl EFail)"
proof -
  let ?over = "\<lambda>i. n \<le> distinct_subscribers (st i)" and ?exp = "\<lambda>i. deadline_ns (now 0) timeout_ms \<le> now (i + 1)"
  define i where "i = (LEAST i. ?over i \<or> ?exp i)"
  have "?over k \<or> ?exp k" using assms(3) by simp
  then have i: "?over i \<or> ?exp i" "i \<le> k"
    unfolding i_def by (rule LeastI [of "\<lambda>i. ?over i \<or> ?exp i"], rule Least_le)
  have before: "\<forall>j<i. \<not> ?over j \<and> \<not> ?exp j" unfolding i_def using not_less_Least by blast
  have "wait_loop ?over ?exp 0 = Some (if ?over i then (i, True) else (i + 1, False))"
    by (rule wait_loop_returns [OF i(1) before])
  moreover have "(\<exists>l\<le>k. ?over l \<and> (\<forall>j<l. \<not> ?exp j)) \<longleftrightarrow> ?over i"
    using i before by (metis linorder_neqE_nat)
  ultimately show ?thesis using assms(1,2) by (auto simp: wait_subscribers_def not_le)
qed

text \<open>
  (C32) Waiting for subscribers always ends once the clock reaches the deadline, and the answer is exact:
  the call succeeds if and only if at some look at the table, before any look that came after the
  deadline, as many distinct members as expected (not subscriptions) held one.
\<close>

theorem wait_subscribers_exact:
  fixes now :: "nat \<Rightarrow> nat"
  assumes "tr_in_group (st 0)" "n > 0" "now 0 + timeout_ms * 1000000 < 2 ^ 64" "now 0 + timeout_ms * 1000000 \<le> now (k + 1)"
  shows "wait_subscribers st now n timeout_ms =
    Some (if \<exists>i\<le>k. n \<le> card (se_member ` set (tr_subs (st i))) \<and> (\<forall>j<i. now (j + 1) < now 0 + timeout_ms * 1000000)
          then Inr () else Inl EFail)"
proof -
  have "deadline_ns (now 0) timeout_ms = now 0 + timeout_ms * 1000000"
    using assms(3) by (simp add: deadline_ns_def wrap64_def)
  then show ?thesis
    using wait_subscribers_result [of st n now timeout_ms k, OF assms(1,2)] assms(4) by (simp only: distinct_subscribers_eq)
qed

definition one_sub :: "member_id \<Rightarrow> string \<Rightarrow> sub_entry" where
  "one_sub m p = \<lparr>se_member = m, se_path = p, se_sel_start = 0, se_sel_count = U64_MAX, se_dcpl = [], se_pred = [],
     se_space = [], se_want_type = [], se_backfill = LIVE, se_backfill_from = 0\<rparr>"

definition arrivals :: "nat \<Rightarrow> tr" where
  "arrivals i = two_readers\<lparr>tr_subs := (if i < 2 then [one_sub 7 ''/x'', one_sub 7 ''/y''] else [one_sub 7 ''/x'', one_sub 7 ''/y'', one_sub 8 ''/x''])\<rparr>"

theorem wait_subscribers_exact_witness:
  "wait_subscribers arrivals (\<lambda>i. i * 5000000) 2 100 = Some (Inr ()) \<and>
   wait_subscribers arrivals (\<lambda>i. i * 5000000) 2 5 = Some (Inl EFail)"
proof -
  have in_group: "tr_in_group (arrivals 0)" by (simp add: arrivals_def two_readers_def)
  have subs: "se_member ` set (tr_subs (arrivals i)) = (if i < 2 then {7} else {7, 8})" for i
    by (auto simp: arrivals_def one_sub_def)
  have "(\<exists>i\<le>20. 2 \<le> card (se_member ` set (tr_subs (arrivals i))) \<and> (\<forall>j<i. (j + 1) * 5000000 < (100::nat) * 1000000))"
    by (intro exI [of _ 2]) (auto simp: subs)
  moreover have "\<not> (\<exists>i\<le>20. 2 \<le> card (se_member ` set (tr_subs (arrivals i))) \<and> (\<forall>j<i. (j + 1) * 5000000 < (5::nat) * 1000000))"
    by (auto simp: subs intro: exI [of _ 0])
  ultimately show ?thesis
    using wait_subscribers_exact [of arrivals 2 "\<lambda>i. i * 5000000" 100 20, OF in_group]
      wait_subscribers_exact [of arrivals 2 "\<lambda>i. i * 5000000" 5 20, OF in_group] by simp
qed

text \<open>
  The deadline is computed modulo \<open>2 ^ 64\<close> and not clamped as the readers' waits are: with the
  largest timeout it lies a millisecond in the past, and the call gives up at its first look
  however long the subscribers would have had.
\<close>

theorem wait_forever_gives_up:
  assumes "tr_in_group (st 0)" "card (se_member ` set (tr_subs (st 0))) < n" "1000000 \<le> now 0" "now 0 \<le> now 1" "now 1 < 2 ^ 64"
  shows "wait_subscribers st now n U64_MAX = Some (Inl EFail)"
proof -
  have "deadline_ns (now 0) U64_MAX = now 0 - 1000000"
  proof -
    have "wrap64 (U64_MAX * 1000000) = 2 ^ 64 - 1000000" by (simp add: wrap64_def U64_MAX_def)
    moreover have "(now 0 + (2 ^ 64 - 1000000)) mod 2 ^ 64 = now 0 - 1000000"
    proof -
      have "now 0 + (2 ^ 64 - 1000000) = (now 0 - 1000000) + 2 ^ 64" using assms(3) by simp
      then have "(now 0 + (2 ^ 64 - 1000000)) mod 2 ^ 64 = (now 0 - 1000000) mod 2 ^ 64" by (simp only: mod_add_self2)
      also have "\<dots> = now 0 - 1000000" using assms(4,5) by (intro mod_less) linarith
      finally show ?thesis .
    qed
    ultimately show ?thesis by (simp only: deadline_ns_def wrap64_def [of "_ + _"])
  qed
  then show ?thesis
    using wait_subscribers_result [of st n now U64_MAX 0, OF assms(1)] assms(2-4) by (auto simp: distinct_subscribers_eq)
qed

theorem wait_forever_gives_up_witness:
  "wait_subscribers arrivals (\<lambda>i. 5000000 + i * 5000000) 2 U64_MAX = Some (Inl EFail)"
proof (rule wait_forever_gives_up)
  show "card (se_member ` set (tr_subs (arrivals 0))) < 2" by (simp add: arrivals_def one_sub_def)
qed (simp_all add: arrivals_def two_readers_def)

end
