(* ===== verification/VS_Push.thy ===== *)
theory VS_Push
  imports VS_Group VS_Selection "HOL-Library.Sublist"
begin

text \<open>
  The data plane of the Mercury transport (\<open>tr_mercury.c\<close>): the list of pushes in flight, the push
  of one write to its subscribers with its narrowings, the push of an opaque payload, and the
  announcement of a step.

  The callbacks H5VLstream.c registers (selection, conversion, predicate, chunk shape, refilter),
  the registration of memory for bulk transfers and the outcome of Margo's calls are fields of
  \<open>push_env\<close>; a callback that is not registered is \<open>None\<close>. A push that has been
  issued is an element of the result, so what a write sends is a list of \<open>data_item\<close>s per
  member. Reads of the write's buffer are monitored (\<open>mem_read\<close>). The cache of registered
  regions, the buffers freed with it and the push statistics are not modelled.
\<close>

definition MAX_INFLIGHT_PUSHES :: nat where "MAX_INFLIGHT_PUSHES = 256"
definition MAX_PRED_RUNS :: nat where "MAX_PRED_RUNS = 64"

definition DELIVERY_SELECTION_SPAN :: u32 where "DELIVERY_SELECTION_SPAN = 0x1"
definition DELIVERY_PREDICATE_UNEVALUATED :: u32 where "DELIVERY_PREDICATE_UNEVALUATED = 0x2"
definition DELIVERY_PREDICATE_SPAN :: u32 where "DELIVERY_PREDICATE_SPAN = 0x4"
definition DELIVERY_TYPE_NATIVE :: u32 where "DELIVERY_TYPE_NATIVE = 0x8"

record inflight =
  fl_member :: member_id
  fl_item :: data_item
  fl_borrowed :: bool

record push_state =
  ps_inflight :: "inflight list"
  ps_borrowed :: nat
  ps_failed :: "member_id list"
  ps_bytes_pushed :: nat
  ps_issued :: nat

record push_env =
  pe_lookup :: "string \<Rightarrow> nat option"
  pe_selection :: "(byte list \<Rightarrow> byte list \<Rightarrow> nat \<Rightarrow> nat \<Rightarrow> nat \<Rightarrow> flat_run list cres) option"
  pe_convert :: "(byte list \<Rightarrow> nat \<Rightarrow> byte list \<Rightarrow> byte list \<Rightarrow> (byte list \<times> nat) option) option"
  pe_predicate :: "(byte list \<Rightarrow> nat \<Rightarrow> nat \<Rightarrow> byte list \<Rightarrow> byte list \<Rightarrow> nat \<Rightarrow> (flat_run list \<times> bool) cres) option"
  pe_shape :: "(byte list \<Rightarrow> nat \<Rightarrow> nat \<Rightarrow> nat) option"
  pe_refilter :: "(byte list \<Rightarrow> nat \<Rightarrow> nat \<Rightarrow> byte list \<Rightarrow> byte list \<Rightarrow> byte list \<Rightarrow> (byte list \<times> u32) option) option"
  pe_threshold :: nat
  pe_register :: "data_item \<Rightarrow> bool"
  pe_test_drop :: "nat option"
  pe_issue :: "nat \<Rightarrow> data_item \<Rightarrow> bool"
  pe_complete :: "inflight \<Rightarrow> bool"

subsection \<open>Pushes in flight\<close>

definition inflight_add :: "member_id \<Rightarrow> data_item \<Rightarrow> bool \<Rightarrow> push_state \<Rightarrow> push_state" where
  "inflight_add m item borrowed ps =
     ps\<lparr>ps_inflight := ps_inflight ps @ [\<lparr>fl_member = m, fl_item = item, fl_borrowed = borrowed\<rparr>],
        ps_borrowed := ps_borrowed ps + (if borrowed then 1 else 0)\<rparr>"

definition member_failed :: "push_state \<Rightarrow> member_id \<Rightarrow> bool" where
  "member_failed ps m \<longleftrightarrow> m \<in> set (ps_failed ps)"

definition member_failed_add :: "member_id \<Rightarrow> push_state \<Rightarrow> push_state" where
  "member_failed_add m ps = (if member_failed ps m then ps else ps\<lparr>ps_failed := ps_failed ps @ [m]\<rparr>)"

definition drain_one :: "push_env \<Rightarrow> push_state \<Rightarrow> push_state" where
  "drain_one env ps =
     (case ps_inflight ps of
        [] \<Rightarrow> ps
      | e # es \<Rightarrow>
          (let ps = (if pe_complete env e then ps else member_failed_add (fl_member e) ps) in
           ps\<lparr>ps_borrowed := ps_borrowed ps - (if fl_borrowed e then 1 else 0), ps_inflight := es\<rparr>))"

function drain_pushes :: "push_env \<Rightarrow> push_state \<Rightarrow> push_state" where
  "drain_pushes env ps = (if length (ps_inflight ps) > 0 then drain_pushes env (drain_one env ps) else ps)"
  by pat_completeness auto

function drain_borrowed :: "push_env \<Rightarrow> push_state \<Rightarrow> push_state" where
  "drain_borrowed env ps =
     (if ps_borrowed ps > 0 \<and> length (ps_inflight ps) > 0 then drain_borrowed env (drain_one env ps) else ps)"
  by pat_completeness auto

lemma drain_one_inflight [simp]: "ps_inflight (drain_one env ps) = tl (ps_inflight ps)"
  by (simp add: drain_one_def Let_def member_failed_add_def split: list.split)

termination drain_pushes
  by (relation "measure (\<lambda>(env, ps). length (ps_inflight ps))") auto

termination drain_borrowed
  by (relation "measure (\<lambda>(env, ps). length (ps_inflight ps))") auto

declare drain_pushes.simps [simp del] drain_borrowed.simps [simp del]

subsection \<open>One item\<close>

text \<open>
  \<open>vs_tr_push_one_item\<close>: the state, the item if it was issued, and whether the member is to be
  given up for the rest of the write. \<open>owned\<close> tells the refilter's output from the write's own
  memory.
\<close>

definition push_one_item ::
  "push_env \<Rightarrow> nat \<Rightarrow> member_id \<Rightarrow> data_item \<Rightarrow> bool \<Rightarrow> push_state \<Rightarrow> push_state \<times> data_item list \<times> bool" where
  "push_one_item env addr m item owned ps =
     (let drop = (pe_test_drop env = Some (ps_issued ps));
          ps = ps\<lparr>ps_issued := ps_issued ps + 1\<rparr>
      in if drop then (ps, [], False)
         else
           (let len = length (di_buf item);
                ps = ps\<lparr>ps_bytes_pushed := wrap64 (ps_bytes_pushed ps + len)\<rparr>;
                by_bulk = (len > 0 \<and> len \<ge> pe_threshold env \<and> pe_register env item);
                ps = (if length (ps_inflight ps) \<ge> MAX_INFLIGHT_PUSHES then drain_one env ps else ps)
            in if pe_issue env addr item
               then (let ps = inflight_add m item (by_bulk \<and> \<not> owned) ps in (ps, [item], member_failed ps m))
               else (ps, [], True)))"

subsection \<open>A run of elements, whole or chunk by chunk\<close>

text \<open>What a subscriber is served from: the write's own bytes, or the converted copy of the overlap.\<close>

record push_source =
  so_buf :: "byte list"
  so_base :: nat
  so_elem_size :: nat
  so_type :: "byte list"
  so_native :: "byte list"

function chunk_pieces :: "nat \<Rightarrow> nat \<Rightarrow> nat \<Rightarrow> (nat \<times> nat) list" where
  "chunk_pieces chunk n off =
     (if chunk > 0 \<and> off < n
      then (off, if n - off < chunk then n - off else chunk) # chunk_pieces chunk n (off + (if n - off < chunk then n - off else chunk))
      else [])"
  by pat_completeness auto
termination by (relation "measure (\<lambda>(chunk, n, off). n - off)") auto

declare chunk_pieces.simps [simp del]

definition run_pieces :: "push_env \<Rightarrow> byte list \<Rightarrow> nat \<Rightarrow> nat \<Rightarrow> (nat \<times> nat) list" where
  "run_pieces env dcpl esize n =
     (let chunk = (case pe_shape env of None \<Rightarrow> 0 | Some shape \<Rightarrow> if length dcpl > 0 then shape dcpl n esize else 0) in
      if chunk > 0 \<and> chunk < n then chunk_pieces chunk n 0 else [(0, n)])"

definition piece_item ::
  "push_env \<Rightarrow> nat \<Rightarrow> string \<Rightarrow> push_source \<Rightarrow> byte list \<Rightarrow> u32 \<Rightarrow> nat \<Rightarrow> nat \<Rightarrow> (data_item \<times> bool) cres" where
  "piece_item env step path so dcpl delivery start n =
     cbind (mem_read (so_buf so) (sub64 start (so_base so) * so_elem_size so) (n * so_elem_size so)) (\<lambda>bytes.
       case (if length dcpl > 0 then Option.bind (pe_refilter env) (\<lambda>refilter. refilter bytes (so_elem_size so) n dcpl (so_type so) (so_native so)) else None) of
         Some (cb_buf, cb_mask) \<Rightarrow>
           Inr (\<lparr>di_step = step, di_path = path, di_buf = cb_buf, di_elem_start = start, di_elem_count = n,
                 di_dcpl = dcpl, di_type = so_type so, di_filter_mask = cb_mask, di_delivery = delivery\<rparr>, True)
       | None \<Rightarrow>
           Inr (\<lparr>di_step = step, di_path = path, di_buf = bytes, di_elem_start = start, di_elem_count = n,
                 di_dcpl = [], di_type = so_type so, di_filter_mask = 0, di_delivery = delivery\<rparr>, False))"

text \<open>A loop over the pieces of a run, the runs of a selection run or the selection runs, left when the member is given up.\<close>

type_synonym push_result = "(push_state \<times> data_item list \<times> bool) cres"

fun push_each :: "('a \<Rightarrow> push_state \<Rightarrow> push_result) \<Rightarrow> 'a list \<Rightarrow> push_state \<Rightarrow> push_result" where
  "push_each f [] ps = Inr (ps, [], False)"
| "push_each f (x # xs) ps =
     cbind (f x ps) (\<lambda>(ps, out, unreachable).
       if unreachable then Inr (ps, out, True)
       else cbind (push_each f xs ps) (\<lambda>(ps, outs, unreachable). Inr (ps, out @ outs, unreachable)))"

definition push_run ::
  "push_env \<Rightarrow> nat \<Rightarrow> member_id \<Rightarrow> nat \<Rightarrow> string \<Rightarrow> push_source \<Rightarrow> byte list \<Rightarrow> u32 \<Rightarrow> nat \<Rightarrow> nat \<Rightarrow> push_state \<Rightarrow> push_result" where
  "push_run env addr m step path so dcpl delivery start n =
     push_each (\<lambda>(off, k) ps. cbind (piece_item env step path so dcpl delivery (start + off) k) (\<lambda>(item, owned).
         Inr (push_one_item env addr m item owned ps)))
       (run_pieces env dcpl (so_elem_size so) n)"

subsection \<open>The narrowings of a subscriber\<close>

definition sel_narrow ::
  "push_env \<Rightarrow> byte list \<Rightarrow> byte list \<Rightarrow> nat \<Rightarrow> nat \<Rightarrow> (flat_run list \<times> u32) cres" where
  "sel_narrow env sub_space space start n =
     (if length sub_space = 0 then Inr ([\<lparr>run_start = 0, run_count = n\<rparr>], 0)
      else case pe_selection env of
        None \<Rightarrow> Inr ([\<lparr>run_start = 0, run_count = n\<rparr>], DELIVERY_SELECTION_SPAN)
      | Some selection \<Rightarrow>
          (case selection sub_space space start n MAX_PRED_RUNS of
             Inr runs \<Rightarrow> Inr (runs, 0)
           | Inl EFail \<Rightarrow> Inr ([\<lparr>run_start = 0, run_count = n\<rparr>], DELIVERY_SELECTION_SPAN)
           | Inl EOob \<Rightarrow> Inl EOob))"

definition convert_source ::
  "push_env \<Rightarrow> byte list \<Rightarrow> push_source \<Rightarrow> nat \<Rightarrow> nat \<Rightarrow> (push_source \<times> u32) cres" where
  "convert_source env want so start n =
     (if length want = 0 then Inr (so, 0)
      else case pe_convert env of
        None \<Rightarrow> Inr (so, DELIVERY_TYPE_NATIVE)
      | Some convert \<Rightarrow>
          cbind (mem_read (so_buf so) (sub64 start (so_base so) * so_elem_size so) (n * so_elem_size so)) (\<lambda>bytes.
            case convert bytes n (so_type so) want of
              Some (conv, conv_esz) \<Rightarrow>
                (if conv_esz > 0
                 then Inr (\<lparr>so_buf = conv, so_base = start, so_elem_size = conv_esz, so_type = want, so_native = []\<rparr>, 0)
                 else Inr (so, DELIVERY_TYPE_NATIVE))
            | None \<Rightarrow> Inr (so, DELIVERY_TYPE_NATIVE)))"

definition pred_narrow ::
  "push_env \<Rightarrow> byte list \<Rightarrow> push_source \<Rightarrow> nat \<Rightarrow> nat \<Rightarrow> (flat_run list \<times> u32) cres" where
  "pred_narrow env pred so start n =
     (if length pred = 0 then Inr ([\<lparr>run_start = 0, run_count = n\<rparr>], 0)
      else case pe_predicate env of
        None \<Rightarrow> Inr ([\<lparr>run_start = 0, run_count = n\<rparr>], DELIVERY_PREDICATE_UNEVALUATED)
      | Some predicate \<Rightarrow>
          cbind (mem_read (so_buf so) (sub64 start (so_base so) * so_elem_size so) (n * so_elem_size so)) (\<lambda>bytes.
            case predicate bytes (so_elem_size so) n pred (so_type so) MAX_PRED_RUNS of
              Inr (runs, coalesced) \<Rightarrow> Inr (runs, if coalesced then DELIVERY_PREDICATE_SPAN else 0)
            | Inl EFail \<Rightarrow> Inr ([\<lparr>run_start = 0, run_count = n\<rparr>], DELIVERY_PREDICATE_UNEVALUATED)
            | Inl EOob \<Rightarrow> Inl EOob))"

definition push_sel_run ::
  "push_env \<Rightarrow> nat \<Rightarrow> nat \<Rightarrow> string \<Rightarrow> push_source \<Rightarrow> sub_entry \<Rightarrow> u32 \<Rightarrow> nat \<Rightarrow> flat_run \<Rightarrow> push_state \<Rightarrow> push_result" where
  "push_sel_run env addr step path so e sub_delivery overlap_start sr ps =
     (let sel_start_abs = overlap_start + run_start sr in
      cbind (pred_narrow env (se_pred e) so sel_start_abs (run_count sr)) (\<lambda>(runs, pred_delivery).
        push_each (\<lambda>r. push_run env addr (se_member e) step path so (se_dcpl e) (sub_delivery OR pred_delivery) (sel_start_abs + run_start r) (run_count r)) runs ps))"

subsection \<open>A write and its subscribers\<close>

record write_rec =
  wr_step :: nat
  wr_path :: string
  wr_buf :: "byte list"
  wr_elem_size :: nat
  wr_start :: nat
  wr_count :: nat
  wr_type :: "byte list"
  wr_native :: "byte list"
  wr_space :: "byte list"

definition wr_end :: "write_rec \<Rightarrow> nat" where
  "wr_end wr = wrap64 (wr_start wr + wr_count wr)"

definition sub_end :: "sub_entry \<Rightarrow> nat" where
  "sub_end e = (if se_sel_count e = U64_MAX then U64_MAX else wrap64 (se_sel_start e + se_sel_count e))"

definition overlap_start :: "write_rec \<Rightarrow> sub_entry \<Rightarrow> nat" where
  "overlap_start wr e = (if se_sel_start e > wr_start wr then se_sel_start e else wr_start wr)"

definition overlap_end :: "write_rec \<Rightarrow> sub_entry \<Rightarrow> nat" where
  "overlap_end wr e = (if sub_end e < wr_end wr then sub_end e else wr_end wr)"

definition wr_source :: "write_rec \<Rightarrow> push_source" where
  "wr_source wr = \<lparr>so_buf = wr_buf wr, so_base = wr_start wr, so_elem_size = wr_elem_size wr, so_type = wr_type wr, so_native = wr_native wr\<rparr>"

definition push_sub ::
  "push_env \<Rightarrow> write_rec \<Rightarrow> sub_entry \<Rightarrow> tr \<Rightarrow> push_state \<Rightarrow> (tr \<times> push_state \<times> data_item list) cres" where
  "push_sub env wr e tr ps =
     (if se_member e = tr_self_id tr then Inr (tr, ps, [])
      else if overlap_start wr e \<ge> overlap_end wr e then Inr (tr, ps, [])
      else
        (let start = overlap_start wr e; count = overlap_end wr e - overlap_start wr e in
         cbind (sel_narrow env (se_space e) (wr_space wr) start count) (\<lambda>(sel_runs, sel_delivery).
           if sel_runs = [] then Inr (tr, ps, [])
           else (case member_addr (pe_lookup env) (se_member e) tr of
               (tr, None) \<Rightarrow> Inr (tr, ps, [])
             | (tr, Some addr) \<Rightarrow>
                 cbind (convert_source env (se_want_type e) (wr_source wr) start count) (\<lambda>(so, type_delivery).
                   cbind (push_each (push_sel_run env addr (wr_step wr) (wr_path wr) so e (sel_delivery OR type_delivery) start) sel_runs ps)
                     (\<lambda>(ps, out, _). Inr (tr, ps, out)))))))"

fun push_subs ::
  "push_env \<Rightarrow> write_rec \<Rightarrow> sub_entry list \<Rightarrow> tr \<Rightarrow> push_state \<Rightarrow> (tr \<times> push_state \<times> (member_id \<times> data_item) list) cres" where
  "push_subs env wr [] tr ps = Inr (tr, ps, [])"
| "push_subs env wr (e # es) tr ps =
     cbind (push_sub env wr e tr ps) (\<lambda>(tr, ps, out).
       cbind (push_subs env wr es tr ps) (\<lambda>(tr, ps, outs). Inr (tr, ps, map (Pair (se_member e)) out @ outs)))"

text \<open>The entries of a path that get live pushes, or those of one member for a backfill.\<close>

definition push_targets :: "string \<Rightarrow> member_id option \<Rightarrow> tr \<Rightarrow> sub_entry list" where
  "push_targets path only tr =
     filter (\<lambda>e. se_path e = path \<and> (case only of None \<Rightarrow> True | Some m \<Rightarrow> se_member e = m) \<and> se_backfill e = LIVE) (tr_subs tr)"

definition push_data ::
  "push_env \<Rightarrow> member_id option \<Rightarrow> write_rec \<Rightarrow> tr \<Rightarrow> push_state \<Rightarrow> (tr \<times> push_state \<times> (member_id \<times> data_item) list) cres" where
  "push_data env only wr tr ps =
     (if wr_elem_size wr = 0 then Inl EFail
      else if \<not> tr_in_group tr then Inr (tr, ps, [])
      else push_subs env wr (push_targets (wr_path wr) only tr) tr (ps\<lparr>ps_failed := []\<rparr>))"

definition push_data_to ::
  "push_env \<Rightarrow> member_id \<Rightarrow> write_rec \<Rightarrow> tr \<Rightarrow> push_state \<Rightarrow> (tr \<times> push_state \<times> (member_id \<times> data_item) list) cres" where
  "push_data_to env m wr tr ps = push_data env (Some m) (wr\<lparr>wr_native := []\<rparr>) tr ps"

subsection \<open>A payload that cannot be narrowed\<close>

definition opaque_touches :: "write_rec \<Rightarrow> sub_entry \<Rightarrow> bool" where
  "opaque_touches wr e \<longleftrightarrow> \<not> (se_sel_start e \<ge> wr_end wr \<or> sub_end e \<le> wr_start wr)"

definition opaque_delivery :: "push_env \<Rightarrow> u32 \<Rightarrow> write_rec \<Rightarrow> sub_entry \<Rightarrow> u32 cres" where
  "opaque_delivery env extra wr e =
     (let bits = extra OR (if length (se_pred e) > 0 then DELIVERY_PREDICATE_UNEVALUATED else 0)
                       OR (if length (se_want_type e) > 0 then DELIVERY_TYPE_NATIVE else 0)
      in if se_sel_start e > wr_start wr \<or> sub_end e < wr_end wr then Inr (bits OR DELIVERY_SELECTION_SPAN)
         else if length (se_space e) = 0 then Inr bits
         else case pe_selection env of
           None \<Rightarrow> Inr (bits OR DELIVERY_SELECTION_SPAN)
         | Some selection \<Rightarrow>
             (case selection (se_space e) (wr_space wr) (wr_start wr) (wr_count wr) 1 of
                Inr runs \<Rightarrow> Inr (if runs = [\<lparr>run_start = 0, run_count = wr_count wr\<rparr>] then bits else bits OR DELIVERY_SELECTION_SPAN)
              | Inl EFail \<Rightarrow> Inr (bits OR DELIVERY_SELECTION_SPAN)
              | Inl EOob \<Rightarrow> Inl EOob))"

definition push_opaque_one ::
  "push_env \<Rightarrow> u32 \<Rightarrow> write_rec \<Rightarrow> sub_entry \<Rightarrow> tr \<Rightarrow> push_state \<Rightarrow> (tr \<times> push_state \<times> data_item list) cres" where
  "push_opaque_one env extra wr e tr ps =
     cbind (opaque_delivery env extra wr e) (\<lambda>delivery.
       if member_failed ps (se_member e) then Inr (tr, ps, [])
       else (case member_addr (pe_lookup env) (se_member e) tr of
           (tr, None) \<Rightarrow> Inr (tr, ps, [])
         | (tr, Some addr) \<Rightarrow>
             (case push_one_item env addr (se_member e)
                     \<lparr>di_step = wr_step wr, di_path = wr_path wr, di_buf = wr_buf wr, di_elem_start = wr_start wr,
                      di_elem_count = wr_count wr, di_dcpl = [], di_type = wr_type wr, di_filter_mask = 0, di_delivery = delivery\<rparr> False ps
              of (ps, out, _) \<Rightarrow> Inr (tr, ps, out))))"

fun push_opaque_each ::
  "push_env \<Rightarrow> u32 \<Rightarrow> write_rec \<Rightarrow> sub_entry list \<Rightarrow> tr \<Rightarrow> push_state \<Rightarrow> (tr \<times> push_state \<times> (member_id \<times> data_item) list) cres" where
  "push_opaque_each env extra wr [] tr ps = Inr (tr, ps, [])"
| "push_opaque_each env extra wr (e # es) tr ps =
     cbind (push_opaque_one env extra wr e tr ps) (\<lambda>(tr, ps, out).
       cbind (push_opaque_each env extra wr es tr ps) (\<lambda>(tr, ps, outs). Inr (tr, ps, map (Pair (se_member e)) out @ outs)))"

definition push_opaque ::
  "push_env \<Rightarrow> member_id option \<Rightarrow> u32 \<Rightarrow> write_rec \<Rightarrow> tr \<Rightarrow> push_state \<Rightarrow> (tr \<times> push_state \<times> (member_id \<times> data_item) list) cres" where
  "push_opaque env only extra wr tr ps =
     (if length (wr_buf wr) = 0 then Inl EFail
      else if \<not> tr_in_group tr then Inr (tr, ps, [])
      else push_opaque_each env extra wr
             (filter (\<lambda>e. se_member e \<noteq> tr_self_id tr \<and> opaque_touches wr e) (push_targets (wr_path wr) only tr))
             tr (ps\<lparr>ps_failed := []\<rparr>))"

subsection \<open>Announcing a step\<close>

fun announce_each :: "link_env \<Rightarrow> nat \<times> nat \<times> member_id \<Rightarrow> member_id list \<Rightarrow> tr \<Rightarrow> net \<Rightarrow> tr \<times> net" where
  "announce_each env q [] tr net = (tr, net)"
| "announce_each env q (m # ms) tr net =
     (if member_backfilling tr m then announce_each env q ms tr net
      else (case call_member env Known step_ready q m tr net of (tr, net, _) \<Rightarrow> announce_each env q ms tr net))"

definition broadcast_step_ready ::
  "push_env \<Rightarrow> link_env \<Rightarrow> nat \<Rightarrow> nat \<Rightarrow> tr \<Rightarrow> push_state \<Rightarrow> net \<Rightarrow> tr \<times> push_state \<times> net" where
  "broadcast_step_ready penv env physical_step wall_time_ns tr ps net =
     (let ps = drain_pushes penv ps; tr = tr\<lparr>tr_last_step := Some (physical_step, wall_time_ns)\<rparr> in
      if \<not> tr_in_group tr then (tr, ps, net)
      else (case announce_each env (physical_step, wall_time_ns, tr_self_id tr) (snapshot_members tr) tr net of
              (tr, net) \<Rightarrow> (tr, ps, net)))"

definition announce_to ::
  "push_env \<Rightarrow> link_env \<Rightarrow> member_id \<Rightarrow> nat \<Rightarrow> nat \<Rightarrow> tr \<Rightarrow> push_state \<Rightarrow> net \<Rightarrow> tr \<times> push_state \<times> net \<times> unit cres" where
  "announce_to penv env m physical_step wall_time_ns tr ps net =
     (if \<not> tr_in_group tr then (tr, ps, net, Inl EFail)
      else
        (let ps = drain_pushes penv ps in
         case call_member env Known step_ready (physical_step, wall_time_ns, tr_self_id tr) m tr net of
           (tr, net, r) \<Rightarrow> (tr, ps, net, if r = None then Inl EFail else Inr ())))"

section \<open>The list of pushes in flight\<close>

definition ps_inv :: "push_state \<Rightarrow> bool" where
  "ps_inv ps \<longleftrightarrow> length (ps_inflight ps) \<le> MAX_INFLIGHT_PUSHES \<and> ps_borrowed ps = length (filter fl_borrowed (ps_inflight ps))"

lemma drain_one_inv: "ps_inv ps \<Longrightarrow> ps_inv (drain_one env ps)"
  by (auto simp: ps_inv_def drain_one_def Let_def member_failed_add_def split: list.split)

lemma drain_one_failed_ok: "(\<forall>f. pe_complete env f) \<Longrightarrow> ps_failed (drain_one env ps) = ps_failed ps"
  by (simp add: drain_one_def Let_def split: list.split)

lemma drain_pushes_inv: "ps_inv ps \<Longrightarrow> ps_inv (drain_pushes env ps) \<and> ps_inflight (drain_pushes env ps) = []"
proof (induction env ps rule: drain_pushes.induct)
  case (1 env ps)
  then show ?case
    using drain_one_inv by (cases "ps_inflight ps = []") (auto simp: drain_pushes.simps [of env ps])
qed

lemma drain_borrowed_inv: "ps_inv ps \<Longrightarrow> ps_inv (drain_borrowed env ps) \<and> ps_borrowed (drain_borrowed env ps) = 0"
proof (induction env ps rule: drain_borrowed.induct)
  case (1 env ps)
  show ?case
  proof (cases "ps_borrowed ps > 0 \<and> length (ps_inflight ps) > 0")
    case True
    then show ?thesis using 1 drain_one_inv by (simp add: drain_borrowed.simps [of env ps])
  next
    case False
    then have "ps_borrowed ps = 0" using 1(2) by (auto simp: ps_inv_def)
    then show ?thesis using 1(2) False by (simp add: drain_borrowed.simps [of env ps])
  qed
qed

text \<open>A link on which no request is lost.\<close>

definition link_ok :: "push_env \<Rightarrow> bool" where
  "link_ok env \<longleftrightarrow> pe_test_drop env = None \<and> (\<forall>a i. pe_issue env a i) \<and> (\<forall>f. pe_complete env f)"

definition item_elems :: "data_item \<Rightarrow> nat list" where
  "item_elems i = [di_elem_start i ..< di_elem_start i + di_elem_count i]"

abbreviation items_elems :: "data_item list \<Rightarrow> nat list" where
  "items_elems is \<equiv> concat (map item_elems is)"

text \<open>
  \<open>pushes_ok env Q f xs\<close>: from every well-formed state \<open>f\<close> ends without a read outside a buffer in a
  well-formed state, every item it sends satisfies \<open>Q\<close>, the elements sent are a subsequence of
  \<open>xs\<close>, and all of \<open>xs\<close> on a link that loses nothing.
\<close>

definition pushed :: "push_env \<Rightarrow> (data_item \<Rightarrow> bool) \<Rightarrow> nat list \<Rightarrow> push_state \<Rightarrow> push_state \<times> data_item list \<times> bool \<Rightarrow> bool" where
  "pushed env Q xs ps = (\<lambda>(ps', out, u). ps_inv ps' \<and> list_all Q out \<and> subseq (items_elems out) xs \<and>
     (link_ok env \<and> ps_failed ps = [] \<longrightarrow> items_elems out = xs \<and> \<not> u \<and> ps_failed ps' = []))"

definition pushes_ok :: "push_env \<Rightarrow> (data_item \<Rightarrow> bool) \<Rightarrow> (push_state \<Rightarrow> push_result) \<Rightarrow> nat list \<Rightarrow> bool" where
  "pushes_ok env Q f xs \<longleftrightarrow> (\<forall>ps. ps_inv ps \<longrightarrow> (\<exists>r. f ps = Inr r \<and> pushed env Q xs ps r))"

lemma pushesD:
  assumes "pushes_ok env Q f xs" "ps_inv ps"
  obtains ps' out u where "f ps = Inr (ps', out, u)" "pushed env Q xs ps (ps', out, u)"
  using assms unfolding pushes_ok_def by (metis prod_cases3)

lemma pushesI:
  assumes "\<And>ps. ps_inv ps \<Longrightarrow> \<exists>ps' out u. f ps = Inr (ps', out, u) \<and> pushed env Q xs ps (ps', out, u)"
  shows "pushes_ok env Q f xs"
  using assms unfolding pushes_ok_def by blast

lemma pushed_weaken: "pushed env Q xs ps r \<Longrightarrow> (\<And>i. Q i \<Longrightarrow> R i) \<Longrightarrow> pushed env R xs ps r"
  by (auto simp: pushed_def list_all_iff)

lemma pushes_weaken: "pushes_ok env Q f xs \<Longrightarrow> (\<And>i. Q i \<Longrightarrow> R i) \<Longrightarrow> pushes_ok env R f xs"
  unfolding pushes_ok_def using pushed_weaken [of env Q xs _ _ R] by blast

lemma inflight_add_inv: "ps_inv ps \<Longrightarrow> length (ps_inflight ps) < MAX_INFLIGHT_PUSHES \<Longrightarrow> ps_inv (inflight_add m item b ps)"
  by (simp add: ps_inv_def inflight_add_def)

lemma make_room_inv:
  assumes "ps_inv ps"
  shows "ps_inv (if length (ps_inflight ps) \<ge> MAX_INFLIGHT_PUSHES then drain_one env ps else ps)"
    and "length (ps_inflight (if length (ps_inflight ps) \<ge> MAX_INFLIGHT_PUSHES then drain_one env ps else ps)) < MAX_INFLIGHT_PUSHES"
  using assms drain_one_inv [OF assms, of env] by (auto simp: ps_inv_def MAX_INFLIGHT_PUSHES_def)

lemma push_one_item_pushes:
  assumes "Q item"
  shows "pushes_ok env Q (\<lambda>ps. Inr (push_one_item env addr m item owned ps)) (item_elems item)"
proof (rule pushesI)
  fix ps assume inv: "ps_inv ps"
  let ?p1 = "ps\<lparr>ps_issued := ps_issued ps + 1\<rparr>"
  let ?p2 = "?p1\<lparr>ps_bytes_pushed := wrap64 (ps_bytes_pushed ps + length (di_buf item))\<rparr>"
  let ?b = "length (di_buf item) > 0 \<and> length (di_buf item) \<ge> pe_threshold env \<and> pe_register env item"
  define p3 where "p3 = (if length (ps_inflight ?p2) \<ge> MAX_INFLIGHT_PUSHES then drain_one env ?p2 else ?p2)"
  define p4 where "p4 = inflight_add m item (?b \<and> \<not> owned) p3"
  have i1: "ps_inv ?p1" "ps_inv ?p2" using inv by (simp_all add: ps_inv_def)
  have i3: "ps_inv p3" "ps_inv p4"
    using make_room_inv [OF i1(2), of env] inflight_add_inv unfolding p3_def p4_def by blast+
  have f: "ps_failed p3 = ps_failed ps" if "link_ok env"
    using that drain_one_failed_ok [of env ?p2] by (simp add: p3_def link_ok_def)
  have f4: "ps_failed p4 = ps_failed p3" by (simp add: p4_def inflight_add_def)
  have eq: "push_one_item env addr m item owned ps =
    (if pe_test_drop env = Some (ps_issued ps) then (?p1, [], False)
     else if pe_issue env addr item then (p4, [item], member_failed p4 m) else (p3, [], True))"
    by (simp add: push_one_item_def Let_def p3_def p4_def)
  have "pushed env Q (item_elems item) ps (push_one_item env addr m item owned ps)"
    unfolding eq pushed_def using assms i1 i3 f f4 by (auto simp: link_ok_def member_failed_def)
  then show "\<exists>ps' out u. Inr (push_one_item env addr m item owned ps) = Inr (ps', out, u) \<and> pushed env Q (item_elems item) ps (ps', out, u)"
    by (metis prod_cases3)
qed

lemma push_each_pushes:
  assumes "\<And>x. x \<in> set xs \<Longrightarrow> pushes_ok env Q (f x) (g x)"
  shows "pushes_ok env Q (push_each f xs) (concat (map g xs))"
  using assms
proof (induction xs)
  case Nil
  show ?case by (rule pushesI) (auto simp: pushed_def)
next
  case (Cons x xs)
  show ?case
  proof (rule pushesI)
    fix ps assume "ps_inv ps"
    then obtain p1 o1 u1 where 1: "f x ps = Inr (p1, o1, u1)" "pushed env Q (g x) ps (p1, o1, u1)"
      using pushesD [OF Cons.prems [of x]] by (metis list.set_intros(1))
    have inv1: "ps_inv p1" using 1(2) by (simp add: pushed_def)
    have rest: "pushes_ok env Q (push_each f xs) (concat (map g xs))" using Cons by simp
    obtain p2 o2 u2 where 2: "push_each f xs p1 = Inr (p2, o2, u2)" "pushed env Q (concat (map g xs)) p1 (p2, o2, u2)"
      using pushesD [OF rest inv1] .
    show "\<exists>ps' out u. push_each f (x # xs) ps = Inr (ps', out, u) \<and> pushed env Q (concat (map g (x # xs))) ps (ps', out, u)"
    proof (cases u1)
      case True
      then show ?thesis using 1 by (auto simp: pushed_def intro: subseq_order.trans [OF _ list_emb_prefix [OF subseq_order.refl]])
    next
      case False
      then have "push_each f (x # xs) ps = Inr (p2, o1 @ o2, u2)" using 1(1) 2(1) by simp
      moreover have "pushed env Q (concat (map g (x # xs))) ps (p2, o1 @ o2, u2)"
        using 1(2) 2(2) by (auto simp: pushed_def intro: list_emb_append_mono)
      ultimately show ?thesis by blast
    qed
  qed
qed

lemma upt_join: "a \<le> b \<Longrightarrow> b \<le> c \<Longrightarrow> [a..<b] @ [b..<c] = [a..<c]"
  by (metis le_add_diff_inverse upt_add_eq_append)

lemma chunk_pieces_cover:
  "chunk > 0 \<Longrightarrow> off \<le> n \<Longrightarrow> concat (map (\<lambda>(o', k). [start + o' ..< start + o' + k]) (chunk_pieces chunk n off)) = [start + off ..< start + n]"
proof (induction chunk n off rule: chunk_pieces.induct)
  case (1 chunk n off)
  show ?case
  proof (cases "off < n")
    case True
    let ?k = "if n - off < chunk then n - off else chunk"
    have k: "off + ?k \<le> n" using True by auto
    have "concat (map (\<lambda>(o', k). [start + o' ..< start + o' + k]) (chunk_pieces chunk n off)) =
      [start + off ..< start + off + ?k] @ [start + (off + ?k) ..< start + n]"
      using 1(1) [OF _ _ k] 1(2) True by (simp add: chunk_pieces.simps [of chunk n off])
    also have "\<dots> = [start + off ..< start + n]"
      using k by (simp add: upt_join add.assoc)
    finally show ?thesis .
  next
    case False
    then have "off = n" using 1(3) by simp
    moreover have "chunk_pieces chunk n n = []" by (simp add: chunk_pieces.simps [of chunk n n])
    ultimately show ?thesis by simp
  qed
qed

lemma chunk_pieces_within: "(o', k) \<in> set (chunk_pieces chunk n off) \<Longrightarrow> o' + k \<le> n"
proof (induction chunk n off rule: chunk_pieces.induct)
  case (1 chunk n off)
  show ?case
    using 1(2) 1(1) chunk_pieces.simps [of chunk n off]
    by (cases "chunk > 0 \<and> off < n") (auto split: if_splits)
qed

lemma run_pieces_cover:
  "concat (map (\<lambda>(o', k). [start + o' ..< start + o' + k]) (run_pieces env dcpl esize n)) = [start ..< start + n]"
  using chunk_pieces_cover [of _ 0 n start] by (auto simp: run_pieces_def Let_def split: option.split)

lemma run_pieces_within: "(o', k) \<in> set (run_pieces env dcpl esize n) \<Longrightarrow> o' + k \<le> n"
  using chunk_pieces_within by (auto simp: run_pieces_def Let_def split: option.splits if_splits)

text \<open>The element range \<open>[start, start + n)\<close> lies in a source, and its bytes there.\<close>

definition covers :: "push_source \<Rightarrow> nat \<Rightarrow> nat \<Rightarrow> bool" where
  "covers so start n \<longleftrightarrow> so_base so \<le> start \<and> start + n \<le> U64_MAX \<and> (start + n - so_base so) * so_elem_size so \<le> length (so_buf so)"

definition range_bytes :: "push_source \<Rightarrow> nat \<Rightarrow> nat \<Rightarrow> byte list" where
  "range_bytes so start n = take (n * so_elem_size so) (drop ((start - so_base so) * so_elem_size so) (so_buf so))"

lemma covers_sub: "covers so start n \<Longrightarrow> o' + k \<le> n \<Longrightarrow> covers so (start + o') k"
proof -
  assume c: "covers so start n" and ok: "o' + k \<le> n"
  then have "(start + o' + k - so_base so) * so_elem_size so \<le> (start + n - so_base so) * so_elem_size so"
    by (intro mult_le_mono1) simp
  also have "\<dots> \<le> length (so_buf so)" using c by (simp add: covers_def)
  finally show ?thesis using c ok unfolding covers_def by linarith
qed

lemma covers_read:
  assumes "covers so start n"
  shows "mem_read (so_buf so) (sub64 start (so_base so) * so_elem_size so) (n * so_elem_size so) = Inr (range_bytes so start n)"
proof -
  have "sub64 start (so_base so) = start - so_base so" using assms by (intro sub64_id) (simp_all add: covers_def)
  moreover have "(start - so_base so) * so_elem_size so + n * so_elem_size so = (start + n - so_base so) * so_elem_size so"
    using assms by (simp add: covers_def flip: add_mult_distrib)
  ultimately show ?thesis using assms by (simp add: covers_def mem_read_def range_bytes_def)
qed

text \<open>What an item carries: the bytes of its range as they are, or the refilter's output for them.\<close>

definition item_ok :: "push_env \<Rightarrow> nat \<Rightarrow> string \<Rightarrow> push_source \<Rightarrow> byte list \<Rightarrow> data_item \<Rightarrow> bool" where
  "item_ok env step path so dcpl i \<longleftrightarrow> di_step i = step \<and> di_path i = path \<and> di_type i = so_type so \<and>
     (let bytes = range_bytes so (di_elem_start i) (di_elem_count i) in
      di_dcpl i = [] \<and> di_buf i = bytes \<or>
      dcpl \<noteq> [] \<and> di_dcpl i = dcpl \<and> (\<exists>refilter. pe_refilter env = Some refilter \<and>
         refilter bytes (so_elem_size so) (di_elem_count i) dcpl (so_type so) (so_native so) = Some (di_buf i, di_filter_mask i)))"

lemma piece_item_ok:
  assumes "covers so start n"
  obtains item owned where "piece_item env step path so dcpl delivery start n = Inr (item, owned)"
    "item_ok env step path so dcpl item" "di_delivery item = delivery" "item_elems item = [start ..< start + n]"
proof -
  let ?r = "if length dcpl > 0 then Option.bind (pe_refilter env) (\<lambda>refilter. refilter (range_bytes so start n) (so_elem_size so) n dcpl (so_type so) (so_native so)) else None"
  show thesis
  proof (cases ?r)
    case None
    show thesis
      by (rule that [of "\<lparr>di_step = step, di_path = path, di_buf = range_bytes so start n, di_elem_start = start, di_elem_count = n,
                 di_dcpl = [], di_type = so_type so, di_filter_mask = 0, di_delivery = delivery\<rparr>" False])
        (use None in \<open>simp_all add: piece_item_def covers_read [OF assms] item_ok_def item_elems_def Let_def\<close>)
  next
    case (Some r)
    obtain b k where r: "r = (b, k)" by (cases r)
    then have "dcpl \<noteq> []" "\<exists>refilter. pe_refilter env = Some refilter \<and> refilter (range_bytes so start n) (so_elem_size so) n dcpl (so_type so) (so_native so) = Some (b, k)"
      using Some by (auto split: if_splits Option.bind_splits)
    then show thesis
      by (intro that [of "\<lparr>di_step = step, di_path = path, di_buf = b, di_elem_start = start, di_elem_count = n,
                 di_dcpl = dcpl, di_type = so_type so, di_filter_mask = k, di_delivery = delivery\<rparr>" True])
        (use Some r in \<open>simp_all add: piece_item_def covers_read [OF assms] item_ok_def item_elems_def Let_def\<close>)
  qed
qed

lemma push_run_pushes:
  assumes "covers so start n"
  shows "pushes_ok env (\<lambda>i. item_ok env step path so dcpl i \<and> di_delivery i = delivery)
    (push_run env addr m step path so dcpl delivery start n) [start ..< start + n]"
proof -
  have "pushes_ok env (\<lambda>i. item_ok env step path so dcpl i \<and> di_delivery i = delivery)
      (case p of (off, k) \<Rightarrow> \<lambda>ps. cbind (piece_item env step path so dcpl delivery (start + off) k) (\<lambda>(item, owned). Inr (push_one_item env addr m item owned ps)))
      (case p of (off, k) \<Rightarrow> [start + off ..< start + off + k])" if "p \<in> set (run_pieces env dcpl (so_elem_size so) n)" for p
  proof -
    obtain off k where p: "p = (off, k)" by (cases p)
    then have "covers so (start + off) k" using that run_pieces_within covers_sub [OF assms] by blast
    then obtain item owned where i: "piece_item env step path so dcpl delivery (start + off) k = Inr (item, owned)"
        "item_ok env step path so dcpl item" "di_delivery item = delivery" "item_elems item = [start + off ..< start + off + k]"
      by (rule piece_item_ok)
    show ?thesis
      using push_one_item_pushes [of "\<lambda>i. item_ok env step path so dcpl i \<and> di_delivery i = delivery" item env addr m owned] i p by simp
  qed
  then show ?thesis
    unfolding push_run_def run_pieces_cover [of start env dcpl "so_elem_size so" n, symmetric] by (rule push_each_pushes)
qed

definition runs_within :: "nat \<Rightarrow> flat_run list \<Rightarrow> bool" where
  "runs_within n rs \<longleftrightarrow> (\<forall>r \<in> set rs. run_start r + run_count r \<le> n)"

lemma shift_runs_elems: "map ((+) k) (runs_elems rs) = concat (map (\<lambda>r. [k + run_start r ..< k + run_start r + run_count r]) rs)"
  by (induction rs) (simp_all add: run_elems_def map_shift_upt add.assoc)

lemma push_sel_run_pushes:
  assumes "covers so (ostart + run_start sr) (run_count sr)"
    and p: "pred_narrow env (se_pred e) so (ostart + run_start sr) (run_count sr) = Inr (runs, pd)" and "runs_within (run_count sr) runs"
  shows "pushes_ok env (\<lambda>i. item_ok env step path so (se_dcpl e) i \<and> di_delivery i = sd OR pd)
    (push_sel_run env addr step path so e sd ostart sr) (map ((+) (ostart + run_start sr)) (runs_elems runs))"
proof -
  let ?a = "ostart + run_start sr"
  have f: "push_sel_run env addr step path so e sd ostart sr =
      push_each (\<lambda>r. push_run env addr (se_member e) step path so (se_dcpl e) (sd OR pd) (?a + run_start r) (run_count r)) runs"
    by (rule ext) (simp add: push_sel_run_def p)
  have "pushes_ok env (\<lambda>i. item_ok env step path so (se_dcpl e) i \<and> di_delivery i = sd OR pd)
      (push_run env addr (se_member e) step path so (se_dcpl e) (sd OR pd) (?a + run_start r) (run_count r))
      [?a + run_start r ..< ?a + run_start r + run_count r]" if "r \<in> set runs" for r
    using that assms(3) by (intro push_run_pushes covers_sub [OF assms(1)]) (auto simp: runs_within_def)
  then show ?thesis unfolding f shift_runs_elems by (rule push_each_pushes)
qed

section \<open>What a subscriber is sent\<close>

definition wr_ok :: "write_rec \<Rightarrow> bool" where
  "wr_ok wr \<longleftrightarrow> wr_elem_size wr > 0 \<and> wr_start wr + wr_count wr \<le> U64_MAX \<and> length (wr_buf wr) = wr_count wr * wr_elem_size wr"

text \<open>
  The contract of the callbacks, as \<open>tr_mercury.h\<close> documents it: the runs of a selection or of a
  predicate lie in the range asked about, and a conversion returns as many elements as it was given.
\<close>

definition callbacks_ok :: "push_env \<Rightarrow> bool" where
  "callbacks_ok env \<longleftrightarrow>
     (\<forall>f a b s n k. pe_selection env = Some f \<longrightarrow> f a b s n k \<noteq> Inl EOob \<and> (\<forall>rs. f a b s n k = Inr rs \<longrightarrow> runs_within n rs)) \<and>
     (\<forall>f bs n t w c z. pe_convert env = Some f \<and> f bs n t w = Some (c, z) \<longrightarrow> length c = n * z) \<and>
     (\<forall>f bs z n p t k. pe_predicate env = Some f \<and> length bs = n * z \<longrightarrow>
        f bs z n p t k \<noteq> Inl EOob \<and> (\<forall>rs c. f bs z n p t k = Inr (rs, c) \<longrightarrow> runs_within n rs))"

text \<open>
  The elements a subscriber is due of a write: its overlap, cut down by its selection and then, run
  by run, by its predicate on the data in the type it is served, as far as the callbacks can tell.
\<close>

definition due :: "push_env \<Rightarrow> write_rec \<Rightarrow> sub_entry \<Rightarrow> nat list" where
  "due env wr e =
     (let s = overlap_start wr e; n = overlap_end wr e - s in
      if overlap_start wr e \<ge> overlap_end wr e then []
      else case (sel_narrow env (se_space e) (wr_space wr) s n, convert_source env (se_want_type e) (wr_source wr) s n) of
        (Inr (sel_runs, _), Inr (so, _)) \<Rightarrow>
          concat (map (\<lambda>sr. case pred_narrow env (se_pred e) so (s + run_start sr) (run_count sr) of
              Inr (runs, _) \<Rightarrow> map ((+) (s + run_start sr)) (runs_elems runs) | Inl _ \<Rightarrow> []) sel_runs)
      | _ \<Rightarrow> [])"

lemma runs_within_whole [simp]: "runs_within n [\<lparr>run_start = 0, run_count = n\<rparr>]"
  by (simp add: runs_within_def)

lemma not_EOob: "a \<noteq> EOob \<longleftrightarrow> a = EFail"
  by (cases a) simp_all

lemma sel_narrow_ok:
  assumes "callbacks_ok env"
  obtains runs d where "sel_narrow env sub_space space s n = Inr (runs, d)" "runs_within n runs"
proof (cases "pe_selection env")
  case None
  then show thesis using that by (cases "length sub_space = 0") (simp_all add: sel_narrow_def)
next
  case (Some f)
  then have "f sub_space space s n MAX_PRED_RUNS \<noteq> Inl EOob" "\<And>rs. f sub_space space s n MAX_PRED_RUNS = Inr rs \<Longrightarrow> runs_within n rs"
    using assms by (simp_all add: callbacks_ok_def)
  then show thesis using that Some
    by (cases "length sub_space = 0"; cases "f sub_space space s n MAX_PRED_RUNS")
      (auto simp: sel_narrow_def not_EOob)
qed

lemma convert_source_ok:
  assumes "callbacks_ok env" "covers so s n"
  obtains so' d where "convert_source env want so s n = Inr (so', d)" "covers so' s n"
proof -
  have "\<exists>so' d. convert_source env want so s n = Inr (so', d) \<and> covers so' s n"
  proof (cases "pe_convert env")
    case None
    then show ?thesis using assms(2) by (simp add: convert_source_def)
  next
    case (Some f)
    show ?thesis
    proof (cases "f (range_bytes so s n) n (so_type so) want")
      case None
      then show ?thesis using assms(2) Some covers_read [OF assms(2)] by (simp add: convert_source_def)
    next
      case (Some cz)
      obtain c z where cz: "cz = (c, z)" by (cases cz)
      then have "length c = n * z" using assms(1) Some \<open>pe_convert env = Some f\<close> unfolding callbacks_ok_def by metis
      then show ?thesis
        using assms(2) Some cz \<open>pe_convert env = Some f\<close> covers_read [OF assms(2)]
        by (auto simp: convert_source_def covers_def)
    qed
  qed
  then show thesis using that by blast
qed

lemma pred_narrow_ok:
  assumes "callbacks_ok env" "covers so s n"
  obtains runs d where "pred_narrow env pred so s n = Inr (runs, d)" "runs_within n runs"
proof (cases "pe_predicate env")
  case None
  then show thesis using that by (cases "length pred = 0") (simp_all add: pred_narrow_def)
next
  case (Some f)
  have "n * so_elem_size so \<le> length (so_buf so) - (s - so_base so) * so_elem_size so"
  proof -
    have "(s - so_base so) * so_elem_size so + n * so_elem_size so = (s + n - so_base so) * so_elem_size so"
      using assms(2) by (simp add: covers_def flip: add_mult_distrib)
    moreover have "(s + n - so_base so) * so_elem_size so \<le> length (so_buf so)" using assms(2) by (simp add: covers_def)
    ultimately show ?thesis by linarith
  qed
  then have len: "length (range_bytes so s n) = n * so_elem_size so" by (simp add: range_bytes_def)
  let ?p = "f (range_bytes so s n) (so_elem_size so) n pred (so_type so) MAX_PRED_RUNS"
  have "?p \<noteq> Inl EOob" "\<And>rs c. ?p = Inr (rs, c) \<Longrightarrow> runs_within n rs"
    using assms(1) Some len unfolding callbacks_ok_def by blast+
  then show thesis using that Some covers_read [OF assms(2)]
    by (cases "length pred = 0"; cases ?p) (auto simp: pred_narrow_def not_EOob)
qed

lemma overlap_covers:
  assumes "wr_ok wr" "overlap_start wr e < overlap_end wr e"
  shows "covers (wr_source wr) (overlap_start wr e) (overlap_end wr e - overlap_start wr e)"
proof -
  have w: "wr_end wr = wr_start wr + wr_count wr" using assms(1) by (simp add: wr_ok_def wr_end_def wrap64_id)
  have "overlap_end wr e \<le> wr_start wr + wr_count wr" "wr_start wr \<le> overlap_start wr e"
    by (simp_all add: overlap_end_def overlap_start_def w)
  moreover from this have "(overlap_end wr e - wr_start wr) * wr_elem_size wr \<le> wr_count wr * wr_elem_size wr"
    by (intro mult_le_mono1) simp
  ultimately show ?thesis using assms by (simp add: covers_def wr_source_def wr_ok_def)
qed

text \<open>
  The items sent for a subscription: they hold its due elements in order, each with the bytes of its
  range in the type asked for; all of them when the link loses nothing and the member can be reached.
\<close>

definition sub_sent :: "push_env \<Rightarrow> write_rec \<Rightarrow> sub_entry \<Rightarrow> bool \<Rightarrow> data_item list \<Rightarrow> bool" where
  "sub_sent env wr e reachable out \<longleftrightarrow>
     subseq (items_elems out) (due env wr e) \<and>
     (\<forall>i \<in> set out. \<exists>so d. convert_source env (se_want_type e) (wr_source wr) (overlap_start wr e) (overlap_end wr e - overlap_start wr e) = Inr (so, d) \<and>
        item_ok env (wr_step wr) (wr_path wr) so (se_dcpl e) i) \<and>
     (link_ok env \<and> reachable \<longrightarrow> items_elems out = due env wr e)"

text \<open>The result of pushing to one subscriber, whose member is not the writer itself.\<close>

lemma push_sub_result:
  assumes "callbacks_ok env" "wr_ok wr" "ps_inv ps" "se_member e \<noteq> tr_self_id tr"
  shows "\<exists>tr' ps' out. push_sub env wr e tr ps = Inr (tr', ps', out) \<and> ps_inv ps' \<and> tr_self_id tr' = tr_self_id tr \<and>
    (\<forall>m. snd (member_addr (pe_lookup env) m tr') = snd (member_addr (pe_lookup env) m tr)) \<and>
    sub_sent env wr e (ps_failed ps = [] \<and> snd (member_addr (pe_lookup env) (se_member e) tr) \<noteq> None) out \<and>
    (link_ok env \<and> ps_failed ps = [] \<longrightarrow> ps_failed ps' = [])"
proof (cases "overlap_start wr e < overlap_end wr e")
  case False
  then have "push_sub env wr e tr ps = Inr (tr, ps, [])" "due env wr e = []"
    by (simp_all add: push_sub_def due_def)
  then show ?thesis using assms(3) by (simp add: sub_sent_def)
next
  case True
  let ?s = "overlap_start wr e" and ?n = "overlap_end wr e - overlap_start wr e"
  obtain sel_runs sd where sel: "sel_narrow env (se_space e) (wr_space wr) ?s ?n = Inr (sel_runs, sd)" "runs_within ?n sel_runs"
    using sel_narrow_ok [OF assms(1)] .
  have cov0: "covers (wr_source wr) ?s ?n" by (rule overlap_covers [OF assms(2) True])
  obtain so td where conv: "convert_source env (se_want_type e) (wr_source wr) ?s ?n = Inr (so, td)" and cov: "covers so ?s ?n"
    using convert_source_ok [OF assms(1) cov0] .
  let ?g = "\<lambda>sr. case pred_narrow env (se_pred e) so (?s + run_start sr) (run_count sr) of
      Inr (runs, _) \<Rightarrow> map ((+) (?s + run_start sr)) (runs_elems runs) | Inl _ \<Rightarrow> []"
  have due: "due env wr e = concat (map ?g sel_runs)"
    using True sel(1) conv by (simp add: due_def Let_def)
  have P: "pushes_ok env (item_ok env (wr_step wr) (wr_path wr) so (se_dcpl e))
      (push_each (push_sel_run env addr (wr_step wr) (wr_path wr) so e (sd OR td) ?s) sel_runs) (concat (map ?g sel_runs))" for addr
  proof (rule push_each_pushes)
    fix sr assume "sr \<in> set sel_runs"
    then have c: "covers so (?s + run_start sr) (run_count sr)" using sel(2) by (intro covers_sub [OF cov]) (simp add: runs_within_def)
    obtain runs pd where p: "pred_narrow env (se_pred e) so (?s + run_start sr) (run_count sr) = Inr (runs, pd)" "runs_within (run_count sr) runs"
      using pred_narrow_ok [OF assms(1) c] .
    show "pushes_ok env (item_ok env (wr_step wr) (wr_path wr) so (se_dcpl e))
        (push_sel_run env addr (wr_step wr) (wr_path wr) so e (sd OR td) ?s sr) (?g sr)"
      using pushes_weaken [OF push_sel_run_pushes [OF c p, of "wr_step wr" "wr_path wr" "sd OR td" addr]] p(1) by fastforce
  qed
  obtain tr1 ao where ma: "member_addr (pe_lookup env) (se_member e) tr = (tr1, ao)" by (cases "member_addr (pe_lookup env) (se_member e) tr")
  have tr1: "tr_self_id tr1 = tr_self_id tr" "snd (member_addr (pe_lookup env) m tr1) = snd (member_addr (pe_lookup env) m tr)" for m
    using member_addr_stable [of "pe_lookup env" m "se_member e" tr] ma by (auto simp: member_addr_def split: option.splits)
  have eq: "push_sub env wr e tr ps =
     (if sel_runs = [] then Inr (tr, ps, [])
      else case ao of None \<Rightarrow> Inr (tr1, ps, [])
        | Some addr \<Rightarrow> cbind (push_each (push_sel_run env addr (wr_step wr) (wr_path wr) so e (sd OR td) ?s) sel_runs ps) (\<lambda>(ps, out, _). Inr (tr1, ps, out)))"
    using True assms(4) sel(1) conv ma
    by (simp add: push_sub_def Let_def split: option.split)
  show ?thesis
  proof (cases "sel_runs = [] \<or> ao = None")
    case True
    then show ?thesis using assms(3) tr1 ma due eq by (cases "sel_runs = []") (auto simp: sub_sent_def)
  next
    case False
    then obtain addr where ao: "ao = Some addr" by auto
    obtain ps' out u where r: "push_each (push_sel_run env addr (wr_step wr) (wr_path wr) so e (sd OR td) ?s) sel_runs ps = Inr (ps', out, u)"
        "pushed env (item_ok env (wr_step wr) (wr_path wr) so (se_dcpl e)) (concat (map ?g sel_runs)) ps (ps', out, u)"
      using pushesD [OF P assms(3)] .
    have "push_sub env wr e tr ps = Inr (tr1, ps', out)" using eq False ao r(1) by simp
    then show ?thesis using r(2) tr1 conv due by (auto simp: pushed_def list_all_iff sub_sent_def)
  qed
qed

definition sent_to :: "member_id \<Rightarrow> (member_id \<times> data_item) list \<Rightarrow> data_item list" where
  "sent_to m out = map snd (filter (\<lambda>(k, i). k = m) out)"

lemma sent_to_simps:
  "sent_to m (out @ outs) = sent_to m out @ sent_to m outs"
  "sent_to m (map (Pair k) is) = (if k = m then is else [])"
  by (simp_all add: sent_to_def comp_def filter_map)

lemma sent_to_none: "m \<notin> fst ` set out \<Longrightarrow> sent_to m out = []"
  by (force simp: sent_to_def filter_empty_conv)

lemma sub_sent_weaken: "sub_sent env wr e r out \<Longrightarrow> (link_ok env \<Longrightarrow> r' \<Longrightarrow> r) \<Longrightarrow> sub_sent env wr e r' out"
  by (auto simp: sub_sent_def)

lemma push_subs_result:
  assumes "callbacks_ok env" "wr_ok wr" "ps_inv ps" "distinct (map se_member es)"
  shows "\<exists>tr' ps' out. push_subs env wr es tr ps = Inr (tr', ps', out) \<and> ps_inv ps' \<and>
    fst ` set out \<subseteq> se_member ` set es - {tr_self_id tr} \<and>
    (\<forall>e \<in> set es. se_member e \<noteq> tr_self_id tr \<longrightarrow>
       sub_sent env wr e (ps_failed ps = [] \<and> snd (member_addr (pe_lookup env) (se_member e) tr) \<noteq> None) (sent_to (se_member e) out))"
  using assms(3,4)
proof (induction es arbitrary: tr ps)
  case Nil
  then show ?case by simp
next
  case (Cons e es)
  show ?case
  proof (cases "se_member e = tr_self_id tr")
    case True
    then have "push_sub env wr e tr ps = Inr (tr, ps, [])" by (simp add: push_sub_def)
    then show ?thesis using Cons.IH [of ps tr] Cons.prems True by auto
  next
    case False
    obtain t1 p1 out where 1: "push_sub env wr e tr ps = Inr (t1, p1, out)" "ps_inv p1" "tr_self_id t1 = tr_self_id tr"
        "\<forall>m. snd (member_addr (pe_lookup env) m t1) = snd (member_addr (pe_lookup env) m tr)"
        "sub_sent env wr e (ps_failed ps = [] \<and> snd (member_addr (pe_lookup env) (se_member e) tr) \<noteq> None) out"
        "link_ok env \<and> ps_failed ps = [] \<longrightarrow> ps_failed p1 = []"
      using push_sub_result [OF assms(1,2) Cons.prems(1) False] by blast
    obtain t2 p2 outs where 2: "push_subs env wr es t1 p1 = Inr (t2, p2, outs)" "ps_inv p2"
        "fst ` set outs \<subseteq> se_member ` set es - {tr_self_id tr}"
        "\<forall>f \<in> set es. se_member f \<noteq> tr_self_id tr \<longrightarrow>
           sub_sent env wr f (ps_failed p1 = [] \<and> snd (member_addr (pe_lookup env) (se_member f) tr) \<noteq> None) (sent_to (se_member f) outs)"
      using Cons.IH [OF 1(2), of t1] Cons.prems(2) 1(3,4) by auto
    have new: "se_member e \<notin> fst ` set outs" "\<And>f. f \<in> set es \<Longrightarrow> se_member f \<noteq> se_member e"
      using 2(3) Cons.prems(2) by (auto simp: image_iff)
    have "sub_sent env wr f (ps_failed ps = [] \<and> snd (member_addr (pe_lookup env) (se_member f) tr) \<noteq> None)
        (sent_to (se_member f) (map (Pair (se_member e)) out @ outs))" if f: "f \<in> set (e # es)" "se_member f \<noteq> tr_self_id tr" for f
    proof (cases "f \<in> set es")
      case True
      then show ?thesis
        using new(2) [OF True] sub_sent_weaken [OF 2(4) [rule_format, OF True f(2)]] 1(6) by (simp add: sent_to_simps)
    next
      case False
      then have "f = e" using f(1) by simp
      then show ?thesis using 1(5) sent_to_none [OF new(1)] by (simp add: sent_to_simps)
    qed
    moreover have "fst ` set (map (Pair (se_member e)) out @ outs) \<subseteq> se_member ` set (e # es) - {tr_self_id tr}"
      using 2(3) False by auto
    ultimately show ?thesis using 1(1) 2(1,2) by simp
  qed
qed

lemma due_whole:
  assumes "se_space e = []" "se_pred e = []" "callbacks_ok env" "wr_ok wr"
  shows "due env wr e = [overlap_start wr e ..< overlap_end wr e]"
proof (cases "overlap_start wr e < overlap_end wr e")
  case True
  obtain so d where "convert_source env (se_want_type e) (wr_source wr) (overlap_start wr e) (overlap_end wr e - overlap_start wr e) = Inr (so, d)"
    using convert_source_ok [OF assms(3) overlap_covers [OF assms(4) True]] .
  then show ?thesis
    using True assms(1,2) by (simp add: due_def Let_def sel_narrow_def pred_narrow_def run_elems_def map_shift_upt)
qed (simp add: due_def)

lemma targets_distinct:
  "distinct (map sub_key (tr_subs tr)) \<Longrightarrow> distinct (map se_member (push_targets path only tr))"
proof -
  have "distinct (map se_member (filter (\<lambda>e. se_path e = path \<and> P e) es))" if "distinct (map sub_key es)" for P es
    using that by (induction es) (auto simp: image_iff)
  then show "distinct (map sub_key (tr_subs tr)) \<Longrightarrow> ?thesis" by (simp add: push_targets_def)
qed

text \<open>The subscriptions a write is meant for, and the elements one of them asked for, as readers see them.\<close>

definition live_sub :: "string \<Rightarrow> member_id option \<Rightarrow> tr \<Rightarrow> sub_entry \<Rightarrow> bool" where
  "live_sub path only tr e \<longleftrightarrow> e \<in> set (tr_subs tr) \<and> se_path e = path \<and> se_backfill e = LIVE \<and>
     (only = None \<or> only = Some (se_member e)) \<and> se_member e \<noteq> tr_self_id tr"

definition asked_for :: "sub_entry \<Rightarrow> nat \<Rightarrow> bool" where
  "asked_for e x \<longleftrightarrow> se_sel_start e \<le> x \<and> (se_sel_count e = U64_MAX \<or> x < se_sel_start e + se_sel_count e)"

lemma push_targets_live: "e \<in> set (push_targets path only tr) \<and> se_member e \<noteq> tr_self_id tr \<longleftrightarrow> live_sub path only tr e"
  by (auto simp: push_targets_def live_sub_def split: option.splits)

lemma due_asked:
  assumes "se_space e = []" "se_pred e = []" "callbacks_ok env" "wr_ok wr" "se_sel_count e = U64_MAX \<or> se_sel_start e + se_sel_count e \<le> U64_MAX"
  shows "due env wr e = filter (asked_for e) [wr_start wr ..< wr_start wr + wr_count wr]"
proof -
  have w: "wr_end wr = wr_start wr + wr_count wr" "wr_end wr \<le> U64_MAX" using assms(4) by (simp_all add: wr_ok_def wr_end_def wrap64_id)
  have s: "sub_end e = (if se_sel_count e = U64_MAX then U64_MAX else se_sel_start e + se_sel_count e)"
    using assms(5) by (auto simp: sub_end_def wrap64_id)
  have "filter (asked_for e) [wr_start wr ..< wr_end wr] = filter (in_range (se_sel_start e) (sub_end e)) [wr_start wr ..< wr_end wr]"
    using w(2) by (intro filter_cong refl) (auto simp: asked_for_def s)
  also have "\<dots> = [overlap_start wr e ..< overlap_end wr e]"
    unfolding filter_in_range by (simp add: overlap_start_def overlap_end_def max_def min_def)
  finally show ?thesis using due_whole [OF assms(1-4)] w(1) by simp
qed


definition push_env_example :: push_env where
  "push_env_example = \<lparr>pe_lookup = (\<lambda>a. Some 20), pe_selection = None, pe_convert = None, pe_predicate = None, pe_shape = None,
     pe_refilter = None, pe_threshold = 4, pe_register = (\<lambda>_. True), pe_test_drop = None, pe_issue = (\<lambda>_ _. True), pe_complete = (\<lambda>_. True)\<rparr>"

definition ps_start :: push_state where
  "ps_start = \<lparr>ps_inflight = [], ps_borrowed = 0, ps_failed = [], ps_bytes_pushed = 0, ps_issued = 0\<rparr>"

definition wr_example :: write_rec where
  "wr_example = \<lparr>wr_step = 3, wr_path = ''/x'', wr_buf = [10, 11, 12, 13, 14, 15, 16, 17], wr_elem_size = 2, wr_start = 4, wr_count = 4,
     wr_type = [1], wr_native = [], wr_space = []\<rparr>"

definition tr_push_example :: tr where
  "tr_push_example = two_readers\<lparr>tr_subs := [(one_sub 7 ''/x'')\<lparr>se_sel_start := 5, se_sel_count := 2\<rparr>, one_sub 8 ''/y'']\<rparr>"

lemma push_examples_ok: "callbacks_ok push_env_example" "link_ok push_env_example" "wr_ok wr_example" "ps_inv ps_start" "tr_in_group tr_push_example" "tr_inv tr_push_example"
  by (auto simp: callbacks_ok_def push_env_example_def link_ok_def wr_ok_def wr_example_def U64_MAX_val ps_inv_def ps_start_def
      tr_push_example_def two_readers_def tr_start_def tr_inv_def one_sub_def)


section \<open>Ordering of pushes and announcements\<close>

definition announced_at :: "link_env \<Rightarrow> tr \<Rightarrow> member_id list \<Rightarrow> nat \<Rightarrow> bool" where
  "announced_at env tr ms a \<longleftrightarrow> le_deliver env Known a \<noteq> Lost \<and>
     (\<exists>m \<in> set ms. \<not> member_backfilling tr m \<and> snd (member_addr (le_lookup env) m tr) = Some a)"

lemma member_addr_frame:
  "tr_subs (fst (member_addr look m tr)) = tr_subs tr" "tr_last_step (fst (member_addr look m tr)) = tr_last_step tr"
  "member_backfilling (fst (member_addr look m tr)) = member_backfilling tr"
  by (simp_all add: member_addr_def member_backfilling_def fun_eq_iff split: option.split)

lemma call_step_ready:
  assumes "call_member env Known step_ready q m tr net = (tr', net', r)"
  shows "tr' = fst (member_addr (le_lookup env) m tr)"
    and "net' = (\<lambda>a. if snd (member_addr (le_lookup env) m tr) = Some a \<and> le_deliver env Known a \<noteq> Lost
                     then map_option (\<lambda>t. fst (step_ready q t)) (net a) else net a)"
  using assms
  by (auto simp: call_member_def forward_def intro!: ext split: prod.splits option.splits delivery.splits)

lemma announce_each_exact:
  assumes "announce_each env q ms tr net = (tr', net')" "distinct ms"
    and "\<forall>m \<in> set ms. \<forall>m' \<in> set ms. \<forall>a. snd (member_addr (le_lookup env) m tr) = Some a \<and> snd (member_addr (le_lookup env) m' tr) = Some a \<longrightarrow> m = m'"
  shows "tr_last_step tr' = tr_last_step tr \<and> tr_subs tr' = tr_subs tr \<and>
    net' = (\<lambda>a. if announced_at env tr ms a then map_option (\<lambda>t. fst (step_ready q t)) (net a) else net a)"
  using assms
proof (induction ms arbitrary: tr net)
  case Nil
  then show ?case by (simp add: announced_at_def)
next
  case (Cons m ms)
  show ?case
  proof (cases "member_backfilling tr m")
    case True
    then have "announced_at env tr (m # ms) = announced_at env tr ms" by (auto simp: announced_at_def fun_eq_iff)
    then show ?thesis using Cons True by simp
  next
    case False
    obtain t1 n1 r where 1: "call_member env Known step_ready q m tr net = (t1, n1, r)" by (cases "call_member env Known step_ready q m tr net") auto
    note c = call_step_ready [OF 1]
    have rest: "announce_each env q ms t1 n1 = (tr', net')" using Cons.prems(1) False 1 by simp
    have same: "announced_at env t1 ms = announced_at env tr ms"
      unfolding c(1) by (simp add: announced_at_def fun_eq_iff member_addr_stable member_addr_frame)
    have ih: "tr_last_step tr' = tr_last_step t1 \<and> tr_subs tr' = tr_subs t1 \<and>
      net' = (\<lambda>a. if announced_at env tr ms a then map_option (\<lambda>t. fst (step_ready q t)) (n1 a) else n1 a)"
      unfolding same [symmetric]
      by (rule Cons.IH [OF rest]) (use Cons.prems(2,3) in \<open>simp_all add: c(1) member_addr_stable\<close>)
    have once: "snd (member_addr (le_lookup env) m tr) \<noteq> Some a" if "announced_at env tr ms a" for a
      using that Cons.prems(2,3) by (fastforce simp: announced_at_def)
    have "announced_at env tr (m # ms) a \<longleftrightarrow> snd (member_addr (le_lookup env) m tr) = Some a \<and> le_deliver env Known a \<noteq> Lost \<or> announced_at env tr ms a" for a
      using False by (auto simp: announced_at_def)
    then show ?thesis
      using ih once unfolding c by (auto simp: fun_eq_iff member_addr_frame)
  qed
qed



section \<open>Buffers that are still being read\<close>

text \<open>
  A push by bulk transfer leaves the subscriber reading the caller's buffer: the push of a write
  can return with such a transfer outstanding, and the buffer may be freed only after the
  borrowed pushes have been drained, which ends with none outstanding whatever was in flight.
\<close>

theorem push_data_leaves_borrowed:
  "(case push_data push_env_example None wr_example tr_push_example ps_start of
      Inr (_, ps, _) \<Rightarrow> ps_borrowed ps = 1 \<and> ps_borrowed (drain_borrowed push_env_example ps) = 0 | Inl _ \<Rightarrow> False)"
proof -
  have "[5..<7] = [5, 6::nat]" by (simp add: upt_rec)
  show ?thesis
    by (simp add: push_data_def push_targets_def wr_example_def tr_push_example_def one_sub_def two_readers_def tr_start_def
        push_sub_def overlap_start_def overlap_end_def wr_end_def sub_end_def wrap64_def U64_MAX_val Let_def sel_narrow_def
        convert_source_def member_addr_def push_env_example_def push_sel_run_def pred_narrow_def push_run_def run_pieces_def
        piece_item_def wr_source_def sub64_def mem_read_def push_one_item_def ps_start_def MAX_INFLIGHT_PUSHES_def inflight_add_def
        member_failed_def drain_borrowed.simps drain_one_def)
qed

end
