(* ===== verification/VS_Pathmap.thy ===== *)
theory VS_Pathmap
  imports VS_Text
begin

text \<open>
  \<open>H5VL_stream_pathmap_t\<close>: the open-addressing hash table from object paths to array
  indices, and the interface its clients (the path index, the two type caches, the published
  schema) rely on. A path is a C string without its terminator. The probe loop of
  \<open>H5VL__stream_pathmap_slot\<close> only ends at a matching or an empty slot, so it is a
  \<^theory_text>\<open>partial_function\<close>: \<open>None\<close> is a loop that never ends. Capacities are
  \<open>nat\<close> (a table of \<open>2 ^ 60\<close> slots does not fit in memory) and allocation succeeds.
\<close>



record pathmap =
  pm_keys :: "path option list"
  pm_vals :: "nat list"
  pm_cap :: nat
  pm_n :: nat

definition pathmap_empty :: pathmap where
  "pathmap_empty = \<lparr>pm_keys = [], pm_vals = [], pm_cap = 0, pm_n = 0\<rparr>"

definition pathmap_hash :: "path \<Rightarrow> u64" where
  "pathmap_hash s = foldl (\<lambda>h c. (h XOR of_char c) * 1099511628211) 1469598103934665603 s"

partial_function (option) slot_loop :: "path option list \<Rightarrow> nat \<Rightarrow> path \<Rightarrow> nat \<Rightarrow> nat option" where
  "slot_loop keys msk key i =
     (case keys ! i of
        None \<Rightarrow> Some i
      | Some k \<Rightarrow> if k \<noteq> key then slot_loop keys msk key ((i + 1) AND msk) else Some i)"

declare slot_loop.simps [code]

definition pathmap_slot :: "pathmap \<Rightarrow> path \<Rightarrow> nat option" where
  "pathmap_slot m key =
     (let msk = pm_cap m - 1 in
      slot_loop (pm_keys m) msk key (unat (pathmap_hash key) AND msk))"

text \<open>The rehash loop of \<open>H5VL__stream_pathmap_grow\<close>, over the old slots in order.\<close>

fun rehash :: "(path option \<times> nat) list \<Rightarrow> pathmap \<Rightarrow> pathmap option" where
  "rehash [] bigger = Some bigger"
| "rehash ((None, v) # slots) bigger = rehash slots bigger"
| "rehash ((Some k, v) # slots) bigger =
     Option.bind (pathmap_slot bigger k) (\<lambda>j.
       rehash slots (bigger\<lparr>pm_keys := (pm_keys bigger)[j := Some k],
                            pm_vals := (pm_vals bigger)[j := v],
                            pm_n := pm_n bigger + 1\<rparr>))"

definition pathmap_grow :: "pathmap \<Rightarrow> pathmap option" where
  "pathmap_grow m =
     (let cap = (if pm_cap m = 0 then 16 else pm_cap m * 2);
          bigger = \<lparr>pm_keys = replicate cap None, pm_vals = replicate cap 0,
                    pm_cap = cap, pm_n = 0\<rparr>
      in rehash (zip (pm_keys m) (pm_vals m)) bigger)"

definition pathmap_find :: "pathmap \<Rightarrow> path \<Rightarrow> nat option option" where
  "pathmap_find m key =
     (if pm_cap m = 0 then Some None
      else Option.bind (pathmap_slot m key) (\<lambda>i.
        Some (case pm_keys m ! i of None \<Rightarrow> None | Some _ \<Rightarrow> Some (pm_vals m ! i))))"

definition pathmap_set :: "pathmap \<Rightarrow> path \<Rightarrow> nat \<Rightarrow> pathmap option" where
  "pathmap_set m key index =
     Option.bind (if pm_cap m = 0 \<or> (pm_n m + 1) * 10 \<ge> pm_cap m * 7 then pathmap_grow m else Some m)
       (\<lambda>m. Option.bind (pathmap_slot m key) (\<lambda>i.
          let m = (if pm_keys m ! i = None
                   then m\<lparr>pm_keys := (pm_keys m)[i := Some key], pm_n := pm_n m + 1\<rparr> else m)
          in Some (m\<lparr>pm_vals := (pm_vals m)[i := index]\<rparr>)))"

definition pathmap_clear :: "pathmap \<Rightarrow> pathmap" where
  "pathmap_clear m = \<lparr>pm_keys = [], pm_vals = [], pm_cap = 0, pm_n = 0\<rparr>"

subsection \<open>Abstraction and invariant\<close>

definition pm_map :: "pathmap \<Rightarrow> path \<Rightarrow> nat option" where
  "pm_map m k = map_of (zip (pm_keys m) (pm_vals m)) (Some k)"

definition home :: "nat \<Rightarrow> path \<Rightarrow> nat" where
  "home cap k = unat (pathmap_hash k) mod cap"

definition probe :: "nat \<Rightarrow> path \<Rightarrow> nat \<Rightarrow> nat" where
  "probe cap k d = (home cap k + d) mod cap"

text \<open>
  Well-formed tables: a power-of-two capacity with a free slot, no key twice, and every slot
  between a key's home and its slot taken, so a probe cannot stop early.
\<close>

definition pm_wf :: "pathmap \<Rightarrow> bool" where
  "pm_wf m \<longleftrightarrow>
     (\<exists>e. pm_cap m = 2 ^ e) \<and> length (pm_keys m) = pm_cap m \<and> length (pm_vals m) = pm_cap m \<and>
     pm_n m = length (filter (\<lambda>k. k \<noteq> None) (pm_keys m)) \<and> pm_n m < pm_cap m \<and>
     (\<forall>i < pm_cap m. \<forall>j < pm_cap m. pm_keys m ! i = pm_keys m ! j \<longrightarrow> pm_keys m ! i \<noteq> None \<longrightarrow> i = j) \<and>
     (\<forall>i < pm_cap m. \<forall>k. pm_keys m ! i = Some k \<longrightarrow>
        (\<exists>d < pm_cap m. probe (pm_cap m) k d = i \<and>
           (\<forall>e < d. pm_keys m ! probe (pm_cap m) k e \<noteq> None)))"

definition pm_invar :: "pathmap \<Rightarrow> bool" where
  "pm_invar m \<longleftrightarrow> m = pathmap_empty \<or> (pm_wf m \<and> 16 \<le> pm_cap m \<and> pm_n m * 10 < pm_cap m * 7)"

lemma pm_wf_pow2: "pm_wf m \<Longrightarrow> \<exists>e. pm_cap m = 2 ^ e"
  and pm_wf_lens [simp]: "pm_wf m \<Longrightarrow> length (pm_keys m) = pm_cap m" "pm_wf m \<Longrightarrow> length (pm_vals m) = pm_cap m"
  and pm_wf_n: "pm_wf m \<Longrightarrow> pm_n m = length (filter (\<lambda>k. k \<noteq> None) (pm_keys m))"
  and pm_wf_room: "pm_wf m \<Longrightarrow> pm_n m < pm_cap m"
  by (simp_all add: pm_wf_def)

lemma pm_wf_uniq:
  "pm_wf m \<Longrightarrow> i < pm_cap m \<Longrightarrow> j < pm_cap m \<Longrightarrow> pm_keys m ! i = Some k \<Longrightarrow> pm_keys m ! j = Some k \<Longrightarrow> i = j"
  unfolding pm_wf_def by simp

lemma pm_wf_reach:
  "pm_wf m \<Longrightarrow> i < pm_cap m \<Longrightarrow> pm_keys m ! i = Some k \<Longrightarrow>
     \<exists>d < pm_cap m. probe (pm_cap m) k d = i \<and> (\<forall>e < d. pm_keys m ! probe (pm_cap m) k e \<noteq> None)"
  unfolding pm_wf_def by blast

lemma probe_lt: "0 < cap \<Longrightarrow> probe cap k d < cap"
  by (simp add: probe_def)

lemma probe_Suc: "(probe cap k d + 1) mod cap = probe cap k (Suc d)"
  by (simp add: probe_def mod_Suc_eq)

lemma probe_surj:
  assumes "i < cap"
  shows "\<exists>d < cap. probe cap k d = i"
proof -
  let ?h = "home cap k"
  have h: "?h < cap" using assms by (simp add: home_def)
  let ?d = "(cap - ?h + i) mod cap"
  have "probe cap k ?d = (?h + (cap - ?h + i)) mod cap"
    by (simp add: probe_def mod_add_right_eq)
  also have "\<dots> = i" using h assms by simp
  finally show ?thesis using assms by (intro exI [of _ ?d]) simp
qed

lemma and_mask_mod: "(x :: nat) AND (2 ^ e - Suc 0) = x mod 2 ^ e"
  by (metis One_nat_def mask_eq_exp_minus_1 take_bit_eq_mask take_bit_eq_mod)

lemma pm_slot_start:
  "pm_cap m = 2 ^ e \<Longrightarrow>
     pathmap_slot m key = slot_loop (pm_keys m) (2 ^ e - 1) key (probe (pm_cap m) key 0)"
  by (simp add: pathmap_slot_def Let_def probe_def home_def and_mask_mod)

lemma slot_loop_stops:
  assumes "cap = 2 ^ e"
    and "\<forall>x < d. keys ! probe cap key (b + x) \<noteq> None \<and> keys ! probe cap key (b + x) \<noteq> Some key"
    and "keys ! probe cap key (b + d) = None \<or> keys ! probe cap key (b + d) = Some key"
  shows "slot_loop keys (2 ^ e - 1) key (probe cap key b) = Some (probe cap key (b + d))"
  using assms(2,3)
proof (induction d arbitrary: b)
  case 0
  then show ?case by (subst slot_loop.simps) auto
next
  case (Suc d)
  have "slot_loop keys (2 ^ e - 1) key (probe cap key (Suc b)) = Some (probe cap key (Suc b + d))"
    using Suc.prems by (intro Suc.IH) auto
  moreover have "keys ! probe cap key b \<noteq> None" "keys ! probe cap key b \<noteq> Some key"
    using Suc.prems(1) by (auto dest: spec [of _ 0])
  moreover have "(probe cap key b + 1) AND (2 ^ e - 1) = probe cap key (Suc b)"
    using probe_Suc [of cap key b] assms(1) by (simp add: and_mask_mod)
  ultimately show ?case by (subst slot_loop.simps) auto
qed

lemma pm_wf_free:
  assumes "pm_wf m"
  shows "\<exists>i < pm_cap m. pm_keys m ! i = None"
proof (rule ccontr)
  assume "\<not> ?thesis"
  then have "\<forall>k \<in> set (pm_keys m). k \<noteq> None"
    using assms by (auto simp: in_set_conv_nth)
  then have "filter (\<lambda>k. k \<noteq> None) (pm_keys m) = pm_keys m"
    by (simp add: filter_id_conv)
  then have "pm_n m = pm_cap m" using assms pm_wf_n by simp
  then show False using pm_wf_room [OF assms] by simp
qed

text \<open>The probe of a well-formed table always ends, at the first slot that is free or matches.\<close>

lemma pm_slot_ends:
  assumes "pm_wf m"
  obtains d where "d < pm_cap m" "pathmap_slot m key = Some (probe (pm_cap m) key d)"
    "pm_keys m ! probe (pm_cap m) key d = None \<or> pm_keys m ! probe (pm_cap m) key d = Some key"
    "\<forall>x < d. pm_keys m ! probe (pm_cap m) key x \<noteq> None \<and> pm_keys m ! probe (pm_cap m) key x \<noteq> Some key"
proof -
  let ?P = "\<lambda>d. pm_keys m ! probe (pm_cap m) key d = None \<or> pm_keys m ! probe (pm_cap m) key d = Some key"
  obtain e where e: "pm_cap m = 2 ^ e" using pm_wf_pow2 [OF assms] by blast
  obtain i where i: "i < pm_cap m" "pm_keys m ! i = None" using pm_wf_free [OF assms] by blast
  obtain d0 where "d0 < pm_cap m" "probe (pm_cap m) key d0 = i" using probe_surj [OF i(1)] by blast
  then have d0: "d0 < pm_cap m" "?P d0" using i(2) by simp_all
  define d where "d = (LEAST d. ?P d)"
  have stop: "?P d" unfolding d_def by (rule LeastI) (rule d0(2))
  have le: "d \<le> d0" unfolding d_def by (rule Least_le) (rule d0(2))
  have before: "\<forall>x < d. pm_keys m ! probe (pm_cap m) key x \<noteq> None \<and> pm_keys m ! probe (pm_cap m) key x \<noteq> Some key"
    unfolding d_def by (intro allI impI) (drule not_less_Least, simp only: de_Morgan_disj not_False_eq_True)
  have "slot_loop (pm_keys m) (2 ^ e - 1) key (probe (pm_cap m) key 0) =
      Some (probe (pm_cap m) key (0 + d))"
    by (rule slot_loop_stops [OF e]) (unfold add_0, rule before, rule stop)
  then have slot: "pathmap_slot m key = Some (probe (pm_cap m) key d)"
    by (simp only: pm_slot_start [OF e] add_0)
  show ?thesis
    by (rule that [OF _ slot stop before]) (use le d0(1) in simp)
qed

lemma pm_slot_found:
  assumes "pm_wf m" "i < pm_cap m" "pm_keys m ! i = Some key"
  shows "pathmap_slot m key = Some i"
proof -
  obtain d where d: "d < pm_cap m" "pathmap_slot m key = Some (probe (pm_cap m) key d)"
      "pm_keys m ! probe (pm_cap m) key d = None \<or> pm_keys m ! probe (pm_cap m) key d = Some key"
      "\<forall>x < d. pm_keys m ! probe (pm_cap m) key x \<noteq> None \<and> pm_keys m ! probe (pm_cap m) key x \<noteq> Some key"
    using pm_slot_ends [OF assms(1)] by blast
  obtain d' where d': "d' < pm_cap m" "probe (pm_cap m) key d' = i"
      "\<forall>e < d'. pm_keys m ! probe (pm_cap m) key e \<noteq> None"
    using pm_wf_reach [OF assms] by blast
  have "\<not> d' < d" using d(4) d'(2) assms(3) by auto
  moreover have "d < d' \<Longrightarrow> pm_keys m ! probe (pm_cap m) key d = Some key" using d(3) d'(3) by auto
  ultimately have "pm_keys m ! probe (pm_cap m) key d = Some key"
    using d'(2) assms(3) by (cases "d = d'") auto
  moreover have "probe (pm_cap m) key d < pm_cap m" using assms(2) by (intro probe_lt) simp
  ultimately have "probe (pm_cap m) key d = i"
    using pm_wf_uniq [OF assms(1) _ assms(2) _ assms(3)] by blast
  then show ?thesis using d(2) by simp
qed

subsection \<open>Insertion and growth\<close>

lemma pm_map_Some:
  assumes "pm_wf m"
  shows "pm_map m k = Some v \<longleftrightarrow> (\<exists>i < pm_cap m. pm_keys m ! i = Some k \<and> pm_vals m ! i = v)"
proof
  assume "pm_map m k = Some v"
  then have "(Some k, v) \<in> set (zip (pm_keys m) (pm_vals m))"
    unfolding pm_map_def by (rule map_of_SomeD)
  then show "\<exists>i < pm_cap m. pm_keys m ! i = Some k \<and> pm_vals m ! i = v"
    using assms by (auto simp: set_zip)
next
  assume "\<exists>i < pm_cap m. pm_keys m ! i = Some k \<and> pm_vals m ! i = v"
  then obtain i where i: "i < pm_cap m" "pm_keys m ! i = Some k" "pm_vals m ! i = v" by blast
  then have "(Some k, v) \<in> set (zip (pm_keys m) (pm_vals m))"
    using assms unfolding set_zip by (force intro: exI [of _ i])
  then obtain w where w: "pm_map m k = Some w"
    unfolding pm_map_def by (metis map_of_eq_None_iff not_None_eq fst_conv image_eqI)
  then have "(Some k, w) \<in> set (zip (pm_keys m) (pm_vals m))"
    unfolding pm_map_def by (rule map_of_SomeD)
  then obtain j where "j < pm_cap m" "pm_keys m ! j = Some k" "pm_vals m ! j = w"
    using assms by (auto simp: set_zip)
  moreover have "j = i" using pm_wf_uniq [OF assms] calculation i by blast
  ultimately show "pm_map m k = Some v" using w i by simp
qed

lemma pm_map_updI:
  assumes "pm_wf m" "pm_wf m'" "pm_cap m' = pm_cap m"
    and "i < pm_cap m" "pm_keys m' ! i = Some k" "pm_vals m' ! i = v"
    and "\<And>j. j < pm_cap m \<Longrightarrow> j \<noteq> i \<Longrightarrow> pm_keys m' ! j = pm_keys m ! j \<and> pm_vals m' ! j = pm_vals m ! j"
    and "pm_keys m ! i = None \<or> pm_keys m ! i = Some k"
  shows "pm_map m' = (pm_map m)(k \<mapsto> v)"
proof
  fix q
  show "pm_map m' q = ((pm_map m)(k \<mapsto> v)) q"
  proof (cases "q = k")
    case True
    then show ?thesis using pm_map_Some [OF assms(2), of k v] assms(3-6) by auto
  next
    case False
    have "pm_keys m' ! j = Some q \<and> pm_vals m' ! j = w \<longleftrightarrow> pm_keys m ! j = Some q \<and> pm_vals m ! j = w"
      if "j < pm_cap m" for j w
      using False assms(5,8) assms(7) [OF that] by (cases "j = i") auto
    then have "pm_map m' q = Some w \<longleftrightarrow> pm_map m q = Some w" for w
      unfolding pm_map_Some [OF assms(1)] pm_map_Some [OF assms(2)] assms(3) by blast
    then show ?thesis using False by (metis fun_upd_other not_None_eq)
  qed
qed

lemma pm_map_absent:
  assumes "pm_wf m" "pathmap_slot m k = Some i" "pm_keys m ! i = None"
  shows "pm_map m k = None"
proof (rule ccontr)
  assume "pm_map m k \<noteq> None"
  then obtain j where "j < pm_cap m" "pm_keys m ! j = Some k"
    using pm_map_Some [OF assms(1)] by (metis not_None_eq)
  then show False using pm_slot_found [OF assms(1)] assms(2,3) by simp
qed

lemma filter_update_fresh:
  "i < length xs \<Longrightarrow> xs ! i = None \<Longrightarrow>
     length (filter (\<lambda>k. k \<noteq> None) (xs[i := Some k])) = Suc (length (filter (\<lambda>k. k \<noteq> None) xs))"
  by (induction xs arbitrary: i) (auto split: nat.split)

text \<open>The write into a free slot that \<open>rehash\<close> and \<open>pathmap_set\<close> share.\<close>

definition pm_put :: "pathmap \<Rightarrow> nat \<Rightarrow> path \<Rightarrow> nat \<Rightarrow> pathmap" where
  "pm_put m i k v = m\<lparr>pm_keys := (pm_keys m)[i := Some k], pm_vals := (pm_vals m)[i := v],
                      pm_n := pm_n m + 1\<rparr>"

lemma pm_put_sel [simp]:
  "pm_keys (pm_put m i k v) = (pm_keys m)[i := Some k]"
  "pm_vals (pm_put m i k v) = (pm_vals m)[i := v]"
  "pm_cap (pm_put m i k v) = pm_cap m" "pm_n (pm_put m i k v) = pm_n m + 1"
  by (simp_all add: pm_put_def)

lemma pm_put_reach:
  assumes "pm_wf m" "pm_keys m ! i = None" "i = probe (pm_cap m) k d" "d < pm_cap m"
    "\<forall>x < d. pm_keys m ! probe (pm_cap m) k x \<noteq> None"
    and j: "j < pm_cap m" "pm_keys (pm_put m i k v) ! j = Some q"
  shows "\<exists>d < pm_cap m. probe (pm_cap m) q d = j \<and>
           (\<forall>e < d. pm_keys (pm_put m i k v) ! probe (pm_cap m) q e \<noteq> None)"
proof -
  have i: "i < length (pm_keys m)" "length (pm_keys m) = pm_cap m"
    using assms(1,3,4) probe_lt [of "pm_cap m" k d] by auto
  have keep: "pm_keys m ! x \<noteq> None \<Longrightarrow> pm_keys (pm_put m i k v) ! x \<noteq> None" for x
    using i by (cases "x = i") auto
  show ?thesis
  proof (cases "j = i")
    case True
    then have "q = k" using j i by simp
    then show ?thesis using assms(3-5) True keep by blast
  next
    case False
    then have "pm_keys m ! j = Some q" using j i by simp
    then show ?thesis using pm_wf_reach [OF assms(1) j(1)] keep by blast
  qed
qed

lemma pm_put_wf:
  assumes "pm_wf m" "pathmap_slot m k = Some i" "pm_keys m ! i = None" "pm_n m + 1 < pm_cap m"
  shows "pm_wf (pm_put m i k v)" "pm_map (pm_put m i k v) = (pm_map m)(k \<mapsto> v)"
proof -
  obtain d where d: "d < pm_cap m" "i = probe (pm_cap m) k d"
      "\<forall>x < d. pm_keys m ! probe (pm_cap m) k x \<noteq> None"
    using pm_slot_ends [OF assms(1), of k] assms(2) by (metis option.inject)
  have i: "i < pm_cap m" using d probe_lt by simp
  have len: "length (pm_keys m) = pm_cap m" "length (pm_vals m) = pm_cap m"
    using assms(1) by auto
  have new: "pm_keys m ! j \<noteq> Some k" if "j < pm_cap m" for j
    using pm_slot_found [OF assms(1) that] assms(2,3) by auto
  have uniq: "x = y" if "x < pm_cap m" "y < pm_cap m"
    "pm_keys (pm_put m i k v) ! x = pm_keys (pm_put m i k v) ! y"
    "pm_keys (pm_put m i k v) ! x \<noteq> None" for x y
  proof -
    have "pm_keys m ! x = pm_keys m ! y \<Longrightarrow> pm_keys m ! x \<noteq> None \<Longrightarrow> x = y"
      using pm_wf_uniq [OF assms(1) that(1,2)] by auto
    then show ?thesis using that new [of x] new [of y] len i by (auto simp: nth_list_update split: if_splits)
  qed
  show wf: "pm_wf (pm_put m i k v)"
    unfolding pm_wf_def
  proof (intro conjI allI impI)
    show "\<exists>e. pm_cap (pm_put m i k v) = 2 ^ e" using pm_wf_pow2 [OF assms(1)] by simp
    show "pm_n (pm_put m i k v) = length (filter (\<lambda>k. k \<noteq> None) (pm_keys (pm_put m i k v)))"
      using assms(3) i len pm_wf_n [OF assms(1)] by (simp only: pm_put_sel filter_update_fresh)
  next
    fix j q assume "j < pm_cap (pm_put m i k v)" "pm_keys (pm_put m i k v) ! j = Some q"
    then show "\<exists>d < pm_cap (pm_put m i k v). probe (pm_cap (pm_put m i k v)) q d = j \<and>
           (\<forall>e < d. pm_keys (pm_put m i k v) ! probe (pm_cap (pm_put m i k v)) q e \<noteq> None)"
      using pm_put_reach [OF assms(1,3) d(2,1,3)] by (simp only: pm_put_sel)
  next
    fix x y assume "x < pm_cap (pm_put m i k v)" "y < pm_cap (pm_put m i k v)"
      "pm_keys (pm_put m i k v) ! x = pm_keys (pm_put m i k v) ! y" "pm_keys (pm_put m i k v) ! x \<noteq> None"
    then show "x = y" by (intro uniq) simp_all
  qed (use len assms(4) in simp_all)
  show "pm_map (pm_put m i k v) = (pm_map m)(k \<mapsto> v)"
    using i len assms(3) by (intro pm_map_updI [OF assms(1) wf _ i]) auto
qed

lemma pm_overwrite_wf:
  assumes "pm_wf m" "i < pm_cap m" "pm_keys m ! i = Some k"
  shows "pm_wf (m\<lparr>pm_vals := (pm_vals m)[i := v]\<rparr>)"
    "pm_map (m\<lparr>pm_vals := (pm_vals m)[i := v]\<rparr>) = (pm_map m)(k \<mapsto> v)"
proof -
  let ?m = "m\<lparr>pm_vals := (pm_vals m)[i := v]\<rparr>"
  have sel: "pm_cap ?m = pm_cap m" "pm_keys ?m = pm_keys m" "pm_n ?m = pm_n m"
      "pm_vals ?m = (pm_vals m)[i := v]" by simp_all
  show wf: "pm_wf ?m" using assms(1) unfolding pm_wf_def sel length_list_update .
  have len: "length (pm_vals m) = pm_cap m" using assms(1) by simp
  show "pm_map ?m = (pm_map m)(k \<mapsto> v)"
    using assms(2,3) len by (intro pm_map_updI [OF assms(1) wf _ assms(2)]) auto
qed

lemma rehash_correct:
  assumes "pm_wf b" "pm_n b + length (filter (\<lambda>k. k \<noteq> None) (map fst slots)) < pm_cap b"
    and "distinct (filter (\<lambda>k. k \<noteq> None) (map fst slots))"
    and "\<forall>k. Some k \<in> fst ` set slots \<longrightarrow> pm_map b k = None"
  shows "\<exists>b'. rehash slots b = Some b' \<and> pm_wf b' \<and> pm_cap b' = pm_cap b \<and>
           pm_n b' = pm_n b + length (filter (\<lambda>k. k \<noteq> None) (map fst slots)) \<and>
           pm_map b' = pm_map b ++ (\<lambda>k. map_of slots (Some k))"
  using assms
proof (induction slots b rule: rehash.induct)
  case (1 b)
  then show ?case by (auto simp: map_add_def)
next
  case (2 v slots b)
  then show ?case by (simp add: map_add_def)
next
  case (3 k v slots b)
  obtain j where j: "pathmap_slot b k = Some j" "j < pm_cap b"
      "pm_keys b ! j = None \<or> pm_keys b ! j = Some k"
    using pm_slot_ends [OF 3(2), of k] probe_lt by (metis gr_zeroI less_zeroE)
  moreover have "pm_map b k = None" using 3(5) by simp
  ultimately have free: "pm_keys b ! j = None"
    using pm_map_Some [OF 3(2), of k] by auto
  have step: "rehash ((Some k, v) # slots) b = rehash slots (pm_put b j k v)"
    using j(1) by (simp add: pm_put_def)
  note put = pm_put_wf [OF 3(2) j(1) free, of v]
  have "\<exists>b'. rehash slots (pm_put b j k v) = Some b' \<and> pm_wf b' \<and> pm_cap b' = pm_cap (pm_put b j k v) \<and>
           pm_n b' = pm_n (pm_put b j k v) + length (filter (\<lambda>k. k \<noteq> None) (map fst slots)) \<and>
           pm_map b' = pm_map (pm_put b j k v) ++ (\<lambda>k. map_of slots (Some k))"
    unfolding pm_put_def
  proof (rule 3(1) [OF j(1)], fold pm_put_def)
    show "\<forall>q. Some q \<in> fst ` set slots \<longrightarrow> pm_map (pm_put b j k v) q = None"
      using 3(3-5) put by auto
  qed (use 3(3,4) put in auto)
  moreover have "pm_map (pm_put b j k v) ++ (\<lambda>k. map_of slots (Some k)) =
      pm_map b ++ (\<lambda>q. map_of ((Some k, v) # slots) (Some q))"
  proof -
    have "map_of slots (Some k) = None" using 3(4) by (auto simp: map_of_eq_None_iff)
    then show ?thesis using put(2) 3(3) by (auto simp: map_add_def fun_eq_iff split: option.split)
  qed
  ultimately show ?case unfolding step by auto
qed

lemma pm_wf_empty_table:
  "0 < e \<Longrightarrow> pm_wf \<lparr>pm_keys = replicate (2 ^ e) None, pm_vals = replicate (2 ^ e) 0, pm_cap = 2 ^ e, pm_n = 0\<rparr>"
  "pm_map \<lparr>pm_keys = replicate (2 ^ e) None, pm_vals = replicate (2 ^ e) 0, pm_cap = 2 ^ e, pm_n = 0\<rparr> = Map.empty"
  by (auto simp: pm_wf_def pm_map_def fun_eq_iff map_of_eq_None_iff dest: set_zip_leftD)

lemma distinct_filter_nth:
  assumes "\<And>i j. i < length xs \<Longrightarrow> j < length xs \<Longrightarrow> xs ! i = xs ! j \<Longrightarrow> P (xs ! i) \<Longrightarrow> i = j"
  shows "distinct (filter P xs)"
  using assms
proof (induction xs)
  case (Cons x xs)
  have "distinct (filter P xs)"
  proof (rule Cons.IH)
    fix i j assume "i < length xs" "j < length xs" "xs ! i = xs ! j" "P (xs ! i)"
    then show "i = j" using Cons.prems [of "Suc i" "Suc j"] by simp
  qed
  moreover have "x \<notin> set xs" if "P x"
  proof
    assume "x \<in> set xs"
    then obtain j where "j < length xs" "xs ! j = x" by (auto simp: in_set_conv_nth)
    then show False using Cons.prems [of 0 "Suc j"] that by simp
  qed
  ultimately show ?case by simp
qed simp

lemma pm_keys_distinct:
  assumes "pm_wf m"
  shows "distinct (filter (\<lambda>k. k \<noteq> None) (pm_keys m))"
  by (rule distinct_filter_nth) (use pm_wf_uniq [OF assms] assms in auto)

lemma pathmap_grow_correct:
  assumes "pm_invar m"
  obtains m' where "pathmap_grow m = Some m'" "pm_wf m'" "pm_map m' = pm_map m"
    "pm_cap m' = (if pm_cap m = 0 then 16 else pm_cap m * 2)" "pm_n m' = pm_n m"
proof -
  let ?cap = "if pm_cap m = 0 then 16 else pm_cap m * 2"
  let ?b = "\<lparr>pm_keys = replicate ?cap None, pm_vals = replicate ?cap 0, pm_cap = ?cap, pm_n = 0\<rparr> :: pathmap"
  have cases: "m = pathmap_empty \<or> pm_wf m" using assms by (auto simp: pm_invar_def)
  have "\<exists>e. ?cap = 2 ^ e \<and> 0 < e"
  proof (cases "pm_cap m = 0")
    case True
    then show ?thesis by (intro exI [of _ 4]) simp
  next
    case False
    then obtain e where "pm_cap m = 2 ^ e" using cases pm_wf_pow2 by (auto simp: pathmap_empty_def)
    then show ?thesis using False by (intro exI [of _ "Suc e"]) simp
  qed
  then obtain e where e: "?cap = 2 ^ e" "0 < e" by blast
  have b: "pm_wf ?b" "pm_map ?b = Map.empty"
    using pm_wf_empty_table [of e] e by simp_all
  have keys: "map fst (zip (pm_keys m) (pm_vals m)) = pm_keys m"
    using cases by (auto simp: pathmap_empty_def)
  have n: "length (filter (\<lambda>k. k \<noteq> None) (pm_keys m)) = pm_n m"
    using cases pm_wf_n by (auto simp: pathmap_empty_def)
  have room: "pm_n m < ?cap"
    using cases pm_wf_room [of m] by (auto simp: pathmap_empty_def)
  have dist: "distinct (filter (\<lambda>k. k \<noteq> None) (pm_keys m))"
    using cases pm_keys_distinct by (auto simp: pathmap_empty_def)
  have "\<exists>b'. rehash (zip (pm_keys m) (pm_vals m)) ?b = Some b' \<and> pm_wf b' \<and> pm_cap b' = pm_cap ?b \<and>
           pm_n b' = pm_n ?b + length (filter (\<lambda>k. k \<noteq> None) (map fst (zip (pm_keys m) (pm_vals m)))) \<and>
           pm_map b' = pm_map ?b ++ (\<lambda>k. map_of (zip (pm_keys m) (pm_vals m)) (Some k))"
    by (rule rehash_correct) (use b dist room n in \<open>simp_all only: keys pathmap.simps\<close>, simp)
  then obtain b' where "rehash (zip (pm_keys m) (pm_vals m)) ?b = Some b'" "pm_wf b'"
      "pm_cap b' = ?cap" "pm_n b' = pm_n m" "pm_map b' = pm_map m"
    unfolding b(2) keys n by (auto simp: pm_map_def [abs_def] fun_eq_iff)
  then show ?thesis using that [of b'] by (simp add: pathmap_grow_def)
qed

subsection \<open>Lookup and update\<close>

lemma pathmap_find_lookup:
  assumes "pm_invar m"
  shows "pathmap_find m k = Some (pm_map m k)"
proof (cases "m = pathmap_empty")
  case True
  then show ?thesis by (simp add: pathmap_find_def pathmap_empty_def pm_map_def)
next
  case False
  then have wf: "pm_wf m" and cap: "pm_cap m \<noteq> 0" using assms by (auto simp: pm_invar_def)
  obtain i where i: "pathmap_slot m k = Some i" "i < pm_cap m"
      "pm_keys m ! i = None \<or> pm_keys m ! i = Some k"
    using pm_slot_ends [OF wf, of k] probe_lt cap by (metis gr_zeroI)
  then show ?thesis
    using pm_map_absent [OF wf i(1)] pm_map_Some [OF wf, of k "pm_vals m ! i"] cap
    by (auto simp: pathmap_find_def)
qed

lemma pm_store:
  assumes "pm_wf m" "pm_n m + 1 < pm_cap m"
  shows "\<exists>m'. Option.bind (pathmap_slot m key) (\<lambda>i.
          let m = (if pm_keys m ! i = None
                   then m\<lparr>pm_keys := (pm_keys m)[i := Some key], pm_n := pm_n m + 1\<rparr> else m)
          in Some (m\<lparr>pm_vals := (pm_vals m)[i := index]\<rparr>)) = Some m' \<and>
        pm_wf m' \<and> pm_map m' = (pm_map m)(key \<mapsto> index) \<and> pm_cap m' = pm_cap m \<and> pm_n m' \<le> pm_n m + 1"
proof -
  obtain i where i: "pathmap_slot m key = Some i" "i < pm_cap m"
      "pm_keys m ! i = None \<or> pm_keys m ! i = Some key"
    using pm_slot_ends [OF assms(1), of key] probe_lt assms(2) by (metis gr_zeroI less_zeroE)
  show ?thesis
  proof (cases "pm_keys m ! i = None")
    case True
    then show ?thesis
      using i(1) pm_put_wf [OF assms(1) i(1) True assms(2), of index]
      by (intro exI [of _ "pm_put m i key index"]) (simp add: pm_put_def)
  next
    case False
    then have k: "pm_keys m ! i = Some key" using i(3) by auto
    then show ?thesis
      using i(1) pm_overwrite_wf [OF assms(1) i(2) k, of index]
      by (intro exI [of _ "m\<lparr>pm_vals := (pm_vals m)[i := index]\<rparr>"]) simp
  qed
qed

lemma pathmap_set_update:
  assumes "pm_invar m"
  shows "\<exists>m'. pathmap_set m key index = Some m' \<and> pm_invar m' \<and> pm_map m' = (pm_map m)(key \<mapsto> index)"
proof (cases "pm_cap m = 0 \<or> (pm_n m + 1) * 10 \<ge> pm_cap m * 7")
  case True
  obtain g where g: "pathmap_grow m = Some g" "pm_wf g" "pm_map g = pm_map m"
      "pm_cap g = (if pm_cap m = 0 then 16 else pm_cap m * 2)" "pm_n g = pm_n m"
    using pathmap_grow_correct [OF assms] .
  have "16 \<le> pm_cap g" "(pm_n g + 1) * 10 < pm_cap g * 7"
    using assms g(4,5) by (auto simp: pm_invar_def pathmap_empty_def)
  then show ?thesis
    using pm_store [OF g(2), of key index] g(1,3) True by (auto simp: pathmap_set_def pm_invar_def)
next
  case False
  then have "pm_wf m" "16 \<le> pm_cap m" using assms by (auto simp: pm_invar_def pathmap_empty_def)
  then show ?thesis
    using pm_store [of m key index] False by (auto simp: pathmap_set_def pm_invar_def)
qed

subsection \<open>The interface of a path map\<close>

text \<open>
  What the clients rely on: \<open>find\<close> and \<open>set\<close> return (the \<open>option\<close> of the result is
  \<open>None\<close> for a probe that never ends) and behave as a partial function. The clients keep a
  growing array next to the map and store in the map, for each path, its index in the array;
  \<open>indexed m ks\<close> says that the map is the index of an array whose paths are \<open>ks\<close>.
\<close>

locale path_map =
  fixes invar :: "'m \<Rightarrow> bool"
    and lookup :: "'m \<Rightarrow> 'k \<Rightarrow> nat option"
    and empty_map :: 'm
    and find_key :: "'m \<Rightarrow> 'k \<Rightarrow> nat option option"
    and set_key :: "'m \<Rightarrow> 'k \<Rightarrow> nat \<Rightarrow> 'm option"
  assumes empty_invar: "invar empty_map"
    and empty_lookup: "lookup empty_map = Map.empty"
    and find_lookup: "invar m \<Longrightarrow> find_key m k = Some (lookup m k)"
    and set_update: "invar m \<Longrightarrow> \<exists>m'. set_key m k i = Some m' \<and> invar m' \<and> lookup m' = (lookup m)(k \<mapsto> i)"
begin

fun sets :: "'m \<Rightarrow> ('k \<times> nat) list \<Rightarrow> 'm option" where
  "sets m [] = Some m"
| "sets m ((k, i) # ops) = Option.bind (set_key m k i) (\<lambda>m. sets m ops)"

lemma sets_lookup:
  "invar m \<Longrightarrow> \<exists>m'. sets m ops = Some m' \<and> invar m' \<and> lookup m' = lookup m ++ map_of (rev ops)"
proof (induction ops arbitrary: m)
  case (Cons op ops)
  obtain k i where op: "op = (k, i)" by (cases op)
  obtain m1 where m1: "set_key m k i = Some m1" "invar m1" "lookup m1 = (lookup m)(k \<mapsto> i)"
    using set_update [OF Cons.prems] by blast
  show ?case using Cons.IH [OF m1(2)] m1 by (auto simp: op simp del: fun_upd_apply)
qed simp

lemma sets_find: "\<exists>m. sets empty_map ops = Some m \<and> (\<forall>k. find_key m k = Some (map_of (rev ops) k))"
  using sets_lookup [OF empty_invar, of ops] find_lookup empty_lookup by fastforce

definition indexed :: "'m \<Rightarrow> 'k list \<Rightarrow> bool" where
  "indexed m ks \<longleftrightarrow> invar m \<and> distinct ks \<and> lookup m = map_of (zip ks [0..<length ks])"

lemma indexed_distinct: "indexed m ks \<Longrightarrow> distinct ks"
  by (simp add: indexed_def)

lemma indexed_empty: "indexed empty_map []"
  by (simp add: indexed_def empty_invar empty_lookup)

lemma indexed_find_new: "indexed m ks \<Longrightarrow> k \<notin> set ks \<Longrightarrow> find_key m k = Some None"
  by (simp add: indexed_def find_lookup)

lemma indexed_find_nth:
  assumes "indexed m ks" "i < length ks"
  shows "find_key m (ks ! i) = Some (Some i)"
  using assms map_of_zip_nth [of ks "[0..<length ks]" i] by (simp add: indexed_def find_lookup)

lemma indexed_find_cases:
  assumes "indexed m ks"
  obtains "k \<notin> set ks" "find_key m k = Some None"
  | i where "i < length ks" "ks ! i = k" "find_key m k = Some (Some i)"
  using indexed_find_new [OF assms, of k] indexed_find_nth [OF assms] by (metis in_set_conv_nth)

lemma indexed_append:
  assumes "indexed m ks" "k \<notin> set ks"
  obtains m' where "set_key m k (length ks) = Some m'" "indexed m' (ks @ [k])"
proof -
  obtain m' where m': "set_key m k (length ks) = Some m'" "invar m'"
      "lookup m' = (lookup m)(k \<mapsto> length ks)"
    using set_update assms(1) unfolding indexed_def by blast
  have "map_of (zip ks [0..<length ks] @ [(k, length ks)]) =
      (map_of (zip ks [0..<length ks]))(k \<mapsto> length ks)"
    using assms(2) map_add_upd_left [of k "map_of (zip ks [0..<length ks])" Map.empty "length ks"] by simp
  then have "indexed m' (ks @ [k])"
    using assms m' by (simp add: indexed_def)
  then show ?thesis using that m'(1) by blast
qed

end

interpretation pm: path_map pm_invar pm_map pathmap_empty pathmap_find pathmap_set
proof
  show "pm_invar pathmap_empty" by (simp add: pm_invar_def)
  show "pm_map pathmap_empty = Map.empty" by (simp add: pm_map_def pathmap_empty_def fun_eq_iff)
qed (rule pathmap_find_lookup pathmap_set_update; assumption)+

fun pathmap_sets :: "pathmap \<Rightarrow> (path \<times> nat) list \<Rightarrow> pathmap option" where
  "pathmap_sets m [] = Some m"
| "pathmap_sets m ((k, i) # ops) = Option.bind (pathmap_set m k i) (\<lambda>m. pathmap_sets m ops)"

lemma pathmap_sets_eq: "pathmap_sets m ops = pm.sets m ops"
  by (induction ops arbitrary: m) (auto split: prod.split)

text \<open>
  (C11) From an empty table, any sequence of \<open>pathmap_set\<close> calls returns (growth and every probe
  loop end), and afterwards \<open>pathmap_find\<close> of any path returns the index given by the last
  \<open>pathmap_set\<close> for that path, and "not found" for a path never set.
\<close>

theorem pathmap_find_last_set:
  "\<exists>m. pathmap_sets pathmap_empty ops = Some m \<and> (\<forall>k. pathmap_find m k = Some (map_of (rev ops) k))"
  unfolding pathmap_sets_eq by (rule pm.sets_find)

end
