(* ===== verification/VS_TypeCache.thy ===== *)
theory VS_TypeCache
  imports VS_Pathmap
begin

text \<open>
  The per-path cache of datatype encodings. A \<open>DsetWrite\<close> entry whose encoding is the one
  last sent for its path omits it; replay resolves the omission from a mirror of the cache.
  \<open>type_cache\<close> is the array, its capacity and its path map, three members of
  \<open>H5VL_stream_file_state_t\<close> that occur twice there (\<open>write_type_*\<close> and
  \<open>replay_type_*\<close>). Results are \<open>None\<close> when a probe of the path map never ends.
\<close>

record type_cache_entry =
  tc_path :: path
  tc_enc :: "byte list"

record type_cache =
  tc_arr :: "type_cache_entry list"
  tc_cap :: nat
  tc_map :: pathmap

definition type_cache_empty :: type_cache where
  "type_cache_empty = \<lparr>tc_arr = [], tc_cap = 0, tc_map = pathmap_empty\<rparr>"

definition type_cache_lookup :: "type_cache \<Rightarrow> path \<Rightarrow> byte list option option" where
  "type_cache_lookup c p =
     Option.bind (pathmap_find (tc_map c) p) (\<lambda>r.
       Some (case r of None \<Rightarrow> None | Some i \<Rightarrow> Some (tc_enc (tc_arr c ! i))))"

definition type_cache_upsert :: "type_cache \<Rightarrow> path \<Rightarrow> byte list \<Rightarrow> type_cache option" where
  "type_cache_upsert c p enc =
     Option.bind (pathmap_find (tc_map c) p) (\<lambda>r.
       case r of
         Some i \<Rightarrow> Some (c\<lparr>tc_arr := (tc_arr c)[i := (tc_arr c ! i)\<lparr>tc_enc := enc\<rparr>]\<rparr>)
       | None \<Rightarrow>
           (let n = length (tc_arr c);
                cap = (if n = tc_cap c then (if tc_cap c = 0 then 8 else tc_cap c * 2) else tc_cap c)
            in Option.bind (pathmap_set (tc_map c) p n) (\<lambda>m.
                 Some \<lparr>tc_arr = tc_arr c @ [\<lparr>tc_path = p, tc_enc = enc\<rparr>], tc_cap = cap, tc_map = m\<rparr>)))"

definition type_cache_clear :: "type_cache \<Rightarrow> type_cache" where
  "type_cache_clear c = c\<lparr>tc_arr := []\<rparr>"

definition tc_ok :: "type_cache \<Rightarrow> bool" where
  "tc_ok c \<longleftrightarrow> pm.indexed (tc_map c) (map tc_path (tc_arr c)) \<and> length (tc_arr c) \<le> tc_cap c"

definition tc_abs :: "type_cache \<Rightarrow> path \<Rightarrow> byte list option" where
  "tc_abs c = map_of (map (\<lambda>e. (tc_path e, tc_enc e)) (tc_arr c))"

lemma tc_abs_nth:
  assumes "distinct (map tc_path (tc_arr c))" "i < length (tc_arr c)"
  shows "tc_abs c (tc_path (tc_arr c ! i)) = Some (tc_enc (tc_arr c ! i))"
proof -
  have "(tc_path (tc_arr c ! i), tc_enc (tc_arr c ! i)) \<in> set (map (\<lambda>e. (tc_path e, tc_enc e)) (tc_arr c))"
    using assms(2) by (auto simp: in_set_conv_nth intro!: exI [of _ i])
  then show ?thesis unfolding tc_abs_def using assms(1) by (intro map_of_is_SomeI) (simp_all add: comp_def)
qed

lemma tc_abs_None: "tc_abs c p = None \<longleftrightarrow> p \<notin> set (map tc_path (tc_arr c))"
  by (auto simp: tc_abs_def map_of_eq_None_iff image_iff)

lemma type_cache_lookup_abs:
  assumes "tc_ok c"
  shows "type_cache_lookup c p = Some (tc_abs c p)"
proof -
  have idx: "pm.indexed (tc_map c) (map tc_path (tc_arr c))" using assms by (simp add: tc_ok_def)
  show ?thesis
  proof (rule pm.indexed_find_cases [OF idx, of p])
    assume "p \<notin> set (map tc_path (tc_arr c))" "pathmap_find (tc_map c) p = Some None"
    then show ?thesis using tc_abs_None [of c p] by (simp add: type_cache_lookup_def)
  next
    fix i assume "i < length (map tc_path (tc_arr c))" "map tc_path (tc_arr c) ! i = p"
      "pathmap_find (tc_map c) p = Some (Some i)"
    then show ?thesis
      using tc_abs_nth [of c i] pm.indexed_distinct [OF idx] by (simp add: type_cache_lookup_def)
  qed
qed

lemma map_of_list_update:
  assumes "distinct (map fst xs)" "i < length xs" "fst (xs ! i) = k"
  shows "map_of (xs[i := (k, v)]) = (map_of xs)(k \<mapsto> v)"
  using assms
proof (induction xs arbitrary: i)
  case (Cons x xs)
  obtain a b where x: "x = (a, b)" by (cases x)
  show ?case
  proof (cases i)
    case 0
    then show ?thesis using Cons.prems x by (auto simp: fun_eq_iff)
  next
    case (Suc j)
    then have "fst (xs ! j) = k" "j < length xs" using Cons.prems by simp_all
    moreover from this have "k \<in> fst ` set xs" by (auto simp: image_iff intro: nth_mem)
    ultimately show ?thesis using Cons Suc x by (auto simp: fun_eq_iff)
  qed
qed simp

lemma type_cache_upsert_abs:
  assumes "tc_ok c"
  shows "\<exists>c'. type_cache_upsert c p enc = Some c' \<and> tc_ok c' \<and> tc_abs c' = (tc_abs c)(p \<mapsto> enc)"
proof -
  have idx: "pm.indexed (tc_map c) (map tc_path (tc_arr c))" using assms by (simp add: tc_ok_def)
  note dist = pm.indexed_distinct [OF idx]
  show ?thesis
  proof (rule pm.indexed_find_cases [OF idx, of p])
    assume new: "p \<notin> set (map tc_path (tc_arr c))" "pathmap_find (tc_map c) p = Some None"
    obtain m where m: "pathmap_set (tc_map c) p (length (map tc_path (tc_arr c))) = Some m"
        "pm.indexed m (map tc_path (tc_arr c) @ [p])"
      using pm.indexed_append [OF idx new(1)] .
    let ?xs = "map (\<lambda>e. (tc_path e, tc_enc e)) (tc_arr c)"
    have "map_of (?xs @ [(p, enc)]) = (map_of ?xs)(p \<mapsto> enc)"
      using new(1) map_add_upd_left [of p "map_of ?xs" Map.empty enc] by (simp add: dom_map_of_conv_image_fst image_image)
    then show ?thesis using m new assms by (auto simp: type_cache_upsert_def tc_ok_def tc_abs_def Let_def)
  next
    fix i assume old: "i < length (map tc_path (tc_arr c))" "map tc_path (tc_arr c) ! i = p"
      "pathmap_find (tc_map c) p = Some (Some i)"
    let ?c = "c\<lparr>tc_arr := (tc_arr c)[i := (tc_arr c ! i)\<lparr>tc_enc := enc\<rparr>]\<rparr>"
    have "map tc_path (tc_arr ?c) = map tc_path (tc_arr c)"
      using old by (simp add: map_update list_update_same_conv)
    moreover have "tc_abs ?c = (tc_abs c)(p \<mapsto> enc)"
      unfolding tc_abs_def using old dist
      by (simp add: map_update map_of_list_update comp_def)
    ultimately show ?thesis using old assms by (simp add: type_cache_upsert_def tc_ok_def)
  qed
qed

lemma tc_ok_empty [simp]: "tc_ok type_cache_empty" "tc_abs type_cache_empty = Map.empty"
  by (simp_all add: tc_ok_def tc_abs_def type_cache_empty_def pm.indexed_empty)

subsection \<open>Dictionary coding over a cache\<close>

text \<open>
  The interface the manifest builder and the replayer share, and the law that makes the
  omission sound: if both sides start from the same contents and process the same sequence,
  every omitted encoding resolves to the one that was omitted. \<open>omit\<close> and \<open>resolve\<close> are
  one step of either side; \<open>[]\<close> on the wire is an omitted vector, and a datatype never has
  the empty encoding.
\<close>

locale type_dictionary =
  fixes ok :: "'c \<Rightarrow> bool"
    and contents :: "'c \<Rightarrow> 'k \<Rightarrow> 'v list option"
    and lookup :: "'c \<Rightarrow> 'k \<Rightarrow> 'v list option option"
    and upsert :: "'c \<Rightarrow> 'k \<Rightarrow> 'v list \<Rightarrow> 'c option"
  assumes lookup_contents: "ok c \<Longrightarrow> lookup c k = Some (contents c k)"
    and upsert_contents: "ok c \<Longrightarrow> \<exists>c'. upsert c k v = Some c' \<and> ok c' \<and> contents c' = (contents c)(k \<mapsto> v)"
begin

definition omit :: "'c \<Rightarrow> 'k \<Rightarrow> 'v list \<Rightarrow> ('c \<times> 'v list) option" where
  "omit c k v = Option.bind (lookup c k) (\<lambda>cached.
     if cached = Some v then Some (c, []) else Option.bind (upsert c k v) (\<lambda>c. Some (c, v)))"

definition resolve :: "'c \<Rightarrow> 'k \<Rightarrow> 'v list \<Rightarrow> ('c \<times> 'v list option) option" where
  "resolve c k w =
     (if w = [] then Option.bind (lookup c k) (\<lambda>v. Some (c, v))
      else Option.bind (upsert c k w) (\<lambda>c. Some (c, Some w)))"

lemma resolve_omit:
  assumes "ok c" "ok d" "contents c = contents d" "v \<noteq> []"
  shows "\<exists>c' d' w. omit c k v = Some (c', w) \<and> resolve d k w = Some (d', Some v) \<and>
           ok c' \<and> ok d' \<and> contents c' = contents d' \<and> contents c' = (contents c)(k \<mapsto> v)"
proof (cases "contents c k = Some v")
  case True
  then have "(contents c)(k \<mapsto> v) = contents c" by (simp add: fun_upd_idem)
  then show ?thesis
    using assms True lookup_contents [OF assms(1), of k] lookup_contents [OF assms(2), of k]
    by (auto simp: omit_def resolve_def)
next
  case False
  obtain c' d' where "upsert c k v = Some c'" "ok c'" "contents c' = (contents c)(k \<mapsto> v)"
      "upsert d k v = Some d'" "ok d'" "contents d' = (contents d)(k \<mapsto> v)"
    using upsert_contents [OF assms(1), of k v] upsert_contents [OF assms(2), of k v] by blast
  then show ?thesis
    using assms(3,4) False lookup_contents [OF assms(1), of k] by (simp add: omit_def resolve_def)
qed

end

interpretation tcd: type_dictionary tc_ok tc_abs type_cache_lookup type_cache_upsert
  by unfold_locales (rule type_cache_lookup_abs type_cache_upsert_abs; assumption)+

end
