(* ===== verification/VS_PathIndex.thy ===== *)
theory VS_PathIndex
  imports VS_Pathmap VS_Tables
begin

text \<open>
  The path index: for every logical path the physical steps that carry it, in the order they
  were added (\<open>H5VL_stream_path_steps_t\<close> and the functions on \<open>fs->path_index\<close> and
  \<open>fs->path_index_map\<close>). A writer fills it during replay, a reader from the manifests.
  Results are \<open>None\<close> when a probe of the path map never ends; allocation succeeds.
\<close>

record path_steps =
  ps_path :: path
  ps_steps :: "nat list"
  ps_is_link :: bool

record path_index =
  pi_arr :: "path_steps list"
  pi_map :: pathmap

definition path_index_empty :: path_index where
  "path_index_empty = \<lparr>pi_arr = [], pi_map = pathmap_empty\<rparr>"

definition path_index_add :: "path_index \<Rightarrow> path \<Rightarrow> nat \<Rightarrow> path_index option" where
  "path_index_add x p step =
     Option.bind (pathmap_find (pi_map x) p) (\<lambda>r.
       Option.bind
         (case r of
            Some idx \<Rightarrow> Some (x, idx)
          | None \<Rightarrow>
              (let idx = length (pi_arr x);
                   x1 = x\<lparr>pi_arr := pi_arr x @ [\<lparr>ps_path = p, ps_steps = [], ps_is_link = False\<rparr>]\<rparr>
               in Option.bind (pathmap_set (pi_map x1) p idx) (\<lambda>m. Some (x1\<lparr>pi_map := m\<rparr>, idx))))
         (\<lambda>(x, idx).
            let e = pi_arr x ! idx
            in Some (x\<lparr>pi_arr := (pi_arr x)[idx := e\<lparr>ps_steps := ps_steps e @ [step]\<rparr>]\<rparr>)))"

definition path_index_mark_link :: "path_index \<Rightarrow> path \<Rightarrow> path_index option" where
  "path_index_mark_link x p =
     Option.bind (pathmap_find (pi_map x) p) (\<lambda>r.
       Some (case r of
               None \<Rightarrow> x
             | Some idx \<Rightarrow> x\<lparr>pi_arr := (pi_arr x)[idx := (pi_arr x ! idx)\<lparr>ps_is_link := True\<rparr>]\<rparr>))"

text \<open>The inner loop of \<open>H5VL__stream_path_index_drop_step\<close>: trailing copies of \<open>n\<close> go.\<close>

definition drop_trailing :: "nat \<Rightarrow> nat list \<Rightarrow> nat list" where
  "drop_trailing n ss = rev (dropWhile (\<lambda>s. s = n) (rev ss))"

definition path_index_drop_step :: "path_index \<Rightarrow> nat \<Rightarrow> path_index" where
  "path_index_drop_step x n =
     x\<lparr>pi_arr := map (\<lambda>e. e\<lparr>ps_steps := drop_trailing n (ps_steps e)\<rparr>) (pi_arr x)\<rparr>"

text \<open>The scan \<open>for (j = n_steps; j-- > 0;)\<close> of the resolver.\<close>

fun resolve_scan :: "nat list \<Rightarrow> nat \<Rightarrow> nat \<Rightarrow> nat option" where
  "resolve_scan ss cur 0 = None"
| "resolve_scan ss cur (Suc j) = (if ss ! j \<le> cur then Some (ss ! j) else resolve_scan ss cur j)"

definition path_index_resolve :: "path_index \<Rightarrow> path \<Rightarrow> nat \<Rightarrow> nat option option" where
  "path_index_resolve x p current_step =
     Option.bind (pathmap_find (pi_map x) p) (\<lambda>r.
       Some (case r of
               None \<Rightarrow> None
             | Some i \<Rightarrow> resolve_scan (ps_steps (pi_arr x ! i)) current_step
                           (length (ps_steps (pi_arr x ! i)))))"

definition resolve_physical_path :: "path_index \<Rightarrow> nat \<Rightarrow> path option \<Rightarrow> path option option" where
  "resolve_physical_path x current_step logical_path =
     (case logical_path of
        None \<Rightarrow> Some None
      | Some p \<Rightarrow>
          if p = [] \<or> hd p \<noteq> slash then Some None
          else Option.bind (path_index_resolve x p current_step) (\<lambda>r.
                 Some (map_option (\<lambda>k. step_path k p) r)))"

subsection \<open>Abstraction: the steps of a path\<close>

definition pi_ok :: "path_index \<Rightarrow> bool" where
  "pi_ok x \<longleftrightarrow> pm.indexed (pi_map x) (map ps_path (pi_arr x))"

definition pi_entry :: "path_index \<Rightarrow> path \<Rightarrow> path_steps option" where
  "pi_entry x p = find (\<lambda>e. ps_path e = p) (pi_arr x)"

definition pi_steps :: "path_index \<Rightarrow> path \<Rightarrow> nat list" where
  "pi_steps x p = (case pi_entry x p of None \<Rightarrow> [] | Some e \<Rightarrow> ps_steps e)"

lemma find_distinct_nth:
  assumes "distinct (map f xs)" "i < length xs"
  shows "find (\<lambda>e. f e = f (xs ! i)) xs = Some (xs ! i)"
  using assms
proof (induction xs arbitrary: i)
  case (Cons x xs)
  then show ?case by (cases i) (auto simp: nth_mem image_iff)
qed simp

lemma pi_steps_nth:
  assumes "pi_ok x" "i < length (pi_arr x)"
  shows "pi_steps x (ps_path (pi_arr x ! i)) = ps_steps (pi_arr x ! i)"
proof -
  have "distinct (map ps_path (pi_arr x))" using assms(1) pm.indexed_distinct by (auto simp: pi_ok_def)
  then show ?thesis using find_distinct_nth [of ps_path "pi_arr x" i] assms(2) by (simp add: pi_steps_def pi_entry_def)
qed

lemma pi_steps_new: "p \<notin> set (map ps_path (pi_arr x)) \<Longrightarrow> pi_steps x p = []"
  by (auto simp: pi_steps_def pi_entry_def find_None_iff split: option.split dest!: find_Some_iff [THEN iffD1])

lemma pi_ok_empty [simp]: "pi_ok path_index_empty" "pi_steps path_index_empty p = []"
  by (simp_all add: pi_ok_def path_index_empty_def pm.indexed_empty pi_steps_def pi_entry_def)

text \<open>Replacing the record of one path by another for the same path.\<close>

lemma pi_update:
  assumes "pi_ok x" "i < length (pi_arr x)" "ps_path e = ps_path (pi_arr x ! i)"
  shows "pi_ok (x\<lparr>pi_arr := (pi_arr x)[i := e]\<rparr>)"
    "pi_steps (x\<lparr>pi_arr := (pi_arr x)[i := e]\<rparr>) = (pi_steps x)(ps_path e := ps_steps e)"
proof -
  let ?x = "x\<lparr>pi_arr := (pi_arr x)[i := e]\<rparr>"
  have paths: "map ps_path (pi_arr ?x) = map ps_path (pi_arr x)"
    using assms(2,3) by (simp add: map_update list_update_same_conv)
  then show ok: "pi_ok ?x" using assms(1) by (simp add: pi_ok_def)
  show "pi_steps ?x = (pi_steps x)(ps_path e := ps_steps e)"
  proof
    fix q
    show "pi_steps ?x q = ((pi_steps x)(ps_path e := ps_steps e)) q"
    proof (cases "q \<in> set (map ps_path (pi_arr x))")
      case True
      then obtain j where j: "j < length (pi_arr x)" "ps_path (pi_arr x ! j) = q"
        by (auto simp: in_set_conv_nth)
      have inj: "j = i \<longleftrightarrow> q = ps_path (pi_arr x ! i)"
        using j assms(2) pm.indexed_distinct [of "pi_map x" "map ps_path (pi_arr x)"] assms(1)
        by (auto simp: pi_ok_def distinct_conv_nth)
      have "pi_steps ?x (ps_path (pi_arr ?x ! j)) = ps_steps (pi_arr ?x ! j)"
        using pi_steps_nth [OF ok, of j] j by simp
      then show ?thesis
        using pi_steps_nth [OF assms(1) j(1)] j assms(2,3) inj by (cases "j = i") auto
    next
      case False
      then have "q \<notin> set (map ps_path (pi_arr ?x))" by (simp only: paths not_False_eq_True)
      then have "pi_steps ?x q = []" by (rule pi_steps_new)
      moreover have "pi_steps x q = []" "q \<noteq> ps_path e"
        using pi_steps_new [OF False] False assms(2,3) by (auto simp: image_iff)
      ultimately show ?thesis by simp
    qed
  qed
qed

lemma find_snoc: "find P (xs @ ys) = (case find P xs of None \<Rightarrow> find P ys | Some z \<Rightarrow> Some z)"
  by (induction xs) auto

lemma path_index_add_steps:
  assumes "pi_ok x"
  shows "\<exists>x'. path_index_add x p n = Some x' \<and> pi_ok x' \<and>
           pi_steps x' = (pi_steps x)(p := pi_steps x p @ [n])"
proof -
  have idx: "pm.indexed (pi_map x) (map ps_path (pi_arr x))" using assms by (simp add: pi_ok_def)
  show ?thesis
  proof (rule pm.indexed_find_cases [OF idx, of p])
    assume new: "p \<notin> set (map ps_path (pi_arr x))" "pathmap_find (pi_map x) p = Some None"
    obtain m where m: "pathmap_set (pi_map x) p (length (map ps_path (pi_arr x))) = Some m"
        "pm.indexed m (map ps_path (pi_arr x) @ [p])"
      using pm.indexed_append [OF idx new(1)] .
    let ?e = "\<lparr>ps_path = p, ps_steps = [], ps_is_link = False\<rparr>"
    let ?x1 = "\<lparr>pi_arr = pi_arr x @ [?e], pi_map = m\<rparr>"
    have ok1: "pi_ok ?x1" using m(2) by (simp add: pi_ok_def)
    have "pi_steps ?x1 = pi_steps x"
      using new(1) pi_steps_new [OF new(1)]
      by (auto simp: fun_eq_iff pi_steps_def pi_entry_def find_snoc split: option.split)
    then show ?thesis
      using pi_update [OF ok1, of "length (pi_arr x)" "?e\<lparr>ps_steps := [n]\<rparr>"] new(2) m(1) pi_steps_new [OF new(1)]
      by (cases x) (simp add: path_index_add_def)
  next
    fix i assume old: "i < length (map ps_path (pi_arr x))" "map ps_path (pi_arr x) ! i = p"
      "pathmap_find (pi_map x) p = Some (Some i)"
    then show ?thesis
      using pi_update [OF assms, of i "(pi_arr x ! i)\<lparr>ps_steps := ps_steps (pi_arr x ! i) @ [n]\<rparr>"]
        pi_steps_nth [OF assms, of i]
      by (simp add: path_index_add_def Let_def)
  qed
qed

lemma path_index_mark_link_steps:
  assumes "pi_ok x"
  shows "\<exists>x'. path_index_mark_link x p = Some x' \<and> pi_ok x' \<and> pi_steps x' = pi_steps x"
proof -
  have idx: "pm.indexed (pi_map x) (map ps_path (pi_arr x))" using assms by (simp add: pi_ok_def)
  show ?thesis
  proof (rule pm.indexed_find_cases [OF idx, of p])
    assume "pathmap_find (pi_map x) p = Some None"
    then show ?thesis using assms by (simp add: path_index_mark_link_def)
  next
    fix i assume old: "i < length (map ps_path (pi_arr x))" "map ps_path (pi_arr x) ! i = p"
      "pathmap_find (pi_map x) p = Some (Some i)"
    then show ?thesis
      using pi_update [OF assms, of i "(pi_arr x ! i)\<lparr>ps_is_link := True\<rparr>"] pi_steps_nth [OF assms, of i]
      by (auto simp: path_index_mark_link_def fun_upd_idem)
  qed
qed

lemma drop_trailing_Nil: "drop_trailing n [] = []"
  by (simp add: drop_trailing_def)

lemma path_index_drop_step_steps:
  "pi_ok x \<Longrightarrow> pi_ok (path_index_drop_step x n)"
  "pi_steps (path_index_drop_step x n) p = drop_trailing n (pi_steps x p)"
proof -
  have "find (\<lambda>e. ps_path e = p) (map (\<lambda>e. e\<lparr>ps_steps := drop_trailing n (ps_steps e)\<rparr>) es) =
      map_option (\<lambda>e. e\<lparr>ps_steps := drop_trailing n (ps_steps e)\<rparr>) (find (\<lambda>e. ps_path e = p) es)" for es :: "path_steps list"
    by (induction es) auto
  then show "pi_steps (path_index_drop_step x n) p = drop_trailing n (pi_steps x p)"
    by (cases "find (\<lambda>e. ps_path e = p) (pi_arr x)")
       (simp_all add: pi_steps_def pi_entry_def path_index_drop_step_def drop_trailing_Nil)
  show "pi_ok x \<Longrightarrow> pi_ok (path_index_drop_step x n)"
    by (simp add: pi_ok_def path_index_drop_step_def comp_def)
qed

subsection \<open>Resolution\<close>

lemma resolve_scan_find: "n \<le> length ss \<Longrightarrow> resolve_scan ss cur n = find (\<lambda>s. s \<le> cur) (rev (take n ss))"
  by (induction n) (simp_all add: take_Suc_conv_app_nth)

lemma path_index_resolve_find:
  assumes "pi_ok x"
  shows "path_index_resolve x p cur = Some (find (\<lambda>s. s \<le> cur) (rev (pi_steps x p)))"
proof -
  have idx: "pm.indexed (pi_map x) (map ps_path (pi_arr x))" using assms by (simp add: pi_ok_def)
  show ?thesis
  proof (rule pm.indexed_find_cases [OF idx, of p])
    assume "p \<notin> set (map ps_path (pi_arr x))" "pathmap_find (pi_map x) p = Some None"
    then show ?thesis using pi_steps_new [of p x] by (simp add: path_index_resolve_def)
  next
    fix i assume "i < length (map ps_path (pi_arr x))" "map ps_path (pi_arr x) ! i = p"
      "pathmap_find (pi_map x) p = Some (Some i)"
    then show ?thesis
      using pi_steps_nth [OF assms, of i] by (simp add: path_index_resolve_def resolve_scan_find)
  qed
qed

lemma find_rev_sorted:
  fixes ss :: "nat list"
  assumes "sorted ss"
  shows "find (\<lambda>s. s \<le> cur) (rev ss) =
    (if \<exists>s \<in> set ss. s \<le> cur then Some (Max {s \<in> set ss. s \<le> cur}) else None)"
  using assms
proof (induction ss rule: rev_induct)
  case (snoc s ss)
  show ?case
  proof (cases "s \<le> cur")
    case True
    then have "Max {t \<in> set (ss @ [s]). t \<le> cur} = s"
      using snoc.prems by (intro Max_eqI) (auto simp: sorted_append)
    then show ?thesis using True by auto
  next
    case False
    then have "{t \<in> set (ss @ [s]). t \<le> cur} = {t \<in> set ss. t \<le> cur}" by auto
    then show ?thesis using False snoc by (auto simp: sorted_append)
  qed
qed simp

lemma drop_trailing_new:
  assumes "n \<notin> set ss"
  shows "drop_trailing n (ss @ replicate k n) = ss"
proof -
  have "dropWhile (\<lambda>s. s = n) (rev ss) = rev ss"
    using assms by (induction ss rule: rev_induct) auto
  moreover have "dropWhile (\<lambda>s. s = n) (replicate k n @ rev ss) = dropWhile (\<lambda>s. s = n) (rev ss)"
    by (induction k) simp_all
  ultimately show ?thesis by (simp add: drop_trailing_def)
qed

subsection \<open>The interface of a step index\<close>

text \<open>
  What the reader's index builder and the replayer rely on: an index is, per path, a list of
  steps that grows at its end, and resolution scans it from there. Fed in ascending order,
  resolution is the largest step not above the current one.
\<close>

locale step_index =
  fixes ok :: "'x \<Rightarrow> bool"
    and steps :: "'x \<Rightarrow> 'k \<Rightarrow> nat list"
    and add :: "'x \<Rightarrow> 'k \<Rightarrow> nat \<Rightarrow> 'x option"
    and mark :: "'x \<Rightarrow> 'k \<Rightarrow> 'x option"
    and resolve :: "'x \<Rightarrow> 'k \<Rightarrow> nat \<Rightarrow> nat option option"
  assumes add_steps: "ok x \<Longrightarrow> \<exists>x'. add x p n = Some x' \<and> ok x' \<and> steps x' = (steps x)(p := steps x p @ [n])"
    and mark_steps: "ok x \<Longrightarrow> \<exists>x'. mark x p = Some x' \<and> ok x' \<and> steps x' = steps x"
    and resolve_steps: "ok x \<Longrightarrow> resolve x p cur = Some (find (\<lambda>s. s \<le> cur) (rev (steps x p)))"
begin

fun adds :: "'x \<Rightarrow> ('k \<times> nat \<times> bool) list \<Rightarrow> 'x option" where
  "adds x [] = Some x"
| "adds x ((p, n, link) # ops) =
     Option.bind (add x p n) (\<lambda>x. Option.bind (if link then mark x p else Some x) (\<lambda>x. adds x ops))"

lemma adds_steps:
  "ok x \<Longrightarrow> \<exists>x'. adds x ops = Some x' \<and> ok x' \<and>
     (\<forall>p. steps x' p = steps x p @ map (\<lambda>(_, n, _). n) (filter (\<lambda>(q, _). q = p) ops))"
proof (induction ops arbitrary: x)
  case (Cons op ops)
  obtain p n l where op: "op = (p, n, l)" by (cases op)
  obtain x1 where x1: "add x p n = Some x1" "ok x1" "steps x1 = (steps x)(p := steps x p @ [n])"
    using add_steps [OF Cons.prems] by blast
  obtain x2 where x2: "(if l then mark x1 p else Some x1) = Some x2" "ok x2" "steps x2 = steps x1"
    using mark_steps [OF x1(2), of p] x1(2) by (cases l) auto
  show ?case using Cons.IH [OF x2(2)] x1 x2 by (auto simp: op)
qed simp

lemma resolve_sorted:
  "ok x \<Longrightarrow> sorted (steps x p) \<Longrightarrow> resolve x p cur =
     Some (if \<exists>s \<in> set (steps x p). s \<le> cur then Some (Max {s \<in> set (steps x p). s \<le> cur}) else None)"
  by (simp add: resolve_steps find_rev_sorted)

end

interpretation pidx: step_index pi_ok pi_steps path_index_add path_index_mark_link path_index_resolve
  by unfold_locales (rule path_index_add_steps path_index_mark_link_steps path_index_resolve_find; assumption)+

end
