(* ===== verification/VS_Reader.thy ===== *)
theory VS_Reader
  imports VS_PathIndex "HOL-Library.Multiset"
begin

text \<open>
  The reader: enumeration of \<open>/step\<close>, decoding of every step's manifest into the path
  index and the logical-id map, and moving from step to step. What the reader gets from the
  file is a parameter: the names iterated under \<open>/step\<close> (\<open>None\<close> when the iteration
  fails, e.g. no such group), the bytes of a dataset by its path (\<open>None\<close> when opening,
  querying or reading it fails), and the flat-buffer verifier with the root accessor.
\<close>

record h5file =
  h5_open :: bool
  h5_step_children :: "string list option"
  h5_read :: "path \<Rightarrow> byte list option"

record reader =
  rd_index_built :: bool
  rd_current_step :: nat
  rd_n_steps_total :: nat
  rd_step_logical_ids :: "nat list list"
  rd_logical_map :: "(nat \<times> nat) list"
  rd_paths :: path_index

definition reader_init :: reader where
  "reader_init = \<lparr>rd_index_built = False, rd_current_step = 0, rd_n_steps_total = 0,
     rd_step_logical_ids = [], rd_logical_map = [], rd_paths = path_index_empty\<rparr>"

definition step_iter_cb :: "nat list \<Rightarrow> string \<Rightarrow> nat list" where
  "step_iter_cb steps name =
     (case strtoull10 name of Some (v, []) \<Rightarrow> steps @ [v] | _ \<Rightarrow> steps)"

fun logical_map_set :: "(nat \<times> nat) list \<Rightarrow> nat \<Rightarrow> nat \<Rightarrow> (nat \<times> nat) list" where
  "logical_map_set [] lid step = [(lid, step)]"
| "logical_map_set ((l, s) # lm) lid step =
     (if l = lid then (lid, step) # lm else (l, s) # logical_map_set lm lid step)"

text \<open>The entry loop of \<open>H5VL__stream_reader_index_one_step\<close>.\<close>

fun index_entries :: "path_index \<Rightarrow> nat \<Rightarrow> vs_entry list \<Rightarrow> path_index option" where
  "index_entries x p [] = Some x"
| "index_entries x p (e # es) =
     Option.bind
       (case en_path e of
          None \<Rightarrow> Some x
        | Some epath \<Rightarrow>
            if en_kind e = DsetCreate \<or> en_kind e = Attr \<or> en_kind e = Link
            then path_index_add x epath p else Some x)
       (\<lambda>x. Option.bind
          (case en_path e of
             None \<Rightarrow> Some x
           | Some epath \<Rightarrow> if en_kind e = Link then path_index_mark_link x epath else Some x)
          (\<lambda>x. index_entries x p es))"

definition reader_index_one_step ::
  "h5file \<Rightarrow> (byte list \<Rightarrow> vs_step option) \<Rightarrow> reader \<Rightarrow> nat \<Rightarrow> (reader \<times> unit cres) option" where
  "reader_index_one_step file verify_root r p =
     (if \<not> h5_open file then Some (r, Inl EFail)
      else case h5_read file (step_path p ''/.manifest'') of
        None \<Rightarrow> Some (r, Inl EFail)
      | Some buf \<Rightarrow>
          (case verify_root buf of
             None \<Rightarrow> Some (r, Inl EFail)
           | Some st \<Rightarrow>
               (let lids = st_logical_ids st;
                    r = (if lids \<noteq> []
                         then r\<lparr>rd_step_logical_ids := (rd_step_logical_ids r)[p := lids],
                                rd_logical_map := foldl (\<lambda>lm lid. logical_map_set lm lid p) (rd_logical_map r) lids\<rparr>
                         else r)
                in Option.bind (index_entries (rd_paths r) p (st_entries st)) (\<lambda>x.
                     Some (r\<lparr>rd_paths := x\<rparr>, Inr ())))))"

fun index_steps ::
  "h5file \<Rightarrow> (byte list \<Rightarrow> vs_step option) \<Rightarrow> reader \<Rightarrow> nat list \<Rightarrow> (reader \<times> unit cres) option" where
  "index_steps file verify_root r [] = Some (r, Inr ())"
| "index_steps file verify_root r (p # ps) =
     Option.bind (reader_index_one_step file verify_root r p) (\<lambda>(r, res).
       case res of Inl e \<Rightarrow> Some (r, Inl e) | Inr _ \<Rightarrow> index_steps file verify_root r ps)"

definition reader_build_index ::
  "h5file \<Rightarrow> (byte list \<Rightarrow> vs_step option) \<Rightarrow> reader \<Rightarrow> (reader \<times> unit cres) option" where
  "reader_build_index file verify_root r =
     (if \<not> h5_open file then Some (r, Inl EFail)
      else case h5_step_children file of
        None \<Rightarrow> Some (r\<lparr>rd_index_built := True\<rparr>, Inr ())
      | Some names \<Rightarrow>
          (let steps = sort (foldl step_iter_cb [] names);
               n = length steps
           in if steps \<noteq> [0..<n] then Some (r, Inl EFail)
              else
                Option.bind
                  (index_steps file verify_root
                     (r\<lparr>rd_n_steps_total := n,
                        rd_step_logical_ids := (if n > 0 then replicate n [] else rd_step_logical_ids r)\<rparr>) [0..<n])
                  (\<lambda>(r, res). case res of
                     Inl e \<Rightarrow> Some (r, Inl e)
                   | Inr _ \<Rightarrow> Some (r\<lparr>rd_logical_map := sort_key fst (rd_logical_map r),
                                       rd_index_built := True\<rparr>, Inr ()))))"

definition reader_advance ::
  "h5file \<Rightarrow> (byte list \<Rightarrow> vs_step option) \<Rightarrow> step_status \<Rightarrow> reader \<Rightarrow> nat option
     \<Rightarrow> (reader \<times> step_status cres) option" where
  "reader_advance file verify_root st r target =
     Option.bind (if \<not> rd_index_built r then reader_build_index file verify_root r else Some (r, Inr ()))
       (\<lambda>(r, res). case res of
          Inl e \<Rightarrow> Some (r, Inl EFail)
        | Inr _ \<Rightarrow>
            (let nxt = (case target of
                          Some t \<Rightarrow> t
                        | None \<Rightarrow> if st = READING then wrap64 (rd_current_step r + 1) else 0)
             in if nxt \<ge> rd_n_steps_total r then Some (r, Inl EFail)
                else Some (r\<lparr>rd_current_step := nxt\<rparr>, Inr READING)))"

subsection \<open>What the index must contain\<close>

text \<open>The newest step below \<open>n\<close> with a property, and the paths a manifest makes resolvable.\<close>

definition latest :: "(nat \<Rightarrow> bool) \<Rightarrow> nat \<Rightarrow> nat option" where
  "latest P n = find P (rev [0..<n])"

lemma latest_simps [simp]: "latest P 0 = None" "latest P (Suc n) = (if P n then Some n else latest P n)"
  by (simp_all add: latest_def)

lemma latest_Some: "latest P n = Some p \<longleftrightarrow> p < n \<and> P p \<and> (\<forall>q. p < q \<longrightarrow> q < n \<longrightarrow> \<not> P q)"
  by (induction n) (auto simp: less_Suc_eq)

lemma latest_None: "latest P n = None \<longleftrightarrow> (\<forall>p < n. \<not> P p)"
  by (induction n) (auto simp: less_Suc_eq)

definition entry_op :: "nat \<Rightarrow> vs_entry \<Rightarrow> (path \<times> nat \<times> bool) option" where
  "entry_op p e = (case en_path e of
      None \<Rightarrow> None
    | Some q \<Rightarrow> if en_kind e = DsetCreate \<or> en_kind e = Attr \<or> en_kind e = Link
               then Some (q, p, en_kind e = Link) else None)"

definition carried :: "vs_step \<Rightarrow> path set" where
  "carried st = {q. \<exists>e \<in> set (st_entries st). en_path e = Some q \<and> en_kind e \<in> {DsetCreate, Attr, Link}}"

lemma index_entries_adds: "index_entries x p es = pidx.adds x (List.map_filter (entry_op p) es)"
  by (induction es arbitrary: x)
     (auto simp: map_filter_simps entry_op_def split: option.split)

lemma entry_op_steps:
  "map (\<lambda>(_, n, _). n) (filter (\<lambda>(q, _). q = k) (List.map_filter (entry_op p) es)) =
     replicate (length (filter (\<lambda>e. en_path e = Some k \<and> en_kind e \<in> {DsetCreate, Attr, Link}) es)) p"
  by (induction es) (auto simp: map_filter_simps entry_op_def split: option.split)

lemma index_entries_steps:
  assumes "pi_ok x"
  shows "\<exists>x' c. index_entries x p (st_entries st) = Some x' \<and> pi_ok x' \<and>
           (\<forall>q. pi_steps x' q = pi_steps x q @ replicate (c q) p) \<and> (\<forall>q. c q \<noteq> 0 \<longleftrightarrow> q \<in> carried st)"
proof -
  let ?c = "\<lambda>k. length (filter (\<lambda>e. en_path e = Some k \<and> en_kind e \<in> {DsetCreate, Attr, Link}) (st_entries st))"
  have "?c q \<noteq> 0 \<longleftrightarrow> q \<in> carried st" for q
    by (auto simp: carried_def filter_empty_conv)
  moreover obtain x' where "index_entries x p (st_entries st) = Some x'" "pi_ok x'"
      "\<forall>q. pi_steps x' q = pi_steps x q @ replicate (?c q) p"
    using pidx.adds_steps [OF assms, of "List.map_filter (entry_op p) (st_entries st)"]
    unfolding index_entries_adds entry_op_steps by blast
  ultimately show ?thesis by (intro exI [of _ x'] exI [of _ ?c]) simp
qed

lemma logical_map_set_map_of: "map_of (logical_map_set lm lid s) = (map_of lm)(lid \<mapsto> s)"
  by (induction lm lid s rule: logical_map_set.induct) (auto simp: fun_eq_iff)

lemma logical_map_set_keys:
  "distinct (map fst lm) \<Longrightarrow> distinct (map fst (logical_map_set lm lid s)) \<and>
     fst ` set (logical_map_set lm lid s) = insert lid (fst ` set lm)"
  by (induction lm lid s rule: logical_map_set.induct) (auto simp: image_iff)

lemma logical_map_fold:
  "distinct (map fst lm) \<Longrightarrow> distinct (map fst (foldl (\<lambda>lm lid. logical_map_set lm lid p) lm lids))"
  "map_of (foldl (\<lambda>lm lid. logical_map_set lm lid p) lm lids) k =
     (if k \<in> set lids then Some p else map_of lm k)"
  by (induction lids arbitrary: lm) (auto simp: logical_map_set_keys logical_map_set_map_of)

lemma index_steps_snoc:
  "index_steps file v r (ps @ [p]) = Option.bind (index_steps file v r ps)
     (\<lambda>(r, res). case res of Inl e \<Rightarrow> Some (r, Inl e) | Inr _ \<Rightarrow> reader_index_one_step file v r p)"
proof (induction ps arbitrary: r)
  case Nil
  then show ?case by (cases "reader_index_one_step file v r p") (auto split: sum.split)
next
  case (Cons q ps)
  then show ?case by (cases "reader_index_one_step file v r q") (auto split: sum.split)
qed

lemma find_replicate: "find P (replicate c x) = (if c \<noteq> 0 \<and> P x then Some x else None)"
  by (induction c) auto

text \<open>One step folded in, on the level of what resolution and the logical map answer.\<close>

lemma index_one_step_correct:
  assumes "h5_open file" "h5_read file (step_path p ''/.manifest'') = Some buf" "verify_root buf = Some st"
    and "pi_ok (rd_paths r)" "distinct (map fst (rd_logical_map r))"
  shows "\<exists>r'. reader_index_one_step file verify_root r p = Some (r', Inr ()) \<and> pi_ok (rd_paths r') \<and>
     rd_n_steps_total r' = rd_n_steps_total r \<and> distinct (map fst (rd_logical_map r')) \<and>
     (\<forall>q cur. path_index_resolve (rd_paths r') q cur =
        (if p \<le> cur \<and> q \<in> carried st then Some (Some p) else path_index_resolve (rd_paths r) q cur)) \<and>
     (\<forall>lid. map_of (rd_logical_map r') lid =
        (if lid \<in> set (st_logical_ids st) then Some p else map_of (rd_logical_map r) lid))"
proof -
  obtain x c where x: "index_entries (rd_paths r) p (st_entries st) = Some x" "pi_ok x"
      "\<forall>q. pi_steps x q = pi_steps (rd_paths r) q @ replicate (c q) p" "\<forall>q. c q \<noteq> 0 \<longleftrightarrow> q \<in> carried st"
    using index_entries_steps [OF assms(4)] by blast
  have res: "path_index_resolve x q cur =
      (if p \<le> cur \<and> q \<in> carried st then Some (Some p) else path_index_resolve (rd_paths r) q cur)" for q cur
    using x(3,4) pidx.resolve_steps [OF x(2)] pidx.resolve_steps [OF assms(4)]
    by (auto simp: find_snoc find_replicate)
  show ?thesis
    using assms(1-3,5) x(1,2) res
    by (cases "st_logical_ids st = []")
       (auto simp: reader_index_one_step_def logical_map_fold Let_def)
qed

lemma index_steps_correct:
  assumes "h5_open file"
    and "\<And>p. p < n \<Longrightarrow> \<exists>buf. h5_read file (step_path p ''/.manifest'') = Some buf \<and> verify_root buf = Some (ms p)"
    and "pi_ok (rd_paths r)" "\<forall>q. pi_steps (rd_paths r) q = []" "rd_logical_map r = []"
  shows "\<exists>r'. index_steps file verify_root r [0..<n] = Some (r', Inr ()) \<and> pi_ok (rd_paths r') \<and>
     rd_n_steps_total r' = rd_n_steps_total r \<and> distinct (map fst (rd_logical_map r')) \<and>
     (\<forall>q cur. path_index_resolve (rd_paths r') q cur = Some (latest (\<lambda>p. p \<le> cur \<and> q \<in> carried (ms p)) n)) \<and>
     (\<forall>lid. map_of (rd_logical_map r') lid = latest (\<lambda>p. lid \<in> set (st_logical_ids (ms p))) n)"
  using assms(2)
proof (induction n)
  case 0
  then show ?case using assms(3-5) pidx.resolve_steps [OF assms(3)] by simp
next
  case (Suc n)
  obtain r1 where r1: "index_steps file verify_root r [0..<n] = Some (r1, Inr ())" "pi_ok (rd_paths r1)"
      "rd_n_steps_total r1 = rd_n_steps_total r" "distinct (map fst (rd_logical_map r1))"
      "\<forall>q cur. path_index_resolve (rd_paths r1) q cur = Some (latest (\<lambda>p. p \<le> cur \<and> q \<in> carried (ms p)) n)"
      "\<forall>lid. map_of (rd_logical_map r1) lid = latest (\<lambda>p. lid \<in> set (st_logical_ids (ms p))) n"
    using Suc.IH [OF Suc.prems, OF less_SucI] by blast
  obtain buf where buf: "h5_read file (step_path n ''/.manifest'') = Some buf" "verify_root buf = Some (ms n)"
    using Suc.prems by blast
  show ?case
    using index_one_step_correct [where p = n and verify_root = verify_root and st = "ms n" and r = r1 and buf = buf, OF assms(1) buf r1(2,4)] r1 by (auto simp: index_steps_snoc)
qed

subsection \<open>Building the index\<close>

definition step_name :: "string \<Rightarrow> nat option" where
  "step_name name = (case strtoull10 name of Some (v, []) \<Rightarrow> Some v | _ \<Rightarrow> None)"

lemma step_iter_collects: "foldl step_iter_cb acc names = acc @ List.map_filter step_name names"
  by (induction names arbitrary: acc)
     (auto simp: step_iter_cb_def step_name_def map_filter_simps split: option.split list.split)

lemma mset_map_filter: "mset (List.map_filter f xs) = image_mset the (filter_mset (\<lambda>x. x \<noteq> None) (image_mset f (mset xs)))"
  by (induction xs) (auto simp: map_filter_simps split: option.split)

lemma map_filter_step_names:
  "lo \<le> hi \<Longrightarrow> hi \<le> U64_MAX \<Longrightarrow> List.map_filter step_name (map dec [lo..<hi]) = [lo..<hi]"
  by (induction hi rule: dec_induct) (auto simp: map_filter_def step_name_def text_simps)

text \<open>The steps collected from a group holding step groups \<open>lo..hi-1\<close> and other children.\<close>

lemma collected_steps:
  assumes "mset names = mset (map dec [lo..<hi]) + mset junk" "\<forall>j \<in> set junk. strtoull10 j = None"
    and "lo \<le> hi" "hi \<le> U64_MAX"
  shows "sort (foldl step_iter_cb [] names) = [lo..<hi]"
proof -
  have "List.map_filter step_name junk = []"
    using assms(2) by (induction junk) (auto simp: map_filter_simps step_name_def)
  then have "mset (List.map_filter step_name (map dec [lo..<hi] @ junk)) = mset [lo..<hi]"
    using map_filter_step_names [OF assms(3,4)] by (simp add: map_filter_def)
  moreover have "mset names = mset (map dec [lo..<hi] @ junk)" using assms(1) by simp
  ultimately have "mset (List.map_filter step_name names) = mset [lo..<hi]"
    using mset_map_filter [of step_name names] mset_map_filter [of step_name "map dec [lo..<hi] @ junk"]
    by simp
  then have "sort (List.map_filter step_name names) = sort [lo..<hi]"
    by (metis sorted_list_of_multiset_mset)
  then show ?thesis by (simp add: step_iter_collects sorted_sort_id)
qed

text \<open>
  (C8) A reader of a file that holds the steps \<open>0..n-1\<close>, whatever else is linked beside
  them and in whatever order they are listed, builds its index; a path then resolves, as of
  step \<open>cur\<close>, to the newest step not after \<open>cur\<close> whose manifest carries it, and a logical
  id maps to the newest step that carries it.
\<close>

theorem reader_index_correct:
  assumes "h5_open file" and "h5_step_children file = Some names"
    and "mset names = mset (map dec [0..<n]) + mset junk" and "\<forall>j \<in> set junk. strtoull10 j = None"
    and "n \<le> U64_MAX"
    and "\<And>p. p < n \<Longrightarrow> \<exists>buf. h5_read file (step_path p ''/.manifest'') = Some buf \<and> verify_root buf = Some (ms p)"
  shows "\<exists>r. reader_build_index file verify_root reader_init = Some (r, Inr ()) \<and>
     rd_index_built r \<and> rd_n_steps_total r = n \<and>
     (\<forall>q cur. path_index_resolve (rd_paths r) q cur = Some (latest (\<lambda>p. p \<le> cur \<and> q \<in> carried (ms p)) n)) \<and>
     sorted (map fst (rd_logical_map r)) \<and>
     (\<forall>lid. map_of (rd_logical_map r) lid = latest (\<lambda>p. lid \<in> set (st_logical_ids (ms p))) n)"
proof -
  let ?r0 = "reader_init\<lparr>rd_n_steps_total := n, rd_step_logical_ids := (if n > 0 then replicate n [] else [])\<rparr>"
  have rd0: "rd_step_logical_ids reader_init = []" by (simp add: reader_init_def)
  have steps: "sort (foldl step_iter_cb [] names) = [0..<n]"
    using collected_steps [OF assms(3,4) le0 assms(5)] .
  obtain r where r: "index_steps file verify_root ?r0 [0..<n] = Some (r, Inr ())"
      "rd_n_steps_total r = n" "distinct (map fst (rd_logical_map r))"
      "\<forall>q cur. path_index_resolve (rd_paths r) q cur = Some (latest (\<lambda>p. p \<le> cur \<and> q \<in> carried (ms p)) n)"
      "\<forall>lid. map_of (rd_logical_map r) lid = latest (\<lambda>p. lid \<in> set (st_logical_ids (ms p))) n"
    using index_steps_correct [OF assms(1,6), of n ?r0] by (auto simp: reader_init_def)
  have "map_of (sort_key fst (rd_logical_map r)) = map_of (rd_logical_map r)"
    using r(3) by (subst map_of_inject_set) (auto simp: distinct_map)
  moreover have "reader_build_index file verify_root reader_init =
      Some (r\<lparr>rd_logical_map := sort_key fst (rd_logical_map r), rd_index_built := True\<rparr>, Inr ())"
    using assms(1,2) steps r(1) unfolding reader_build_index_def
    by (simp only: option.case Let_def steps length_upt minus_nat.diff_0 rd0) simp
  ultimately show ?thesis using r by simp
qed

theorem reader_index_correct_witness:
  "\<exists>r. reader_build_index
        \<lparr>h5_open = True, h5_step_children = Some [dec 1, ''x'', dec 0],
         h5_read = (\<lambda>q. if q = step_path 0 ''/.manifest'' then Some [0] else if q = step_path 1 ''/.manifest'' then Some [1] else None)\<rparr>
        (\<lambda>buf :: byte list. Some \<lparr>st_physical_step = 0, st_logical_ids = [7], st_wall_time_ns = 0, st_hdf5_version = 0,
             st_entries = [\<lparr>en_kind = DsetCreate, en_path = Some (if buf = [0] then ''/a'' else ''/b''), en_type_enc = [], en_space_enc = [],
                            en_dcpl_enc = None, en_payload_off = 0, en_payload_len = 0\<rparr>], st_payload_bytes = 0\<rparr>)
        reader_init = Some (r, Inr ()) \<and>
      path_index_resolve (rd_paths r) ''/a'' 1 = Some (Some 0) \<and>
      path_index_resolve (rd_paths r) ''/b'' 0 = Some None \<and> map_of (rd_logical_map r) 7 = Some 1"
proof -
  let ?file = "\<lparr>h5_open = True, h5_step_children = Some [dec 1, ''x'', dec 0],
         h5_read = (\<lambda>q. if q = step_path 0 ''/.manifest'' then Some [0] else if q = step_path 1 ''/.manifest'' then Some [1] else None)\<rparr>"
  let ?v = "\<lambda>buf :: byte list. Some \<lparr>st_physical_step = 0, st_logical_ids = [7], st_wall_time_ns = 0, st_hdf5_version = 0,
             st_entries = [\<lparr>en_kind = DsetCreate, en_path = Some (if buf = [0] then ''/a'' else ''/b''), en_type_enc = [], en_space_enc = [],
                            en_dcpl_enc = None, en_payload_off = 0, en_payload_len = 0\<rparr>], st_payload_bytes = 0\<rparr>"
  let ?ms = "\<lambda>p. the (?v [of_nat p])"
  have ne: "step_path 1 ''/.manifest'' \<noteq> step_path 0 ''/.manifest''"
    by (simp add: step_path_def dec_inj)
  have "\<exists>r. reader_build_index ?file ?v reader_init = Some (r, Inr ()) \<and>
     rd_index_built r \<and> rd_n_steps_total r = 2 \<and>
     (\<forall>q cur. path_index_resolve (rd_paths r) q cur = Some (latest (\<lambda>p. p \<le> cur \<and> q \<in> carried (?ms p)) 2)) \<and>
     sorted (map fst (rd_logical_map r)) \<and>
     (\<forall>lid. map_of (rd_logical_map r) lid = latest (\<lambda>p. lid \<in> set (st_logical_ids (?ms p))) 2)"
  proof (rule reader_index_correct [where names = "[dec 1, ''x'', dec 0]" and junk = "[''x'']"])
    show "mset [dec 1, ''x'', dec 0] = mset (map dec [0..<2]) + mset [''x'']" by (simp add: numeral_2_eq_2)
    show "\<forall>j \<in> set [''x'']. strtoull10 j = None" by code_simp
    show "\<exists>buf. h5_read ?file (step_path p ''/.manifest'') = Some buf \<and> ?v buf = Some (?ms p)" if "p < 2" for p
      using that ne by (cases p) (auto simp: less_Suc_eq numeral_2_eq_2)
  qed (simp_all add: U64_MAX_def)
  then show ?thesis by (auto simp: numeral_2_eq_2 carried_def)
qed

text \<open>
  (C34) A reader refuses a file from which the oldest steps have been removed: with the groups
  \<open>k..n-1\<close> left, \<open>0 < k < n\<close>, building the index fails, so no step of it can be opened.
\<close>

theorem reader_refuses_pruned:
  assumes "h5_step_children file = Some names"
    and "mset names = mset (map dec [k..<n]) + mset junk" and "\<forall>j \<in> set junk. strtoull10 j = None"
    and "0 < k" and "k < n" and "n \<le> U64_MAX" and "\<not> rd_index_built r"
  shows "reader_advance file verify_root st r target = Some (r, Inl EFail)"
proof -
  have "sort (foldl step_iter_cb [] names) = [k..<n]"
    using collected_steps [OF assms(2,3) _ assms(6)] assms(5) by simp
  moreover have "[k..<n] \<noteq> [0..<n - k]"
  proof
    assume "[k..<n] = [0..<n - k]"
    then have "hd [k..<n] = hd [0..<n - k]" by (rule arg_cong)
    then show False using assms(4,5) by simp
  qed
  ultimately have "reader_build_index file verify_root r = Some (r, Inl EFail)"
    using assms(1) by (simp add: reader_build_index_def Let_def)
  then show ?thesis using assms(7) by (simp add: reader_advance_def)
qed

theorem reader_refuses_pruned_witness:
  "reader_advance \<lparr>h5_open = True, h5_step_children = Some [dec 1], h5_read = (\<lambda>_. Some [])\<rparr> (\<lambda>_. None)
     NOT_IN_STEP reader_init None = Some (reader_init, Inl EFail)"
  by (rule reader_refuses_pruned [where names = "[dec 1]" and k = 1 and n = 2 and junk = "[]"])
     (simp_all add: reader_init_def U64_MAX_val upt_conv_Cons)

subsection \<open>Moving through the steps\<close>

fun advances ::
  "h5file \<Rightarrow> (byte list \<Rightarrow> vs_step option) \<Rightarrow> nat \<Rightarrow> step_status \<times> reader \<Rightarrow> (step_status \<times> reader) option" where
  "advances file v 0 s = Some s"
| "advances file v (Suc k) (st, r) =
     (case reader_advance file v st r None of
        Some (r, Inr st) \<Rightarrow> advances file v k (st, r)
      | _ \<Rightarrow> None)"

lemma advances_from:
  assumes "rd_index_built r" "rd_n_steps_total r \<le> U64_MAX" "rd_current_step r + k < rd_n_steps_total r"
  shows "advances file v k (READING, r) = Some (READING, r\<lparr>rd_current_step := rd_current_step r + k\<rparr>)"
  using assms
proof (induction k arbitrary: r)
  case (Suc k)
  let ?r = "r\<lparr>rd_current_step := rd_current_step r + 1\<rparr>"
  have "reader_advance file v READING r None = Some (?r, Inr READING)"
    using Suc.prems by (simp add: reader_advance_def wrap64_id)
  then show ?case using Suc.IH [of ?r] Suc.prems by simp
qed simp

text \<open>
  (C33) Sequential reading visits every step once and in order: after \<open>k + 1\<close> advances over
  an index of \<open>n > k\<close> steps the reader is positioned at step \<open>k\<close>, and a further advance at
  the last step fails and leaves the position as it was.
\<close>

theorem reader_visits_every_step:
  assumes "rd_index_built r" and "k < rd_n_steps_total r" and "rd_n_steps_total r \<le> U64_MAX" and "st \<noteq> READING"
  shows "advances file v (Suc k) (st, r) = Some (READING, r\<lparr>rd_current_step := k\<rparr>) \<and>
    reader_advance file v READING (r\<lparr>rd_current_step := rd_n_steps_total r - 1\<rparr>) None =
           Some (r\<lparr>rd_current_step := rd_n_steps_total r - 1\<rparr>, Inl EFail)"
proof -
  have "reader_advance file v st r None = Some (r\<lparr>rd_current_step := 0\<rparr>, Inr READING)"
    using assms by (simp add: reader_advance_def)
  then have "advances file v (Suc k) (st, r) = Some (READING, r\<lparr>rd_current_step := k\<rparr>)"
    using advances_from [of "r\<lparr>rd_current_step := 0\<rparr>" k "file" v] assms by simp
  moreover have "reader_advance file v READING (r\<lparr>rd_current_step := rd_n_steps_total r - 1\<rparr>) None =
           Some (r\<lparr>rd_current_step := rd_n_steps_total r - 1\<rparr>, Inl EFail)"
    using assms by (simp add: reader_advance_def wrap64_id)
  ultimately show ?thesis ..
qed

theorem reader_visits_every_step_witness:
  "advances \<lparr>h5_open = True, h5_step_children = None, h5_read = (\<lambda>_. None)\<rparr> (\<lambda>_. None) 2
     (NOT_IN_STEP, reader_init\<lparr>rd_index_built := True, rd_n_steps_total := 3\<rparr>) =
   Some (READING, reader_init\<lparr>rd_index_built := True, rd_n_steps_total := 3, rd_current_step := 1\<rparr>)"
  using reader_visits_every_step [of "reader_init\<lparr>rd_index_built := True, rd_n_steps_total := 3\<rparr>" 1 NOT_IN_STEP
      "\<lparr>h5_open = True, h5_step_children = None, h5_read = (\<lambda>_. None)\<rparr>" "\<lambda>_. None"]
  by (simp add: U64_MAX_val numeral_2_eq_2 del: advances.simps)

end
