(* ===== verification/VS_Schema.thy ===== *)
theory VS_Schema
  imports VS_Hdf5 VS_Bytes VS_Pathmap
begin

text \<open>
  The schema a writer publishes for live discovery: the table of described paths
  (\<open>fs->schema\<close>, \<open>fs->schema_map\<close>, \<open>fs->schema_dirty\<close>), the blob it is packed into and the
  reader's decoder of that blob. A result \<open>None\<close> is a probe of the path map that never ends;
  the inner sum is the return code.
\<close>

record schema_entry =
  sc_path :: path
  sc_kind :: vs_kind
  sc_type_id :: hid
  sc_space_id :: hid
  sc_type_enc :: "byte list"
  sc_space_enc :: "byte list"

record schema =
  sc_arr :: "schema_entry list"
  sc_map :: pathmap
  sc_dirty :: bool

definition schema_empty :: schema where
  "schema_empty = \<lparr>sc_arr = [], sc_map = pathmap_empty, sc_dirty = False\<rparr>"

definition schema_upsert :: "h5api \<Rightarrow> schema \<Rightarrow> pending_entry \<Rightarrow> (schema \<times> unit cres) option" where
  "schema_upsert h s pe =
     (case pe_path pe of
        None \<Rightarrow> Some (s, Inr ())
      | Some path \<Rightarrow>
          if pe_type_id pe < 0 \<or> pe_space_id pe < 0 then Some (s, Inr ())
          else
            Option.bind (pathmap_find (sc_map s) path) (\<lambda>found.
              if (case found of
                    None \<Rightarrow> False
                  | Some idx \<Rightarrow> (let e = sc_arr s ! idx in
                      sc_kind e = pe_kind pe \<and> H5Tequal h (sc_type_id e) (pe_type_id pe) \<and>
                      H5Sextent_equal h (sc_space_id e) (pe_space_id pe)))
              then Some (s, Inr ())
              else
                case H5Scopy h (pe_space_id pe) of
                  None \<Rightarrow> Some (s, Inl EFail)
                | Some copy \<Rightarrow>
                    (case (if H5Sis_simple h copy then H5Sselect_all h copy else Some copy) of
                       None \<Rightarrow> Some (s, Inl EFail)
                     | Some extent \<Rightarrow>
                         (case (encode_type h (pe_type_id pe), encode_space h extent) of
                            (Some type_enc, Some space_enc) \<Rightarrow>
                              (let e = \<lparr>sc_path = path, sc_kind = pe_kind pe,
                                        sc_type_id = H5Tcopy h (pe_type_id pe), sc_space_id = extent,
                                        sc_type_enc = type_enc, sc_space_enc = space_enc\<rparr>
                               in case found of
                                    Some idx \<Rightarrow> Some (s\<lparr>sc_arr := (sc_arr s)[idx := e], sc_dirty := True\<rparr>, Inr ())
                                  | None \<Rightarrow>
                                      Option.bind (pathmap_set (sc_map s) path (length (sc_arr s))) (\<lambda>m.
                                        Some (\<lparr>sc_arr = sc_arr s @ [e], sc_map = m, sc_dirty = True\<rparr>, Inr ())))
                          | _ \<Rightarrow> Some (s, Inl EFail)))))"

definition c_bytes :: "string \<Rightarrow> byte list" where
  "c_bytes s = map of_char s"

definition kind_code :: "vs_kind \<Rightarrow> byte" where
  "kind_code k = (case k of DsetCreate \<Rightarrow> 0 | DsetWrite \<Rightarrow> 1 | Attr \<Rightarrow> 2 | Group \<Rightarrow> 3 | Link \<Rightarrow> 4)"

definition encode_schema_entry :: "schema_entry \<Rightarrow> byte list" where
  "encode_schema_entry e =
     put_u32le (word_of_nat (length (sc_path e))) @
     put_u32le (word_of_nat (length (sc_type_enc e))) @
     put_u32le (word_of_nat (length (sc_space_enc e))) @
     [kind_code (sc_kind e), 0, 0, 0] @
     c_bytes (sc_path e) @ sc_type_enc e @ sc_space_enc e"

definition encode_schema :: "schema \<Rightarrow> u64 \<Rightarrow> byte list" where
  "encode_schema s physical_step =
     [1, 0] @ put_u16le 0 @ put_u32le (word_of_nat (length (sc_arr s))) @ put_u64le physical_step @
     concat (map encode_schema_entry (sc_arr s))"

fun schema_upserts :: "h5api \<Rightarrow> schema \<Rightarrow> pending_entry list \<Rightarrow> schema option" where
  "schema_upserts h s [] = Some s"
| "schema_upserts h s (pe # pes) = Option.bind (schema_upsert h s pe) (\<lambda>(s, _). schema_upserts h s pes)"

text \<open>The second component is the blob handed to the transport, if one is.\<close>

definition publish_schema ::
  "h5api \<Rightarrow> bool \<Rightarrow> schema \<Rightarrow> pending_entry list \<Rightarrow> u64 \<Rightarrow> (schema \<times> byte list option) option" where
  "publish_schema h transport s pending physical_step =
     (if \<not> transport then Some (s, None)
      else Option.bind (schema_upserts h s pending) (\<lambda>s.
        if \<not> sc_dirty s then Some (s, None)
        else Some (s\<lparr>sc_dirty := False\<rparr>, Some (encode_schema s physical_step))))"

record stream_var =
  sv_path :: "byte list"
  sv_type_id :: hid
  sv_space_id :: hid
  sv_is_attr :: bool

fun decode_schema_loop :: "h5api \<Rightarrow> byte list \<Rightarrow> nat \<Rightarrow> nat \<Rightarrow> stream_var list cres" where
  "decode_schema_loop h blob off 0 = Inr []"
| "decode_schema_loop h blob off (Suc n) =
     (if off + 16 > length blob then Inl EFail
      else
        cbind (rd_u32le blob off) (\<lambda>path_len. cbind (rd_u32le blob (off + 4)) (\<lambda>type_len.
        cbind (rd_u32le blob (off + 8)) (\<lambda>space_len. cbind (rd_u8 blob (off + 12)) (\<lambda>kind.
        let off = off + 16 in
        if unat path_len > length blob - off then Inl EFail
        else cbind (mem_read blob off (unat path_len)) (\<lambda>path.
          let off = off + unat path_len in
          if unat type_len > length blob - off then Inl EFail
          else cbind (mem_read blob off (unat type_len)) (\<lambda>type_enc.
            case H5Tdecode2 h type_enc of
              None \<Rightarrow> Inl EFail
            | Some ty \<Rightarrow>
                (let off = off + unat type_len in
                 if unat space_len > length blob - off then Inl EFail
                 else
                   case H5Sdecode h (drop off blob) of
                     None \<Rightarrow> Inl EFail
                   | Some sp \<Rightarrow>
                       cbind (decode_schema_loop h blob (off + unat space_len) n) (\<lambda>vars.
                         Inr (\<lparr>sv_path = path, sv_type_id = ty, sv_space_id = sp,
                               sv_is_attr = (kind = kind_code Attr)\<rparr> # vars))))))))))"

definition decode_schema :: "h5api \<Rightarrow> byte list option \<Rightarrow> stream_var list cres" where
  "decode_schema h blob =
     (case blob of
        None \<Rightarrow> Inl EFail
      | Some b \<Rightarrow>
          if length b < 16 then Inl EFail
          else cbind (rd_u8 b 0) (\<lambda>v.
            if v \<noteq> 1 then Inl EFail
            else cbind (rd_u32le b 4) (\<lambda>n.
              if n = 0 then Inr [] else decode_schema_loop h b 16 (unat n))))"

definition schema_clear :: "schema \<Rightarrow> schema" where
  "schema_clear s = s\<lparr>sc_arr := [], sc_map := pathmap_clear (sc_map s)\<rparr>"

subsection \<open>Decoding a foreign blob\<close>

lemma decode_schema_loop_safe: "decode_schema_loop h blob off n \<noteq> Inl EOob"
proof (induction n arbitrary: off)
  case (Suc n)
  show ?case
    using Suc.IH
    by (auto simp: rd_ok mem_read_ok Let_def cbind_def split: option.splits sum.splits)
qed simp


subsection \<open>Round trip\<close>

definition schema_var :: "h5api \<Rightarrow> schema_entry \<Rightarrow> stream_var" where
  "schema_var h e = \<lparr>sv_path = c_bytes (sc_path e), sv_type_id = the (H5Tdecode2 h (sc_type_enc e)),
     sv_space_id = the (H5Sdecode h (sc_space_enc e)), sv_is_attr = (sc_kind e = Attr)\<rparr>"

definition schema_entry_ok :: "h5api \<Rightarrow> schema_entry \<Rightarrow> bool" where
  "schema_entry_ok h e \<longleftrightarrow> length (sc_path e) < 2 ^ 32 \<and> length (sc_type_enc e) < 2 ^ 32 \<and>
     length (sc_space_enc e) < 2 ^ 32 \<and> H5Tdecode2 h (sc_type_enc e) \<noteq> None \<and> H5Sdecode h (sc_space_enc e) \<noteq> None"

lemma length_c_bytes [simp]: "length (c_bytes s) = length s"
  by (simp add: c_bytes_def)

lemma kind_code_Attr [simp]: "kind_code k = kind_code Attr \<longleftrightarrow> k = Attr"
  by (cases k) (simp_all add: kind_code_def)

lemma unat_len32 [simp]: "n < 2 ^ 32 \<Longrightarrow> unat (word_of_nat n :: u32) = n"
  by (simp add: unat_of_nat)

lemma length_encode_schema_entry:
  "length (encode_schema_entry e) = 16 + length (sc_path e) + length (sc_type_enc e) + length (sc_space_enc e)"
  by (simp add: encode_schema_entry_def)

lemma drop_quad: "drop (4 + n) (a # b # c # d # xs) = drop n xs"
  by (simp add: eval_nat_numeral)

lemma decode_schema_entry_step:
  assumes "schema_entry_ok h e" "H5Sdecode h (sc_space_enc e @ rest) = H5Sdecode h (sc_space_enc e)"
  shows "decode_schema_loop h (pre @ encode_schema_entry e @ rest) (length pre) (Suc n) =
    cbind (decode_schema_loop h (pre @ encode_schema_entry e @ rest) (length pre + length (encode_schema_entry e)) n)
      (\<lambda>vars. Inr (schema_var h e # vars))"
proof -
  have ok: "length (sc_path e) < 2 ^ 32" "length (sc_type_enc e) < 2 ^ 32" "length (sc_space_enc e) < 2 ^ 32"
    using assms(1) by (simp_all add: schema_entry_ok_def)
  obtain ty sp where dec: "H5Tdecode2 h (sc_type_enc e) = Some ty" "H5Sdecode h (sc_space_enc e) = Some sp"
    using assms(1) by (auto simp: schema_entry_ok_def)
  let ?w = "\<lambda>xs. word_of_nat (length xs) :: u32"
  let ?off = "length pre + 16 + length (sc_path e) + length (sc_type_enc e)"
  define blob where "blob = pre @ encode_schema_entry e @ rest"
  have len: "length blob = ?off + length (sc_space_enc e) + length rest"
    by (simp add: blob_def length_encode_schema_entry)
  have rd: "rd_u32le blob (length pre) = Inr (?w (sc_path e))" "rd_u32le blob (length pre + 4) = Inr (?w (sc_type_enc e))"
    "rd_u32le blob (length pre + 8) = Inr (?w (sc_space_enc e))" "rd_u8 blob (length pre + 12) = Inr (kind_code (sc_kind e))"
    by (simp_all add: blob_def encode_schema_entry_def rd_ok nth_append)
  have mr: "mem_read blob (length pre + 16) (length (sc_path e)) = Inr (c_bytes (sc_path e))"
    "mem_read blob (length pre + 16 + length (sc_path e)) (length (sc_type_enc e)) = Inr (sc_type_enc e)"
    "drop ?off blob = sc_space_enc e @ rest"
    by (simp_all add: blob_def encode_schema_entry_def mem_read_ok drop_quad)
  have un: "unat (?w (sc_path e)) = length (sc_path e)" "unat (?w (sc_type_enc e)) = length (sc_type_enc e)"
    "unat (?w (sc_space_enc e)) = length (sc_space_enc e)"
    using ok by (simp_all only: unat_len32)
  have off: "length pre + length (encode_schema_entry e) = ?off + length (sc_space_enc e)"
    by (simp add: length_encode_schema_entry)
  have checks: "\<not> length blob < length pre + 16" "\<not> length blob - (length pre + 16) < length (sc_path e)"
    "\<not> length blob - (length pre + 16 + length (sc_path e)) < length (sc_type_enc e)"
    "\<not> length blob - ?off < length (sc_space_enc e)"
    using len by simp_all
  show ?thesis
    unfolding blob_def [symmetric] decode_schema_loop.simps rd un mr Let_def cbind_simps off
    using checks dec assms(2) by (simp add: rd un mr schema_var_def)
qed

lemma decode_schema_loop_entries:
  assumes "\<And>e xs. e \<in> set es \<Longrightarrow> H5Sdecode h (sc_space_enc e @ xs) = H5Sdecode h (sc_space_enc e)"
    and "list_all (schema_entry_ok h) es"
  shows "decode_schema_loop h (pre @ concat (map encode_schema_entry es)) (length pre) (length es) =
           Inr (map (schema_var h) es)"
  using assms
proof (induction es arbitrary: pre)
  case (Cons e es)
  have "decode_schema_loop h ((pre @ encode_schema_entry e) @ concat (map encode_schema_entry es))
      (length (pre @ encode_schema_entry e)) (length es) = Inr (map (schema_var h) es)"
    by (rule Cons.IH) (use Cons.prems in auto)
  then show ?case
    using decode_schema_entry_step [of h e "concat (map encode_schema_entry es)" pre "length es"] Cons.prems
    by (simp del: decode_schema_loop.simps)
qed simp

text \<open>
  (C22) What a reader decodes from a published blob is the writer's table, entry by entry: the
  path bytes, the decoded datatype and extent and whether it is an attribute. It relies on
  \<open>H5Sdecode\<close> reading no further than the encoding it was given, and on lengths that fit
  the 32-bit fields.
\<close>

theorem schema_roundtrip:
  assumes "length (sc_arr s) < 2 ^ 32" and "list_all (schema_entry_ok h) (sc_arr s)"
    and "\<And>e xs. e \<in> set (sc_arr s) \<Longrightarrow> H5Sdecode h (sc_space_enc e @ xs) = H5Sdecode h (sc_space_enc e)"
  shows "decode_schema h (Some (encode_schema s step)) = Inr (map (schema_var h) (sc_arr s))"
proof -
  let ?hdr = "[1, 0] @ put_u16le 0 @ put_u32le (word_of_nat (length (sc_arr s))) @ put_u64le step"
  have blob: "encode_schema s step = ?hdr @ concat (map encode_schema_entry (sc_arr s))"
    by (simp add: encode_schema_def)
  have hdr: "length ?hdr = 16" by simp
  have n: "rd_u32le (encode_schema s step) 4 = Inr (word_of_nat (length (sc_arr s)))"
    by (simp add: encode_schema_def rd_ok put_u16le_def)
  have v: "rd_u8 (encode_schema s step) 0 = Inr 1" by (simp add: encode_schema_def rd_ok)
  have len: "\<not> length (encode_schema s step) < 16" by (simp add: blob)
  have loop: "decode_schema_loop h (encode_schema s step) 16 (length (sc_arr s)) = Inr (map (schema_var h) (sc_arr s))"
    unfolding blob by (rule decode_schema_loop_entries [OF assms(3,2), where pre = ?hdr, unfolded hdr])
  have zero: "(word_of_nat (length (sc_arr s)) :: u32) = 0 \<longleftrightarrow> sc_arr s = []"
  proof
    assume "(word_of_nat (length (sc_arr s)) :: u32) = 0"
    then have "unat (word_of_nat (length (sc_arr s)) :: u32) = 0" by (rule ssubst) simp
    then show "sc_arr s = []" unfolding unat_len32 [OF assms(1)] by simp
  qed simp
  show ?thesis
    using len v n loop assms(1) zero by (simp add: decode_schema_def del: decode_schema_loop.simps)
qed

theorem schema_roundtrip_witness:
  "decode_schema \<lparr>H5Tencode = (\<lambda>_. None), H5Sencode2 = (\<lambda>_. None), H5Pencode2 = (\<lambda>_. None),
       H5Tdecode2 = (\<lambda>b. if b = [9] then Some 4 else None), H5Sdecode = (\<lambda>b. case b of x # _ \<Rightarrow> Some (int (unat x)) | [] \<Rightarrow> None),
       H5Pdecode = (\<lambda>_. None), H5Tcopy = id, H5Scopy = Some, H5Sselect_all = Some, H5Sis_simple = (\<lambda>_. True),
       H5Tequal = (=), H5Sextent_equal = (=), H5T_NATIVE_UCHAR = 1, H5Screate_scalar = 2, H5get_libversion = (2, 0, 0)\<rparr>
     (Some (encode_schema \<lparr>sc_arr = [\<lparr>sc_path = ''/d'', sc_kind = Attr, sc_type_id = 4, sc_space_id = 5,
                                      sc_type_enc = [9], sc_space_enc = [5]\<rparr>], sc_map = pathmap_empty, sc_dirty = True\<rparr> 3)) =
   Inr [\<lparr>sv_path = [0x2f, 0x64], sv_type_id = 4, sv_space_id = 5, sv_is_attr = True\<rparr>]"
proof -
  let ?h = "\<lparr>H5Tencode = (\<lambda>_. None), H5Sencode2 = (\<lambda>_. None), H5Pencode2 = (\<lambda>_. None),
       H5Tdecode2 = (\<lambda>b. if b = [9] then Some 4 else None), H5Sdecode = (\<lambda>b. case b of x # _ \<Rightarrow> Some (int (unat x)) | [] \<Rightarrow> None),
       H5Pdecode = (\<lambda>_. None), H5Tcopy = id, H5Scopy = Some, H5Sselect_all = Some, H5Sis_simple = (\<lambda>_. True),
       H5Tequal = (=), H5Sextent_equal = (=), H5T_NATIVE_UCHAR = 1, H5Screate_scalar = 2, H5get_libversion = (2, 0, 0)\<rparr>"
  let ?s = "\<lparr>sc_arr = [\<lparr>sc_path = ''/d'', sc_kind = Attr, sc_type_id = 4, sc_space_id = 5,
              sc_type_enc = [9], sc_space_enc = [5]\<rparr>], sc_map = pathmap_empty, sc_dirty = True\<rparr>"
  have "decode_schema ?h (Some (encode_schema ?s 3)) = Inr (map (schema_var ?h) (sc_arr ?s))"
    by (rule schema_roundtrip) (simp_all add: schema_entry_ok_def)
  then show ?thesis by (simp only: schema.simps) (simp add: schema_var_def c_bytes_def)
qed

subsection \<open>Folding entries into the table\<close>

definition sc_ok :: "schema \<Rightarrow> bool" where
  "sc_ok s \<longleftrightarrow> pm.indexed (sc_map s) (map sc_path (sc_arr s))"

definition sc_encodable :: "h5api \<Rightarrow> pending_entry \<Rightarrow> bool" where
  "sc_encodable h pe \<longleftrightarrow> 0 \<le> pe_type_id pe \<and> 0 \<le> pe_space_id pe \<and> encode_type h (pe_type_id pe) \<noteq> None \<and>
     (case H5Scopy h (pe_space_id pe) of
        None \<Rightarrow> False
      | Some c \<Rightarrow> (case (if H5Sis_simple h c then H5Sselect_all h c else Some c) of
                     None \<Rightarrow> False
                   | Some x \<Rightarrow> encode_space h x \<noteq> None))"

definition described :: "schema \<Rightarrow> path \<Rightarrow> vs_kind \<Rightarrow> bool" where
  "described s p k \<longleftrightarrow> (\<exists>e \<in> set (sc_arr s). sc_path e = p \<and> sc_kind e = k)"

lemma sc_ok_empty: "sc_ok schema_empty"
  by (simp add: sc_ok_def schema_empty_def pm.indexed_empty)

lemma described_nth:
  assumes "distinct (map sc_path (sc_arr s))" "i < length (sc_arr s)"
  shows "described s (sc_path (sc_arr s ! i)) k \<longleftrightarrow> k = sc_kind (sc_arr s ! i)"
proof -
  have "e = sc_arr s ! i" if "e \<in> set (sc_arr s)" "sc_path e = sc_path (sc_arr s ! i)" for e
    using assms that by (meson distinct_map inj_onD nth_mem)
  then show ?thesis unfolding described_def using nth_mem [OF assms(2)] by blast
qed

lemma schema_upsert_described:
  assumes "sc_ok s" "pe_path pe = Some p" "sc_encodable h pe"
  shows "\<exists>s'. schema_upsert h s pe = Some (s', Inr ()) \<and> sc_ok s' \<and> (\<forall>k. described s' p k \<longleftrightarrow> k = pe_kind pe) \<and>
           (sc_dirty s \<or> \<not> described s p (pe_kind pe) \<longrightarrow> sc_dirty s')"
proof -
  obtain c x te se where enc: "H5Scopy h (pe_space_id pe) = Some c"
      "(if H5Sis_simple h c then H5Sselect_all h c else Some c) = Some x"
      "encode_type h (pe_type_id pe) = Some te" "encode_space h x = Some se"
      "0 \<le> pe_type_id pe" "0 \<le> pe_space_id pe"
    using assms(3) by (auto simp: sc_encodable_def split: option.splits)
  have idx: "pm.indexed (sc_map s) (map sc_path (sc_arr s))" using assms(1) by (simp add: sc_ok_def)
  note dist = pm.indexed_distinct [OF idx]
  show ?thesis
  proof (rule pm.indexed_find_cases [OF idx, of p])
    assume new: "p \<notin> set (map sc_path (sc_arr s))" "pathmap_find (sc_map s) p = Some None"
    obtain m where m: "pathmap_set (sc_map s) p (length (map sc_path (sc_arr s))) = Some m"
        "pm.indexed m (map sc_path (sc_arr s) @ [p])"
      using pm.indexed_append [OF idx new(1)] .
    then show ?thesis
      using new enc assms(2) by (auto simp: schema_upsert_def sc_ok_def described_def image_iff Let_def)
  next
    fix i assume old: "i < length (map sc_path (sc_arr s))" "map sc_path (sc_arr s) ! i = p"
      "pathmap_find (sc_map s) p = Some (Some i)"
    have only: "described s p k \<longleftrightarrow> k = sc_kind (sc_arr s ! i)" for k
      using described_nth [of s i k] old(1,2) dist by auto
    show ?thesis
    proof (cases "sc_kind (sc_arr s ! i) = pe_kind pe \<and> H5Tequal h (sc_type_id (sc_arr s ! i)) (pe_type_id pe) \<and>
        H5Sextent_equal h (sc_space_id (sc_arr s ! i)) (pe_space_id pe)")
      case True
      then show ?thesis using old enc assms only by (auto simp: schema_upsert_def)
    next
      case False
      let ?e = "\<lparr>sc_path = p, sc_kind = pe_kind pe, sc_type_id = H5Tcopy h (pe_type_id pe), sc_space_id = x,
                 sc_type_enc = te, sc_space_enc = se\<rparr>"
      let ?s = "s\<lparr>sc_arr := (sc_arr s)[i := ?e], sc_dirty := True\<rparr>"
      have paths: "map sc_path (sc_arr ?s) = map sc_path (sc_arr s)"
        using old by (simp add: map_update list_update_same_conv)
      have "described ?s p k \<longleftrightarrow> k = pe_kind pe" for k
        using described_nth [of ?s i k] old(1) dist paths by simp
      moreover have "schema_upsert h s pe = Some (?s, Inr ())"
        using old False enc assms(2) by (auto simp: schema_upsert_def Let_def)
      ultimately show ?thesis using assms(1) paths by (auto simp: sc_ok_def)
    qed
  qed
qed

text \<open>
  A step that creates and writes a dataset always republishes the schema, even when the
  published table already describes the dataset with that datatype and extent: the table
  keeps one kind per path, and the creation and write entries replace each other's.
\<close>

theorem schema_republished_every_step:
  assumes "sc_ok s" and "pe_kind create = DsetCreate" and "pe_kind write = DsetWrite"
    and "pe_path create = Some p" and "pe_path write = Some p"
    and "sc_encodable h create" and "sc_encodable h write"
  shows "\<exists>s' blob. publish_schema h True s [create, write] step = Some (s', Some blob) \<and> sc_ok s'"
proof -
  obtain s1 where s1: "schema_upsert h s create = Some (s1, Inr ())" "sc_ok s1"
      "\<forall>k. described s1 p k \<longleftrightarrow> k = DsetCreate"
    using schema_upsert_described [OF assms(1,4,6)] assms(2) by auto
  obtain s2 where s2: "schema_upsert h s1 write = Some (s2, Inr ())" "sc_ok s2" "sc_dirty s2"
    using schema_upsert_described [OF s1(2) assms(5,7)] s1(3) assms(3) by auto
  show ?thesis using s1 s2 by (simp add: publish_schema_def sc_ok_def)
qed

definition h5_example :: h5api where
  "h5_example = \<lparr>H5Tencode = (\<lambda>t. Some [word_of_int t]), H5Sencode2 = (\<lambda>s. Some [word_of_int s]),
     H5Pencode2 = (\<lambda>d. Some [word_of_int d]), H5Tdecode2 = (\<lambda>b. if b = [] then None else Some (uint (hd b))),
     H5Sdecode = (\<lambda>b. if b = [] then None else Some (uint (hd b))),
     H5Pdecode = (\<lambda>b. if b = [] then None else Some (uint (hd b))),
     H5Tcopy = id, H5Scopy = Some, H5Sselect_all = Some, H5Sis_simple = (\<lambda>_. True), H5Tequal = (=),
     H5Sextent_equal = (=), H5T_NATIVE_UCHAR = 1, H5Screate_scalar = 2, H5get_libversion = (2, 0, 0)\<rparr>"

theorem schema_republished_every_step_witness:
  "\<exists>s' blob. publish_schema h5_example True schema_empty
     [\<lparr>pe_kind = DsetCreate, pe_path = Some ''/d'', pe_type_id = 3, pe_space_id = 4, pe_dcpl_id = -1, pe_payload = []\<rparr>,
      \<lparr>pe_kind = DsetWrite, pe_path = Some ''/d'', pe_type_id = 3, pe_space_id = 4, pe_dcpl_id = -1, pe_payload = [7]\<rparr>] 0 =
     Some (s', Some blob) \<and> sc_ok s'"
  by (rule schema_republished_every_step [where p = "''/d''"])
     (simp_all add: sc_ok_empty sc_encodable_def h5_example_def encode_type_def encode_space_def)

end
