(* ===== verification/VS_State.thy ===== *)
theory VS_State
  imports VS_TypeCache VS_Reader VS_Schema
begin

text \<open>
  \<open>H5VL_stream_file_state_t\<close>, the state one open file keeps, with the members of a component
  grouped in that component's record. An array with its length and capacity members is a
  list. The policy members that are meaningful only when their \<open>_set\<close> flag is 1 are options
  or guarded by the flag as in the code. Members that hold only handles of libraries
  (the BAKE client, the MPI communicator, the under-VOL objects) and the \<open>/stream\<close> overlay
  are not part of the record.
\<close>

datatype queue_policy = QBlock | QDiscard | QSpill

record link_rec =
  lk_path :: path
  lk_target :: path
  lk_type :: char

record spill_entry =
  sp_physical_step :: nat
  sp_desc :: string
  sp_size :: nat

record file_state =
  fs_step_state :: step_status
  fs_physical_step :: nat
  fs_logical_ids :: "nat list"
  fs_wall_time_ns :: nat
  fs_pending :: "pending_entry list"
  fs_pending_bytes :: nat
  fs_completion :: "int option"
  fs_transport :: bool
  fs_queue_policy_set :: bool
  fs_queue_policy :: queue_policy
  fs_reserve_slots :: nat
  fs_retention_set :: bool
  fs_retain_max_steps :: nat
  fs_retain_max_bytes :: nat
  fs_retain_floor :: nat
  fs_retain_bytes :: "nat list"
  fs_flush_after_step :: bool
  fs_max_pending :: nat
  fs_group_attrs :: "path list"
  fs_links :: "link_rec list"
  fs_pending_spill :: "spill_entry list"
  fs_is_reader :: bool
  fs_has_subscribed :: bool
  fs_reader :: reader
  fs_write_cache :: type_cache
  fs_replay_cache :: type_cache
  fs_schema :: schema

definition file_state_init :: "bool \<Rightarrow> file_state" where
  "file_state_init is_reader =
     \<lparr>fs_step_state = NOT_IN_STEP, fs_physical_step = 0, fs_logical_ids = [], fs_wall_time_ns = 0,
      fs_pending = [], fs_pending_bytes = 0, fs_completion = None, fs_transport = False,
      fs_queue_policy_set = False, fs_queue_policy = QBlock, fs_reserve_slots = 0,
      fs_retention_set = False, fs_retain_max_steps = 0, fs_retain_max_bytes = 0, fs_retain_floor = 0,
      fs_retain_bytes = [], fs_flush_after_step = False, fs_max_pending = 0, fs_group_attrs = [], fs_links = [],
      fs_pending_spill = [], fs_is_reader = is_reader, fs_has_subscribed = False, fs_reader = reader_init,
      fs_write_cache = type_cache_empty, fs_replay_cache = type_cache_empty, fs_schema = schema_empty\<rparr>"

end
