(* ===== verification/VS_Capture.thy ===== *)
theory VS_Capture
  imports VS_State
begin

text \<open>
  What an open step buffers: the pending entries and their byte limit, and links made in a
  step, which are captured as entries and made again in later steps that write their target.
  \<open>env\<close> is the value of \<open>VOL_STREAM_MAX_PENDING_BYTES\<close>, \<open>None\<close> when unset; the code
  reads it once per process.
\<close>

definition pending_limit :: "string option \<Rightarrow> file_state \<Rightarrow> nat" where
  "pending_limit env fs =
     (case env of
        None \<Rightarrow> fs_max_pending fs
      | Some s \<Rightarrow>
          if s = [] then fs_max_pending fs
          else case strtoull10 s of
            Some (v, []) \<Rightarrow> v
          | _ \<Rightarrow> fs_max_pending fs)"

definition pending_append :: "string option \<Rightarrow> file_state \<Rightarrow> pending_entry \<Rightarrow> file_state \<times> nat option" where
  "pending_append env fs e =
     (let limit = pending_limit env fs; plen = length (pe_payload e) in
      if limit > 0 \<and> plen > 0 \<and> (plen > limit \<or> fs_pending_bytes fs > limit - plen)
      then (fs, None)
      else (fs\<lparr>fs_pending := fs_pending fs @ [e], fs_pending_bytes := wrap64 (fs_pending_bytes fs + plen)\<rparr>,
            Some (length (fs_pending fs))))"

definition pending_discard_all :: "file_state \<Rightarrow> file_state" where
  "pending_discard_all fs = fs\<lparr>fs_pending := [], fs_pending_bytes := 0\<rparr>"

definition link_entry :: "h5api \<Rightarrow> path \<Rightarrow> path \<Rightarrow> char \<Rightarrow> pending_entry" where
  "link_entry h path target ty =
     \<lparr>pe_kind = Link, pe_path = Some path, pe_type_id = H5Tcopy h (H5T_NATIVE_UCHAR h),
      pe_space_id = H5Screate_scalar h, pe_dcpl_id = H5I_INVALID_HID,
      pe_payload = of_char ty # c_bytes target\<rparr>"

definition pending_link ::
  "string option \<Rightarrow> h5api \<Rightarrow> file_state \<Rightarrow> path \<Rightarrow> path \<Rightarrow> char \<Rightarrow> file_state \<times> unit cres" where
  "pending_link env h fs path target ty =
     (let e = link_entry h path target ty in
      if pe_type_id e < 0 \<or> pe_space_id e < 0 then (fs, Inl EFail)
      else case pending_append env fs e of
        (fs', None) \<Rightarrow> (fs', Inl EFail)
      | (fs', Some _) \<Rightarrow> (fs', Inr ()))"

text \<open>
  \<open>H5VL_loc_params_t\<close> and the link-creation arguments, as far as the capture looks at them.
  \<open>cur\<close> is the \<open>curr_obj\<close> of a hard link: \<open>None\<close> for NULL, else its \<open>path\<close> member.
\<close>

datatype loc_params = BY_NAME "string option" | BY_SELF | BY_OTHER

datatype link_create = LinkHard "path option option" loc_params | LinkSoft "string option" | LinkOther

datatype capture_result = Captured | PassThrough | CaptureFail

definition dir_of :: "path \<Rightarrow> path" where
  "dir_of p = (if slash \<in> set p then rev (tl (dropWhile (\<lambda>c. c \<noteq> slash) (rev p))) else p)"

definition capture_link ::
  "string option \<Rightarrow> h5api \<Rightarrow> file_state option \<Rightarrow> path option \<Rightarrow> loc_params \<Rightarrow> link_create
     \<Rightarrow> file_state option \<times> capture_result" where
  "capture_link env h ofs opath loc args =
     (case (ofs, opath, loc) of
        (Some fs, Some base0, BY_NAME name) \<Rightarrow>
          if fs_is_reader fs \<or> fs_step_state fs \<noteq> IN_STEP \<or> args = LinkOther then (ofs, PassThrough)
          else
            (case abs_path (Some base0) name of
               None \<Rightarrow> (ofs, CaptureFail)
             | Some path \<Rightarrow>
                 (let commit = (\<lambda>target ty. case target of
                        None \<Rightarrow> (ofs, CaptureFail)
                      | Some t \<Rightarrow> (case pending_link env h fs path t ty of
                            (fs', Inr _) \<Rightarrow> (Some fs', Captured)
                          | (fs', Inl _) \<Rightarrow> (Some fs', CaptureFail)))
                  in case args of
                       LinkHard cur cl \<Rightarrow>
                         (case (case cur of None \<Rightarrow> Some base0 | Some p \<Rightarrow> p) of
                            None \<Rightarrow> (ofs, PassThrough)
                          | Some base \<Rightarrow>
                              (case cl of
                                 BY_SELF \<Rightarrow> commit (Some base) (CHR ''h'')
                               | BY_NAME n \<Rightarrow> commit (abs_path (Some base) n) (CHR ''h'')
                               | BY_OTHER \<Rightarrow> (ofs, PassThrough)))
                     | LinkSoft t \<Rightarrow>
                         (case t of
                            None \<Rightarrow> (ofs, CaptureFail)
                          | Some t \<Rightarrow> commit (abs_path (Some (dir_of path)) (Some t)) (CHR ''s''))
                     | LinkOther \<Rightarrow> (ofs, PassThrough)))
      | _ \<Rightarrow> (ofs, PassThrough))"

fun links_note_arr :: "link_rec list \<Rightarrow> path \<Rightarrow> path \<Rightarrow> char \<Rightarrow> link_rec list" where
  "links_note_arr [] path target ty = [\<lparr>lk_path = path, lk_target = target, lk_type = ty\<rparr>]"
| "links_note_arr (l # ls) path target ty =
     (if lk_path l = path then l\<lparr>lk_target := target, lk_type := ty\<rparr> # ls
      else l # links_note_arr ls path target ty)"

definition links_note :: "file_state \<Rightarrow> path \<Rightarrow> path \<Rightarrow> char \<Rightarrow> file_state" where
  "links_note fs path target ty = fs\<lparr>fs_links := links_note_arr (fs_links fs) path target ty\<rparr>"

definition fold_one_link :: "string option \<Rightarrow> h5api \<Rightarrow> file_state \<Rightarrow> link_rec \<Rightarrow> file_state" where
  "fold_one_link env h fs l =
     (let writes_target = (\<exists>pe \<in> set (fs_pending fs). pe_kind pe = DsetCreate \<and> pe_path pe = Some (lk_target l));
          links_itself = (\<exists>pe \<in> set (fs_pending fs). pe_kind pe = Link \<and> pe_path pe = Some (lk_path l))
      in if writes_target \<and> \<not> links_itself
         then fst (pending_link env h fs (lk_path l) (lk_target l) (lk_type l)) else fs)"

definition fold_links :: "string option \<Rightarrow> h5api \<Rightarrow> file_state \<Rightarrow> file_state" where
  "fold_links env h fs = foldl (fold_one_link env h) fs (fs_links fs)"

text \<open>
  Attributes written to a group outside a step. \<open>read_attr obj name\<close> is what reading the live
  attribute yields: its type, dataspace, creation property list and captured payload, or
  \<open>None\<close> when it cannot be opened or read or its type cannot be captured.
\<close>

definition note_group_attr :: "bool \<Rightarrow> file_state \<Rightarrow> path option \<Rightarrow> bool \<Rightarrow> bool \<Rightarrow> string option \<Rightarrow> file_state" where
  "note_group_attr has_comm fs opath by_self on_group name =
     (if fs_is_reader fs \<or> fs_step_state fs = IN_STEP \<or> opath = None \<or> \<not> by_self \<or> \<not> on_group then fs
      else if has_comm then fs
      else case attr_path opath name of
        None \<Rightarrow> fs
      | Some path \<Rightarrow> if path \<in> set (fs_group_attrs fs) then fs else fs\<lparr>fs_group_attrs := fs_group_attrs fs @ [path]\<rparr>)"

text \<open>\<open>strrchr (path, '@')\<close>: the object and the attribute name.\<close>

definition split_attr :: "path \<Rightarrow> (path \<times> string) option" where
  "split_attr path =
     (if CHR ''@'' \<in> set path
      then Some (rev (tl (dropWhile (\<lambda>c. c \<noteq> CHR ''@'') (rev path))), rev (takeWhile (\<lambda>c. c \<noteq> CHR ''@'') (rev path)))
      else None)"

definition fold_group_attr ::
  "string option \<Rightarrow> (path \<Rightarrow> string \<Rightarrow> (hid \<times> hid \<times> hid \<times> byte list) option) \<Rightarrow> file_state \<Rightarrow> path \<Rightarrow> file_state" where
  "fold_group_attr env read_attr fs path =
     (if \<exists>pe \<in> set (fs_pending fs). pe_kind pe = Attr \<and> pe_path pe = Some path then fs
      else case split_attr path of
        None \<Rightarrow> fs
      | Some (obj, name) \<Rightarrow>
          if length obj \<ge> 1100 then fs
          else case read_attr (if obj = [] then [slash] else obj) name of
            None \<Rightarrow> fs
          | Some (ty, sp, acpl, payload) \<Rightarrow>
              fst (pending_append env fs
                \<lparr>pe_kind = Attr, pe_path = Some path, pe_type_id = ty, pe_space_id = sp, pe_dcpl_id = acpl, pe_payload = payload\<rparr>))"

definition fold_group_attrs ::
  "string option \<Rightarrow> (path \<Rightarrow> string \<Rightarrow> (hid \<times> hid \<times> hid \<times> byte list) option) \<Rightarrow> file_state \<Rightarrow> file_state" where
  "fold_group_attrs env read_attr fs = (foldl (fold_group_attr env read_attr) fs (fs_group_attrs fs))\<lparr>fs_group_attrs := []\<rparr>"

subsection \<open>The byte limit\<close>

definition payload_sum :: "pending_entry list \<Rightarrow> nat" where
  "payload_sum es = sum_list (map (\<lambda>e. length (pe_payload e)) es)"

lemma payload_sum_simps [simp]:
  "payload_sum [] = 0" "payload_sum (es @ [e]) = payload_sum es + length (pe_payload e)"
  by (simp_all add: payload_sum_def)

definition within_limit :: "string option \<Rightarrow> file_state \<Rightarrow> bool" where
  "within_limit env fs \<longleftrightarrow> fs_pending_bytes fs = payload_sum (fs_pending fs) \<and>
     payload_sum (fs_pending fs) \<le> pending_limit env fs"

lemma pending_append_other [simp]:
  "pending_limit env (fst (pending_append env fs e)) = pending_limit env fs"
  "fs_links (fst (pending_append env fs e)) = fs_links fs"
  by (simp_all add: pending_append_def pending_limit_def Let_def split: option.split list.split)

lemma pending_append_within:
  assumes "within_limit env fs" "0 < pending_limit env fs" "pending_limit env fs \<le> U64_MAX"
  shows "within_limit env (fst (pending_append env fs e))"
    "snd (pending_append env fs e) = None \<longleftrightarrow>
       0 < length (pe_payload e) \<and> payload_sum (fs_pending fs) + length (pe_payload e) > pending_limit env fs"
    "fs_pending (fst (pending_append env fs e)) =
       fs_pending fs @ (if snd (pending_append env fs e) = None then [] else [e])"
proof -
  have b: "fs_pending_bytes fs = payload_sum (fs_pending fs)" "payload_sum (fs_pending fs) \<le> pending_limit env fs"
    using assms(1) by (simp_all add: within_limit_def)
  show *: "snd (pending_append env fs e) = None \<longleftrightarrow>
       0 < length (pe_payload e) \<and> payload_sum (fs_pending fs) + length (pe_payload e) > pending_limit env fs"
    using b assms(2) by (auto simp: pending_append_def Let_def)
  show "fs_pending (fst (pending_append env fs e)) =
       fs_pending fs @ (if snd (pending_append env fs e) = None then [] else [e])"
    by (simp add: pending_append_def Let_def)
  show "within_limit env (fst (pending_append env fs e))"
  proof (cases "snd (pending_append env fs e) = None")
    case True
    then have "fst (pending_append env fs e) = fs" by (auto simp: pending_append_def Let_def split: if_splits)
    then show ?thesis using assms(1) by simp
  next
    case False
    then have le: "payload_sum (fs_pending fs) + length (pe_payload e) \<le> pending_limit env fs"
      using * b(2) by auto
    have "fst (pending_append env fs e) = fs\<lparr>fs_pending := fs_pending fs @ [e],
        fs_pending_bytes := wrap64 (fs_pending_bytes fs + length (pe_payload e))\<rparr>"
      using False by (auto simp: pending_append_def Let_def split: if_splits)
    moreover have "wrap64 (fs_pending_bytes fs + length (pe_payload e)) = payload_sum (fs_pending fs) + length (pe_payload e)"
      using b(1) le assms(3) by (simp add: wrap64_id)
    ultimately show ?thesis using le pending_append_other(1) [of env fs e] by (simp add: within_limit_def)
  qed
qed

fun captures :: "string option \<Rightarrow> file_state \<Rightarrow> pending_entry list \<Rightarrow> file_state" where
  "captures env fs [] = fs"
| "captures env fs (e # es) = captures env (fst (pending_append env fs e)) es"

lemma captures_within:
  "within_limit env fs \<Longrightarrow> 0 < pending_limit env fs \<Longrightarrow> pending_limit env fs \<le> U64_MAX \<Longrightarrow>
     within_limit env (captures env fs es) \<and> pending_limit env (captures env fs es) = pending_limit env fs"
  by (induction es arbitrary: fs) (simp_all add: pending_append_within(1))



subsection \<open>Links\<close>

lemma links_note_paths:
  "distinct (map lk_path ls) \<Longrightarrow> distinct (map lk_path (links_note_arr ls path target ty)) \<and>
     set (map lk_path (links_note_arr ls path target ty)) = insert path (set (map lk_path ls))"
  by (induction ls path target ty rule: links_note_arr.induct) auto

definition needs_link :: "pending_entry list \<Rightarrow> link_rec \<Rightarrow> bool" where
  "needs_link ps l \<longleftrightarrow>
     (\<exists>pe \<in> set ps. pe_kind pe = DsetCreate \<and> pe_path pe = Some (lk_target l)) \<and>
     \<not> (\<exists>pe \<in> set ps. pe_kind pe = Link \<and> pe_path pe = Some (lk_path l))"

definition link_again :: "h5api \<Rightarrow> link_rec \<Rightarrow> pending_entry" where
  "link_again h l = link_entry h (lk_path l) (lk_target l) (lk_type l)"

lemma needs_link_snoc:
  "lk_path l \<noteq> lk_path k \<Longrightarrow> needs_link (ps @ [link_again h k]) l = needs_link ps l"
  by (auto simp: needs_link_def link_again_def link_entry_def)

lemma fold_one_link_unlimited:
  assumes "pending_limit env fs = 0" "0 \<le> H5Tcopy h (H5T_NATIVE_UCHAR h)" "0 \<le> H5Screate_scalar h"
  shows "fs_pending (fold_one_link env h fs l) = fs_pending fs @ (if needs_link (fs_pending fs) l then [link_again h l] else [])"
    "pending_limit env (fold_one_link env h fs l) = 0"
proof -
  have app: "pending_link env h fs (lk_path l) (lk_target l) (lk_type l) =
      (fst (pending_append env fs (link_again h l)), Inr ())"
    using assms by (simp add: pending_link_def pending_append_def link_again_def link_entry_def Let_def)
  have "fs_pending (fst (pending_append env fs e)) = fs_pending fs @ [e]" for e
    using assms(1) by (simp add: pending_append_def)
  then show "fs_pending (fold_one_link env h fs l) = fs_pending fs @ (if needs_link (fs_pending fs) l then [link_again h l] else [])"
    using app by (simp add: fold_one_link_def needs_link_def Let_def)
  show "pending_limit env (fold_one_link env h fs l) = 0"
    using app assms(1) by (simp add: fold_one_link_def Let_def)
qed

lemma fold_links_pending:
  assumes "pending_limit env fs = 0" "0 \<le> H5Tcopy h (H5T_NATIVE_UCHAR h)" "0 \<le> H5Screate_scalar h"
    and "distinct (map lk_path ls)"
  shows "fs_pending (foldl (fold_one_link env h) fs ls) =
    fs_pending fs @ map (link_again h) (filter (needs_link (fs_pending fs)) ls)"
  using assms
proof (induction ls arbitrary: fs)
  case (Cons l ls)
  note one = fold_one_link_unlimited [OF Cons.prems(1-3), of l]
  have same: "filter (needs_link (fs_pending (fold_one_link env h fs l))) ls = filter (needs_link (fs_pending fs)) ls"
  proof (rule filter_cong)
    fix k assume "k \<in> set ls"
    then have "lk_path k \<in> lk_path ` set ls" by (rule imageI)
    then have "lk_path k \<noteq> lk_path l" using Cons.prems(4) by (auto simp del: image_iff)
    then show "needs_link (fs_pending (fold_one_link env h fs l)) k = needs_link (fs_pending fs) k"
      using one(1) needs_link_snoc by simp
  qed simp
  show ?case
    using Cons.IH [OF one(2) Cons.prems(2,3)] Cons.prems(4) one(1) same by simp
qed simp



subsection \<open>Group attributes\<close>

lemma split_attr_path:
  assumes "CHR ''@'' \<notin> set name"
  shows "split_attr (p @ ''@'' @ name) = Some (p, name)"
proof -
  have "takeWhile (\<lambda>c. c \<noteq> CHR ''@'') (rev name @ CHR ''@'' # rev p) = rev name"
    "dropWhile (\<lambda>c. c \<noteq> CHR ''@'') (rev name @ CHR ''@'' # rev p) = CHR ''@'' # rev p"
    using assms by (subst takeWhile_append2 dropWhile_append2; auto)+
  then show ?thesis by (simp add: split_attr_def)
qed

text \<open>The attribute a noted path stands for, and the entry that carries it.\<close>

definition attr_value ::
  "(path \<Rightarrow> string \<Rightarrow> (hid \<times> hid \<times> hid \<times> byte list) option) \<Rightarrow> path \<Rightarrow> pending_entry option" where
  "attr_value read_attr path =
     Option.bind (split_attr path) (\<lambda>(obj, name).
       if length obj \<ge> 1100 then None
       else map_option (\<lambda>(ty, sp, acpl, payload).
         \<lparr>pe_kind = Attr, pe_path = Some path, pe_type_id = ty, pe_space_id = sp, pe_dcpl_id = acpl, pe_payload = payload\<rparr>)
         (read_attr (if obj = [] then [slash] else obj) name))"

definition wrote_attr :: "pending_entry list \<Rightarrow> path \<Rightarrow> bool" where
  "wrote_attr pes path \<longleftrightarrow> (\<exists>pe \<in> set pes. pe_kind pe = Attr \<and> pe_path pe = Some path)"

lemma attr_value_path: "attr_value rd path = Some pe \<Longrightarrow> pe_kind pe = Attr \<and> pe_path pe = Some path"
  by (auto simp: attr_value_def bind_eq_Some_conv split: if_splits)

lemma fold_group_attr_unlimited:
  assumes "pending_limit env fs = 0"
  shows "fs_pending (fold_group_attr env rd fs path) =
      fs_pending fs @ (if wrote_attr (fs_pending fs) path then [] else case attr_value rd path of None \<Rightarrow> [] | Some pe \<Rightarrow> [pe])"
    and "pending_limit env (fold_group_attr env rd fs path) = 0"
proof -
  show "pending_limit env (fold_group_attr env rd fs path) = 0"
    using assms by (simp add: fold_group_attr_def split: option.split)
  show "fs_pending (fold_group_attr env rd fs path) =
      fs_pending fs @ (if wrote_attr (fs_pending fs) path then [] else case attr_value rd path of None \<Rightarrow> [] | Some pe \<Rightarrow> [pe])"
    using assms by (auto simp: fold_group_attr_def wrote_attr_def attr_value_def pending_append_def split: option.splits)
qed



text \<open>
  A noted attribute whose own name contains the separator is looked up as an attribute of
  another object: the path is split at its last separator, not at the one that was inserted.
\<close>

theorem group_attr_name_split_wrong:
  assumes "attr_path (Some obj) (Some (a @ ''@'' @ b)) = Some path" and "CHR ''@'' \<notin> set b"
  shows "split_attr path = Some (obj @ ''@'' @ a, b)"
  using assms split_attr_path [OF assms(2), of "obj @ ''@'' @ a"] by (auto simp: attr_path_def)

theorem group_attr_name_split_wrong_witness:
  "split_attr ''/g@units@v2'' = Some (''/g@units'', ''v2'')"
  using group_attr_name_split_wrong [of "''/g''" "''units''" "''v2''" "''/g@units@v2''"] by (simp add: attr_path_def)

end
