(* ===== verification/VS_Manifest.thy ===== *)
theory VS_Manifest
  imports VS_Capture
begin

text \<open>
  The step manifest: \<open>H5VL__stream_build_manifest\<close>, which encodes the pending entries, and
  the decoding half of \<open>H5VL__stream_replay_manifest\<close>, from the version check to the entry
  whose datatype, dataspace, property list and payload are in hand; what that function then
  does with an entry through the under-VOL (creating and writing the object, pushing it to
  subscribers) is the argument \<open>apply_entry\<close>. The flat-buffer builder and root accessor are
  arguments too, over an opaque type of buffers. Operations return the state they leave behind also when they fail.
\<close>

definition build_entry ::
  "h5api \<Rightarrow> type_cache \<Rightarrow> pending_entry \<Rightarrow> nat \<Rightarrow> (type_cache \<times> vs_entry cres) option" where
  "build_entry h tc pe this_off =
     (case (encode_type h (pe_type_id pe), encode_space h (pe_space_id pe),
            (if pe_dcpl_id pe \<ge> 0 then map_option Some (encode_dcpl h (pe_dcpl_id pe)) else Some None)) of
        (Some type_enc, Some space_enc, Some dcpl_enc) \<Rightarrow>
          (let entry = (\<lambda>te. \<lparr>en_kind = pe_kind pe, en_path = pe_path pe, en_type_enc = te, en_space_enc = space_enc,
                              en_dcpl_enc = dcpl_enc, en_payload_off = this_off, en_payload_len = length (pe_payload pe)\<rparr>)
           in if pe_kind pe = DsetWrite
              then
                Option.bind (type_cache_lookup tc (the (pe_path pe))) (\<lambda>cached.
                  if cached = Some type_enc then Some (tc, Inr (entry []))
                  else Option.bind (type_cache_upsert tc (the (pe_path pe)) type_enc) (\<lambda>tc.
                         Some (tc, Inr (entry type_enc))))
              else Some (tc, Inr (entry type_enc)))
      | _ \<Rightarrow> Some (tc, Inl EFail))"

fun build_entries ::
  "h5api \<Rightarrow> bool \<Rightarrow> type_cache \<Rightarrow> nat \<Rightarrow> byte list option \<Rightarrow> pending_entry list
     \<Rightarrow> (type_cache \<times> (vs_entry list \<times> nat \<times> byte list option) cres) option" where
  "build_entries h want tc payload_len buf [] = Some (tc, Inr ([], payload_len, buf))"
| "build_entries h want tc payload_len buf (pe # pes) =
     Option.bind (build_entry h tc pe payload_len) (\<lambda>(tc, r).
       case r of
         Inl e \<Rightarrow> Some (tc, Inl e)
       | Inr entry \<Rightarrow>
           Option.bind
             (build_entries h want tc (payload_len + length (pe_payload pe))
                (if pe_payload pe \<noteq> [] \<and> want
                 then Some ((case buf of None \<Rightarrow> [] | Some b \<Rightarrow> b) @ pe_payload pe) else buf) pes)
             (\<lambda>(tc, r). Some (tc, cbind r (\<lambda>(es, n, b). Inr (entry # es, n, b)))))"

definition hdf5_version :: "h5api \<Rightarrow> nat" where
  "hdf5_version h = (case H5get_libversion h of (maj, minor, rel) \<Rightarrow> (maj * 1000000 + minor * 1000 + rel) mod 2 ^ 32)"

definition build_manifest ::
  "h5api \<Rightarrow> (vs_step \<Rightarrow> 'b option) \<Rightarrow> bool \<Rightarrow> file_state
     \<Rightarrow> (file_state \<times> ('b \<times> byte list option \<times> nat) cres) option" where
  "build_manifest h finalize want fs =
     Option.bind (build_entries h want (fs_write_cache fs) 0 None (fs_pending fs)) (\<lambda>(tc, r).
       let fs = fs\<lparr>fs_write_cache := tc\<rparr> in
       Some (fs, cbind r (\<lambda>(entries, payload_len, buf).
         case finalize \<lparr>st_physical_step = fs_physical_step fs, st_logical_ids = fs_logical_ids fs,
                        st_wall_time_ns = fs_wall_time_ns fs, st_hdf5_version = hdf5_version h,
                        st_entries = entries, st_payload_bytes = payload_len\<rparr> of
           None \<Rightarrow> Inl EFail
         | Some manifest \<Rightarrow> Inr (manifest, buf, payload_len))))"

subsection \<open>Decoding for replay\<close>

text \<open>An entry ready to be applied to \<open>/step/<n>\<close>.\<close>

record replay_item =
  ri_index :: nat
  ri_kind :: vs_kind
  ri_path :: "path option"
  ri_type :: hid
  ri_space :: hid
  ri_dcpl :: "hid option"
  ri_payload :: "byte list"

definition is_late :: "vs_entry \<Rightarrow> bool" where
  "is_late e \<longleftrightarrow> en_kind e = Attr \<or> en_kind e = Link"

text \<open>The indices the loop \<open>for (k = 0; k < 2 * n_entries; k++)\<close> visits.\<close>

definition replay_order :: "vs_entry list \<Rightarrow> nat list" where
  "replay_order es =
     (let n = length es in
      map (\<lambda>k. k mod n) (filter (\<lambda>k. is_late (es ! (k mod n)) = (k \<ge> n)) [0..<2 * n]))"

text \<open>Where the bytes of an entry are: \<open>entry_payload\<close> as a buffer and an offset.\<close>

definition entry_src :: "byte list option \<Rightarrow> pending_entry list option \<Rightarrow> nat \<Rightarrow> nat \<Rightarrow> (byte list \<times> nat) option" where
  "entry_src payload_buf pending i poff =
     (case payload_buf of
        Some b \<Rightarrow> Some (b, poff)
      | None \<Rightarrow> (case pending of
            Some ps \<Rightarrow> if i < length ps then Some (pe_payload (ps ! i), 0) else None
          | None \<Rightarrow> None))"

definition replay_entry ::
  "h5api \<Rightarrow> byte list option \<Rightarrow> pending_entry list option \<Rightarrow> nat \<Rightarrow> nat \<Rightarrow> type_cache \<Rightarrow> path_index \<Rightarrow> nat \<Rightarrow> vs_entry
     \<Rightarrow> ((type_cache \<times> path_index) \<times> replay_item cres) option" where
  "replay_entry h payload_buf pending payload_len physical_step tc pidx i e =
     (let poff = en_payload_off e; plen = en_payload_len e;
          src = entry_src payload_buf pending i poff in
      if plen > 0 \<and> payload_buf \<noteq> None \<and> (poff > payload_len \<or> plen > payload_len - poff) then Some ((tc, pidx), Inl EFail)
      else if plen > 0 \<and> src = None then Some ((tc, pidx), Inl EFail)
      else
        Option.bind
          (if en_kind e = DsetWrite \<and> en_type_enc e = []
           then type_cache_lookup tc (the (en_path e)) else Some (Some (en_type_enc e)))
          (\<lambda>type_enc. case type_enc of
             None \<Rightarrow> Some ((tc, pidx), Inl EFail)
           | Some type_enc \<Rightarrow>
               Option.bind
                 (case en_path e of
                    None \<Rightarrow> Some pidx
                  | Some path \<Rightarrow>
                      if en_kind e = DsetCreate \<or> en_kind e = Attr \<or> en_kind e = Link
                      then Option.bind (path_index_add pidx path physical_step) (\<lambda>x.
                             if en_kind e = Link then path_index_mark_link x path else Some x)
                      else Some pidx)
                 (\<lambda>pidx. case (H5Tdecode2 h type_enc, H5Sdecode h (en_space_enc e)) of
                    (Some ty, Some sp) \<Rightarrow>
                      Option.bind
                        (if en_kind e = DsetWrite \<and> en_type_enc e \<noteq> []
                         then type_cache_upsert tc (the (en_path e)) (en_type_enc e) else Some tc)
                        (\<lambda>tc. case (case en_dcpl_enc e of
                                      Some d \<Rightarrow> if (en_kind e = DsetCreate \<or> en_kind e = Attr) \<and> d \<noteq> []
                                                then map_option Some (H5Pdecode h d) else Some None
                                    | None \<Rightarrow> Some None) of
                           None \<Rightarrow> Some ((tc, pidx), Inl EFail)
                         | Some dcpl \<Rightarrow>
                             Some ((tc, pidx),
                               cbind (if plen = 0 then Inr [] else case src of None \<Rightarrow> Inr [] | Some (b, off) \<Rightarrow> mem_read b off plen) (\<lambda>payload.
                                 Inr \<lparr>ri_index = i, ri_kind = en_kind e, ri_path = en_path e, ri_type = ty, ri_space = sp,
                                      ri_dcpl = dcpl, ri_payload = payload\<rparr>)))
                  | _ \<Rightarrow> Some ((tc, pidx), Inl EFail))))"

fun replay_entries ::
  "h5api \<Rightarrow> ('w \<Rightarrow> replay_item \<Rightarrow> 'w \<times> bool) \<Rightarrow> byte list option \<Rightarrow> pending_entry list option \<Rightarrow> nat \<Rightarrow> nat \<Rightarrow> vs_entry list
     \<Rightarrow> type_cache \<times> path_index \<Rightarrow> 'w \<Rightarrow> nat list \<Rightarrow> ((type_cache \<times> path_index) \<times> 'w \<times> unit cres) option" where
  "replay_entries h apply_entry buf pending plen n es s w [] = Some (s, w, Inr ())"
| "replay_entries h apply_entry buf pending plen n es (tc, pidx) w (i # is) =
     Option.bind (replay_entry h buf pending plen n tc pidx i (es ! i)) (\<lambda>(s, r).
       case r of
         Inl e \<Rightarrow> Some (s, w, Inl e)
       | Inr item \<Rightarrow>
           (case apply_entry w item of
              (w, ok) \<Rightarrow> if ok then replay_entries h apply_entry buf pending plen n es s w is else Some (s, w, Inl EFail)))"

definition replay_manifest ::
  "h5api \<Rightarrow> ('b \<Rightarrow> vs_step option) \<Rightarrow> ('w \<Rightarrow> replay_item \<Rightarrow> 'w \<times> bool) \<Rightarrow> 'b \<Rightarrow> byte list option
     \<Rightarrow> pending_entry list option \<Rightarrow> file_state \<Rightarrow> 'w \<Rightarrow> (file_state \<times> 'w \<times> unit cres) option" where
  "replay_manifest h as_root apply_entry manifest payload_buf pending fs w =
     (case as_root manifest of
        None \<Rightarrow> Some (fs, w, Inl EFail)
      | Some st \<Rightarrow>
          if (case pending of None \<Rightarrow> False | Some ps \<Rightarrow> length (st_entries st) \<noteq> length ps) then Some (fs, w, Inl EFail)
          else if st_hdf5_version st div 1000 \<noteq> (case H5get_libversion h of (maj, minor, _) \<Rightarrow> (maj * 1000 + minor) mod 2 ^ 32)
          then Some (fs, w, Inl EFail)
          else
            Option.bind
              (replay_entries h apply_entry payload_buf pending (st_payload_bytes st) (st_physical_step st) (st_entries st)
                 (fs_replay_cache fs, rd_paths (fs_reader fs)) w (replay_order (st_entries st)))
              (\<lambda>((tc, x), w, r).
                 Some (fs\<lparr>fs_replay_cache := tc, fs_reader := (fs_reader fs)\<lparr>rd_paths := x\<rparr>\<rparr>, w, r)))"

subsection \<open>Memory safety of replay\<close>



subsection \<open>What is captured is what is replayed\<close>

definition decodable :: "h5api \<Rightarrow> pending_entry \<Rightarrow> bool" where
  "decodable h pe \<longleftrightarrow> pe_path pe \<noteq> None \<and>
     (case encode_type h (pe_type_id pe) of None \<Rightarrow> False | Some te \<Rightarrow> te \<noteq> [] \<and> H5Tdecode2 h te \<noteq> None) \<and>
     (case encode_space h (pe_space_id pe) of None \<Rightarrow> False | Some se \<Rightarrow> H5Sdecode h se \<noteq> None) \<and>
     (pe_dcpl_id pe \<ge> 0 \<longrightarrow>
        (case encode_dcpl h (pe_dcpl_id pe) of None \<Rightarrow> False | Some d \<Rightarrow> d \<noteq> [] \<and> H5Pdecode h d \<noteq> None))"

text \<open>The item an entry must be replayed as.\<close>

definition item_of :: "h5api \<Rightarrow> pending_entry list \<Rightarrow> nat \<Rightarrow> replay_item" where
  "item_of h pes i = (let pe = pes ! i in
     \<lparr>ri_index = i, ri_kind = pe_kind pe, ri_path = pe_path pe,
      ri_type = the (H5Tdecode2 h (the (encode_type h (pe_type_id pe)))),
      ri_space = the (H5Sdecode h (the (encode_space h (pe_space_id pe)))),
      ri_dcpl = (if pe_dcpl_id pe \<ge> 0 \<and> pe_kind pe \<in> {DsetCreate, Attr}
                 then H5Pdecode h (the (encode_dcpl h (pe_dcpl_id pe))) else None),
      ri_payload = pe_payload pe\<rparr>)"

definition wire_type :: "h5api \<Rightarrow> (path \<rightharpoonup> byte list) \<Rightarrow> pending_entry \<Rightarrow> byte list" where
  "wire_type h m pe = (let te = the (encode_type h (pe_type_id pe)) in
     if pe_kind pe = DsetWrite \<and> m (the (pe_path pe)) = Some te then [] else te)"

definition next_types :: "h5api \<Rightarrow> (path \<rightharpoonup> byte list) \<Rightarrow> pending_entry \<Rightarrow> (path \<rightharpoonup> byte list)" where
  "next_types h m pe =
     (if pe_kind pe = DsetWrite then m(the (pe_path pe) \<mapsto> the (encode_type h (pe_type_id pe))) else m)"

definition entry_of :: "h5api \<Rightarrow> (path \<rightharpoonup> byte list) \<Rightarrow> pending_entry \<Rightarrow> nat \<Rightarrow> vs_entry" where
  "entry_of h m pe off =
     \<lparr>en_kind = pe_kind pe, en_path = pe_path pe, en_type_enc = wire_type h m pe,
      en_space_enc = the (encode_space h (pe_space_id pe)),
      en_dcpl_enc = (if pe_dcpl_id pe \<ge> 0 then encode_dcpl h (pe_dcpl_id pe) else None),
      en_payload_off = off, en_payload_len = length (pe_payload pe)\<rparr>"

fun entries_of :: "h5api \<Rightarrow> (path \<rightharpoonup> byte list) \<Rightarrow> nat \<Rightarrow> pending_entry list \<Rightarrow> vs_entry list" where
  "entries_of h m off [] = []"
| "entries_of h m off (pe # pes) =
     entry_of h m pe off # entries_of h (next_types h m pe) (off + length (pe_payload pe)) pes"

lemma build_entry_ok:
  assumes "tc_ok tc" "decodable h pe"
  shows "\<exists>tc'. build_entry h tc pe off = Some (tc', Inr (entry_of h (tc_abs tc) pe off)) \<and>
           tc_ok tc' \<and> tc_abs tc' = next_types h (tc_abs tc) pe"
proof -
  obtain te se where te: "encode_type h (pe_type_id pe) = Some te" "te \<noteq> []" "encode_space h (pe_space_id pe) = Some se"
    using assms(2) by (auto simp: decodable_def split: option.splits)
  obtain de where de: "(if pe_dcpl_id pe \<ge> 0 then map_option Some (encode_dcpl h (pe_dcpl_id pe)) else Some None) = Some de"
      "de = (if pe_dcpl_id pe \<ge> 0 then encode_dcpl h (pe_dcpl_id pe) else None)"
    using assms(2) by (auto simp: decodable_def split: option.splits)
  let ?p = "the (pe_path pe)"
  have lk: "type_cache_lookup tc ?p = Some (tc_abs tc ?p)" by (rule type_cache_lookup_abs [OF assms(1)])
  show ?thesis
  proof (cases "pe_kind pe = DsetWrite")
    case w: True
    show ?thesis
    proof (cases "tc_abs tc ?p = Some te")
      case True
      then have "(tc_abs tc)(?p \<mapsto> te) = tc_abs tc" by (simp add: fun_upd_idem)
      then show ?thesis
        using True w te de lk assms(1) by (simp add: build_entry_def entry_of_def next_types_def wire_type_def)
    next
      case False
      obtain tc' where up: "type_cache_upsert tc ?p te = Some tc'" "tc_ok tc'" "tc_abs tc' = (tc_abs tc)(?p \<mapsto> te)"
        using type_cache_upsert_abs [OF assms(1)] by blast
      then have "build_entry h tc pe off = Some (tc', Inr (entry_of h (tc_abs tc) pe off))"
        using False w te de lk by (simp add: build_entry_def entry_of_def wire_type_def)
      moreover have "next_types h (tc_abs tc) pe = (tc_abs tc)(?p \<mapsto> te)" using w te by (simp add: next_types_def)
      ultimately show ?thesis using up by metis
    qed
  next
    case False
    then show ?thesis using te de assms(1) by (simp add: build_entry_def entry_of_def next_types_def wire_type_def)
  qed
qed

lemma build_entries_ok:
  assumes "tc_ok tc" "list_all (decodable h) pes"
  shows "\<exists>tc'. build_entries h want tc off buf pes = Some (tc', Inr (entries_of h (tc_abs tc) off pes, off + payload_sum pes,
             (if want \<and> payload_sum pes \<noteq> 0
              then Some ((case buf of None \<Rightarrow> [] | Some b \<Rightarrow> b) @ concat (map pe_payload pes)) else buf))) \<and>
           tc_ok tc' \<and> tc_abs tc' = foldl (next_types h) (tc_abs tc) pes"
  using assms
proof (induction pes arbitrary: tc off buf)
  case (Cons pe pes)
  obtain tc1 where one: "build_entry h tc pe off = Some (tc1, Inr (entry_of h (tc_abs tc) pe off))"
      "tc_ok tc1" "tc_abs tc1 = next_types h (tc_abs tc) pe"
    using build_entry_ok [OF Cons.prems(1)] Cons.prems(2) by force
  have ps: "payload_sum (pe # pes) = length (pe_payload pe) + payload_sum pes"
    by (simp add: payload_sum_def)
  have nil: "payload_sum pes = 0 \<Longrightarrow> concat (map pe_payload pes) = []"
    by (auto simp: payload_sum_def)
  let ?buf = "if pe_payload pe \<noteq> [] \<and> want then Some ((case buf of None \<Rightarrow> [] | Some b \<Rightarrow> b) @ pe_payload pe) else buf"
  have dec: "list_all (decodable h) pes" using Cons.prems(2) by simp
  obtain tc2 where rest: "build_entries h want tc1 (off + length (pe_payload pe)) ?buf pes =
        Some (tc2, Inr (entries_of h (tc_abs tc1) (off + length (pe_payload pe)) pes, off + length (pe_payload pe) + payload_sum pes,
          (if want \<and> payload_sum pes \<noteq> 0
           then Some ((case ?buf of None \<Rightarrow> [] | Some b \<Rightarrow> b) @ concat (map pe_payload pes)) else ?buf)))"
      "tc_ok tc2" "tc_abs tc2 = foldl (next_types h) (tc_abs tc1) pes"
    using Cons.IH [OF one(2) dec] by blast
  have buf: "(if want \<and> payload_sum pes \<noteq> 0
           then Some ((case ?buf of None \<Rightarrow> [] | Some b \<Rightarrow> b) @ concat (map pe_payload pes)) else ?buf) =
      (if want \<and> payload_sum (pe # pes) \<noteq> 0
           then Some ((case buf of None \<Rightarrow> [] | Some b \<Rightarrow> b) @ concat (map pe_payload (pe # pes))) else buf)"
    using ps nil by (cases "payload_sum pes = 0"; cases "pe_payload pe = []"; cases want) simp_all
  have "build_entries h want tc off buf (pe # pes) = Some (tc2, Inr (entries_of h (tc_abs tc) off (pe # pes),
      off + payload_sum (pe # pes), (if want \<and> payload_sum (pe # pes) \<noteq> 0
           then Some ((case buf of None \<Rightarrow> [] | Some b \<Rightarrow> b) @ concat (map pe_payload (pe # pes))) else buf)))"
    unfolding build_entries.simps one(1) Option.bind.simps prod.case sum.case rest(1)[unfolded buf] cbind_simps ps entries_of.simps one(3)
    by (simp add: add.assoc)
  then show ?case using rest(2,3) one(3) by simp
qed (simp add: payload_sum_def)

lemma entries_of_nth:
  "i < length pes \<Longrightarrow> entries_of h m off pes ! i =
     entry_of h (foldl (next_types h) m (take i pes)) (pes ! i) (off + payload_sum (take i pes))"
proof (induction pes arbitrary: i m off)
  case (Cons pe pes)
  then show ?case by (cases i) (simp_all add: payload_sum_def ac_simps)
qed simp

lemma length_entries_of [simp]: "length (entries_of h m off pes) = length pes"
  by (induction pes arbitrary: m off) simp_all

text \<open>Reachable payload bytes of entry \<open>i\<close>: through the concatenated buffer or the pending entries.\<close>

definition payload_reachable :: "byte list option \<Rightarrow> pending_entry list option \<Rightarrow> pending_entry list \<Rightarrow> bool" where
  "payload_reachable buf wiring pes \<longleftrightarrow>
     buf = Some (concat (map pe_payload pes)) \<or>
     buf = None \<and> wiring = Some pes \<or>
     buf = None \<and> wiring = None \<and> payload_sum pes = 0"

lemma payload_slice:
  assumes "i < length pes"
  shows "take (length (pe_payload (pes ! i))) (drop (payload_sum (take i pes)) (concat (map pe_payload pes))) = pe_payload (pes ! i)"
    and "payload_sum (take i pes) + length (pe_payload (pes ! i)) \<le> payload_sum pes"
    and "length (concat (map pe_payload pes)) = payload_sum pes"
proof -
  have split: "pes = take i pes @ pes ! i # drop (Suc i) pes" using assms by (simp add: id_take_nth_drop)
  have len: "length (concat (map pe_payload qs)) = payload_sum qs" for qs :: "pending_entry list"
    by (simp add: payload_sum_def length_concat comp_def)
  show "length (concat (map pe_payload pes)) = payload_sum pes" by (rule len)
  have "concat (map pe_payload pes) =
      concat (map pe_payload (take i pes)) @ pe_payload (pes ! i) @ concat (map pe_payload (drop (Suc i) pes))"
    by (subst split) simp
  then show "take (length (pe_payload (pes ! i))) (drop (payload_sum (take i pes)) (concat (map pe_payload pes))) = pe_payload (pes ! i)"
    using len [of "take i pes"] by simp
  show "payload_sum (take i pes) + length (pe_payload (pes ! i)) \<le> payload_sum pes"
    by (subst (3) split) (simp add: payload_sum_def)
qed

lemma payload_found:
  assumes "i < length pes" "payload_reachable buf wiring pes"
  defines "off \<equiv> payload_sum (take i pes)" and "len \<equiv> length (pe_payload (pes ! i))"
  shows "\<not> (len > 0 \<and> buf \<noteq> None \<and> (off > payload_sum pes \<or> len > payload_sum pes - off))"
    and "\<not> (len > 0 \<and> entry_src buf wiring i off = None)"
    and "(if len = 0 then Inr [] else case entry_src buf wiring i off of None \<Rightarrow> Inr [] | Some (b, o') \<Rightarrow> mem_read b o' len) =
           Inr (pe_payload (pes ! i))"
proof -
  note sl = payload_slice [OF assms(1), folded off_def len_def]
  have zero: "payload_sum pes = 0 \<Longrightarrow> len = 0" using sl(2) by simp
  show "\<not> (len > 0 \<and> buf \<noteq> None \<and> (off > payload_sum pes \<or> len > payload_sum pes - off))"
    using sl(2) by auto
  show "\<not> (len > 0 \<and> entry_src buf wiring i off = None)"
    using assms(1,2) zero by (auto simp: payload_reachable_def entry_src_def)
  have "len = 0 \<Longrightarrow> pe_payload (pes ! i) = []" by (simp add: len_def)
  moreover have "mem_read (concat (map pe_payload pes)) off len = Inr (pe_payload (pes ! i))"
    using sl by (simp add: mem_read_ok)
  moreover have "mem_read (pe_payload (pes ! i)) 0 len = Inr (pe_payload (pes ! i))"
    by (simp add: mem_read_ok len_def)
  ultimately show "(if len = 0 then Inr [] else case entry_src buf wiring i off of None \<Rightarrow> Inr [] | Some (b, o') \<Rightarrow> mem_read b o' len) =
           Inr (pe_payload (pes ! i))"
    using assms(1,2) zero by (auto simp: payload_reachable_def entry_src_def)
qed

text \<open>The datatype and the path bookkeeping of one entry.\<close>

lemma replay_types_ok:
  assumes "tc_ok tc" "decodable h pe"
  defines "te \<equiv> the (encode_type h (pe_type_id pe))" and "w \<equiv> wire_type h (tc_abs tc) pe"
  shows "(if pe_kind pe = DsetWrite \<and> w = [] then type_cache_lookup tc (the (pe_path pe)) else Some (Some w)) = Some (Some te)"
    and "\<exists>tc'. (if pe_kind pe = DsetWrite \<and> w \<noteq> [] then type_cache_upsert tc (the (pe_path pe)) w else Some tc) = Some tc' \<and>
           tc_ok tc' \<and> tc_abs tc' = next_types h (tc_abs tc) pe"
proof -
  have ne: "te \<noteq> []" using assms(2) by (auto simp: te_def decodable_def split: option.splits)
  show "(if pe_kind pe = DsetWrite \<and> w = [] then type_cache_lookup tc (the (pe_path pe)) else Some (Some w)) = Some (Some te)"
    using ne type_cache_lookup_abs [OF assms(1)] by (simp add: w_def wire_type_def te_def Let_def)
  show "\<exists>tc'. (if pe_kind pe = DsetWrite \<and> w \<noteq> [] then type_cache_upsert tc (the (pe_path pe)) w else Some tc) = Some tc' \<and>
           tc_ok tc' \<and> tc_abs tc' = next_types h (tc_abs tc) pe"
  proof (cases "pe_kind pe = DsetWrite \<and> w \<noteq> []")
    case True
    then have "w = te" by (auto simp: w_def wire_type_def te_def Let_def split: if_splits)
    then show ?thesis
      using True type_cache_upsert_abs [OF assms(1), of "the (pe_path pe)" te] by (simp add: next_types_def te_def)
  next
    case False
    have "pe_kind pe = DsetWrite \<Longrightarrow> tc_abs tc (the (pe_path pe)) = Some te"
      using False ne by (auto simp: w_def wire_type_def te_def Let_def split: if_splits)
    then have "next_types h (tc_abs tc) pe = tc_abs tc" by (auto simp: next_types_def te_def fun_upd_idem)
    then show ?thesis unfolding if_not_P [OF False] using assms(1) by simp
  qed
qed

lemma replay_paths_ok:
  assumes "pi_ok x"
  shows "\<exists>x'. (case pp of
                 None \<Rightarrow> Some x
               | Some path \<Rightarrow>
                   if k = DsetCreate \<or> k = Attr \<or> k = Link
                   then Option.bind (path_index_add x path n) (\<lambda>x. if k = Link then path_index_mark_link x path else Some x)
                   else Some x) = Some x' \<and> pi_ok x'"
proof (cases pp)
  case (Some path)
  obtain x1 where x1: "path_index_add x path n = Some x1" "pi_ok x1" using path_index_add_steps [OF assms] by blast
  show ?thesis using Some x1 assms path_index_mark_link_steps [OF x1(2), of path] by auto
qed (use assms in simp)

lemma replay_entry_ok:
  assumes "tc_ok tc" "pi_ok x" "i < length pes" "decodable h (pes ! i)" "payload_reachable buf wiring pes"
    and "e = entry_of h (tc_abs tc) (pes ! i) (payload_sum (take i pes))"
  shows "\<exists>tc' x'. replay_entry h buf wiring (payload_sum pes) n tc x i e = Some ((tc', x'), Inr (item_of h pes i)) \<and>
           tc_ok tc' \<and> pi_ok x' \<and> tc_abs tc' = next_types h (tc_abs tc) (pes ! i)"
proof -
  let ?pe = "pes ! i"
  obtain te ty se sp where te: "encode_type h (pe_type_id ?pe) = Some te" "H5Tdecode2 h te = Some ty"
      "encode_space h (pe_space_id ?pe) = Some se" "H5Sdecode h se = Some sp"
    using assms(4) by (auto simp: decodable_def split: option.splits)
  have f: "en_kind e = pe_kind ?pe" "en_path e = pe_path ?pe" "en_type_enc e = wire_type h (tc_abs tc) ?pe"
    "en_space_enc e = se" "en_payload_off e = payload_sum (take i pes)" "en_payload_len e = length (pe_payload ?pe)"
    "en_dcpl_enc e = (if pe_dcpl_id ?pe \<ge> 0 then encode_dcpl h (pe_dcpl_id ?pe) else None)"
    using te by (simp_all add: assms(6) entry_of_def)
  obtain x' where x': "(case pe_path ?pe of
                 None \<Rightarrow> Some x
               | Some path \<Rightarrow>
                   if pe_kind ?pe = DsetCreate \<or> pe_kind ?pe = Attr \<or> pe_kind ?pe = Link
                   then Option.bind (path_index_add x path n) (\<lambda>x. if pe_kind ?pe = Link then path_index_mark_link x path else Some x)
                   else Some x) = Some x'" "pi_ok x'"
    using replay_paths_ok [OF assms(2)] by blast
  obtain tc' where tc': "(if pe_kind ?pe = DsetWrite \<and> wire_type h (tc_abs tc) ?pe \<noteq> []
        then type_cache_upsert tc (the (pe_path ?pe)) (wire_type h (tc_abs tc) ?pe) else Some tc) = Some tc'"
      "tc_ok tc'" "tc_abs tc' = next_types h (tc_abs tc) ?pe"
    using replay_types_ok(2) [OF assms(1,4)] by blast
  let ?dcpl = "if pe_dcpl_id ?pe \<ge> 0 \<and> pe_kind ?pe \<in> {DsetCreate, Attr}
                 then H5Pdecode h (the (encode_dcpl h (pe_dcpl_id ?pe))) else None"
  have dcpl: "(case (if pe_dcpl_id ?pe \<ge> 0 then encode_dcpl h (pe_dcpl_id ?pe) else None) of
       Some d \<Rightarrow> if (pe_kind ?pe = DsetCreate \<or> pe_kind ?pe = Attr) \<and> d \<noteq> [] then map_option Some (H5Pdecode h d) else Some None
     | None \<Rightarrow> Some None) = Some ?dcpl"
    using assms(4) by (auto simp: decodable_def split: option.splits)
  note pf = payload_found [OF assms(3,5)]
  have "replay_entry h buf wiring (payload_sum pes) n tc x i e = Some ((tc', x'), Inr (item_of h pes i))"
    unfolding replay_entry_def Let_def f if_not_P [OF pf(1)] if_not_P [OF pf(2)] replay_types_ok(1) [OF assms(1,4)]
      te(1) option.sel Option.bind.simps option.case x'(1) te(2,4) prod.case tc'(1) dcpl pf(3) cbind_simps
    by (simp add: item_of_def te Let_def)
  then show ?thesis using tc'(2,3) x'(2) by blast
qed

subsection \<open>The two passes\<close>

definition log_item :: "replay_item list \<Rightarrow> replay_item \<Rightarrow> replay_item list \<times> bool" where
  "log_item w it = (w @ [it], True)"

definition late_pe :: "pending_entry \<Rightarrow> bool" where
  "late_pe pe \<longleftrightarrow> pe_kind pe = Attr \<or> pe_kind pe = Link"

lemma replay_entries_append:
  "replay_entries h app buf pend plen n es s w (is @ js) =
     Option.bind (replay_entries h app buf pend plen n es s w is) (\<lambda>(s, w, r).
       case r of Inl e \<Rightarrow> Some (s, w, Inl e) | Inr _ \<Rightarrow> replay_entries h app buf pend plen n es s w js)"
proof (induction "is" arbitrary: s w)
  case (Cons i "is")
  obtain tc x where s: "s = (tc, x)" by (cases s)
  show ?case
    unfolding s append_Cons replay_entries.simps
    by (cases "replay_entry h buf pend plen n tc x i (es ! i)")
       (auto simp: Cons.IH split: sum.split prod.split)
qed simp

lemma replay_log_snoc:
  assumes "replay_entries h log_item buf pend plen n es s w is = Some ((tc1, x1), w1, Inr ())"
    and "replay_entry h buf pend plen n tc1 x1 k (es ! k) = Some (s2, Inr it)"
  shows "replay_entries h log_item buf pend plen n es s w (is @ [k]) = Some (s2, w1 @ [it], Inr ())"
proof -
  have "log_item w1 it = (w1 @ [it], True)" by (simp add: log_item_def)
  then show ?thesis using assms by (simp add: replay_entries_append)
qed

lemma hdf5_version_minor:
  assumes "H5get_libversion h = (maj, minor, rel)" "rel < 1000" "maj * 1000000 + minor * 1000 + rel < 2 ^ 32"
  shows "hdf5_version h div 1000 = (maj * 1000 + minor) mod 2 ^ 32"
proof -
  have "hdf5_version h = (maj * 1000 + minor) * 1000 + rel" using assms(1,3) by (simp add: hdf5_version_def)
  then have "hdf5_version h div 1000 = maj * 1000 + minor" using assms(2) by simp
  then show ?thesis using assms(3) by simp
qed

lemma replay_order_split:
  "replay_order es = filter (\<lambda>i. \<not> is_late (es ! i)) [0..<length es] @ filter (\<lambda>i. is_late (es ! i)) [0..<length es]"
proof -
  let ?n = "length es"
  have "[0..<2 * ?n] = [0..<?n] @ map (\<lambda>i. i + ?n) [0..<?n]"
    by (simp add: map_add_upt mult_2 upt_add_eq_append [of 0 ?n ?n])
  moreover have "map (\<lambda>k. k mod ?n) (filter (\<lambda>k. is_late (es ! (k mod ?n)) = (k \<ge> ?n)) [0..<?n]) =
      filter (\<lambda>i. \<not> is_late (es ! i)) [0..<?n]"
  proof -
    have "filter (\<lambda>k. is_late (es ! (k mod ?n)) = (k \<ge> ?n)) [0..<?n] = filter (\<lambda>i. \<not> is_late (es ! i)) [0..<?n]"
      by (rule filter_cong) auto
    moreover have "map (\<lambda>k. k mod ?n) (filter P [0..<?n]) = filter P [0..<?n]" for P
      by (rule map_idI) simp
    ultimately show ?thesis by simp
  qed
  moreover have "map (\<lambda>k. k mod ?n) (filter (\<lambda>k. is_late (es ! (k mod ?n)) = (k \<ge> ?n)) (map (\<lambda>i. i + ?n) [0..<?n])) =
      filter (\<lambda>i. is_late (es ! i)) [0..<?n]"
  proof -
    have "filter (\<lambda>i. is_late (es ! ((i + ?n) mod ?n)) = (i + ?n \<ge> ?n)) [0..<?n] = filter (\<lambda>i. is_late (es ! i)) [0..<?n]"
      by (rule filter_cong) auto
    moreover have "map (\<lambda>k. (k + ?n) mod ?n) (filter P [0..<?n]) = filter P [0..<?n]" for P
      by (rule map_idI) simp
    ultimately show ?thesis by (simp add: filter_map comp_def)
  qed
  ultimately show ?thesis by (simp add: replay_order_def Let_def)
qed

lemma replay_pass_one:
  assumes "list_all (decodable h) pes" "payload_reachable buf wiring pes" "tc_ok tc" "pi_ok x" "k \<le> length pes"
  shows "\<exists>tc' x'. replay_entries h log_item buf wiring (payload_sum pes) n (entries_of h (tc_abs tc) 0 pes) (tc, x) w
             (filter (\<lambda>i. \<not> late_pe (pes ! i)) [0..<k]) =
           Some ((tc', x'), w @ map (item_of h pes) (filter (\<lambda>i. \<not> late_pe (pes ! i)) [0..<k]), Inr ()) \<and>
           tc_ok tc' \<and> pi_ok x' \<and> tc_abs tc' = foldl (next_types h) (tc_abs tc) (take k pes)"
  using assms(5)
proof (induction k)
  case 0
  then show ?case using assms(3,4) by simp
next
  case (Suc k)
  let ?es = "entries_of h (tc_abs tc) 0 pes"
  have k: "k < length pes" using Suc.prems by simp
  have "k \<le> length pes" using Suc.prems by simp
  then obtain tc1 x1 where IH: "replay_entries h log_item buf wiring (payload_sum pes) n ?es (tc, x) w
             (filter (\<lambda>i. \<not> late_pe (pes ! i)) [0..<k]) =
           Some ((tc1, x1), w @ map (item_of h pes) (filter (\<lambda>i. \<not> late_pe (pes ! i)) [0..<k]), Inr ())"
      "tc_ok tc1" "pi_ok x1" "tc_abs tc1 = foldl (next_types h) (tc_abs tc) (take k pes)"
    using Suc.IH by blast
  have fold: "foldl (next_types h) (tc_abs tc) (take (Suc k) pes) = next_types h (tc_abs tc1) (pes ! k)"
    using k IH(4) by (simp add: take_Suc_conv_app_nth)
  show ?case
  proof (cases "late_pe (pes ! k)")
    case True
    then have "next_types h (tc_abs tc1) (pes ! k) = tc_abs tc1" by (auto simp: late_pe_def next_types_def)
    then show ?thesis using True IH fold by simp
  next
    case False
    have e: "?es ! k = entry_of h (tc_abs tc1) (pes ! k) (payload_sum (take k pes))"
      using entries_of_nth [OF k] IH(4) by simp
    obtain tc2 x2 where "replay_entry h buf wiring (payload_sum pes) n tc1 x1 k (?es ! k) = Some ((tc2, x2), Inr (item_of h pes k))"
        "tc_ok tc2" "pi_ok x2" "tc_abs tc2 = next_types h (tc_abs tc1) (pes ! k)"
      using replay_entry_ok [OF IH(2,3) k _ assms(2) e, of n] assms(1) k by (auto simp: list_all_length)
    then show ?thesis using replay_log_snoc [OF IH(1)] False fold by simp
  qed
qed

lemma replay_pass_two:
  assumes "list_all (decodable h) pes" "payload_reachable buf wiring pes" "tc_ok tc" "pi_ok x" "k \<le> length pes"
  shows "\<exists>x'. replay_entries h log_item buf wiring (payload_sum pes) n (entries_of h m 0 pes) (tc, x) w
             (filter (\<lambda>i. late_pe (pes ! i)) [0..<k]) =
           Some ((tc, x'), w @ map (item_of h pes) (filter (\<lambda>i. late_pe (pes ! i)) [0..<k]), Inr ()) \<and> pi_ok x'"
  using assms(5)
proof (induction k)
  case 0
  then show ?case using assms(4) by simp
next
  case (Suc k)
  let ?es = "entries_of h m 0 pes"
  have k: "k < length pes" using Suc.prems by simp
  have "k \<le> length pes" using Suc.prems by simp
  then obtain x1 where IH: "replay_entries h log_item buf wiring (payload_sum pes) n ?es (tc, x) w
             (filter (\<lambda>i. late_pe (pes ! i)) [0..<k]) =
           Some ((tc, x1), w @ map (item_of h pes) (filter (\<lambda>i. late_pe (pes ! i)) [0..<k]), Inr ())" "pi_ok x1"
    using Suc.IH by blast
  show ?case
  proof (cases "late_pe (pes ! k)")
    case True
    then have nw: "pe_kind (pes ! k) \<noteq> DsetWrite" by (auto simp: late_pe_def)
    have e: "?es ! k = entry_of h (tc_abs tc) (pes ! k) (payload_sum (take k pes))"
      using entries_of_nth [OF k] nw by (simp add: entry_of_def wire_type_def)
    obtain tc2 x2 where r: "replay_entry h buf wiring (payload_sum pes) n tc x1 k (?es ! k) = Some ((tc2, x2), Inr (item_of h pes k))"
        "pi_ok x2"
      using replay_entry_ok [OF assms(3) IH(2) k _ assms(2) e, of n] assms(1) k by (auto simp: list_all_length)
    have "tc2 = tc"
      using r(1) nw by (auto simp: replay_entry_def e entry_of_def Let_def bind_eq_Some_conv split: if_splits option.splits)
    then show ?thesis using replay_log_snoc [OF IH(1) r(1)] True r(2) by simp
  next
    case False
    then show ?thesis using IH by simp
  qed
qed

text \<open>
  (C1) A step replays as it was captured. If the two type caches hold the same encodings, then
  building the manifest of a step and replaying it succeeds and presents every captured entry
  exactly once, objects first and attributes and links after them, each in capture order, with
  the datatype, dataspace, creation properties and payload it was captured with, also where
  the manifest omits the datatype or the payload was never concatenated; and afterwards the
  two caches agree again.
\<close>

theorem manifest_roundtrip:
  assumes "list_all (decodable h) (fs_pending fs)"
    and "tc_ok (fs_write_cache fs)" and "tc_ok (fs_replay_cache fs)"
    and "tc_abs (fs_write_cache fs) = tc_abs (fs_replay_cache fs)" and "pi_ok (rd_paths (fs_reader fs))"
    and "\<And>st. \<exists>b. finalize st = Some b \<and> as_root b = Some st"
    and "H5get_libversion h = (maj, minor, rel)" and "rel < 1000" and "maj * 1000000 + minor * 1000 + rel < 2 ^ 32"
    and "wiring = Some (fs_pending fs) \<or> wiring = None \<and> want"
  shows "\<exists>fs1 manifest buf plen fs2.
    build_manifest h finalize want fs = Some (fs1, Inr (manifest, buf, plen)) \<and>
    replay_manifest h as_root log_item manifest buf wiring fs1 [] =
      Some (fs2, map (item_of h (fs_pending fs))
        (filter (\<lambda>i. \<not> late_pe (fs_pending fs ! i)) [0..<length (fs_pending fs)] @
         filter (\<lambda>i. late_pe (fs_pending fs ! i)) [0..<length (fs_pending fs)]), Inr ()) \<and>
    tc_ok (fs_write_cache fs2) \<and> tc_ok (fs_replay_cache fs2) \<and>
    tc_abs (fs_write_cache fs2) = tc_abs (fs_replay_cache fs2)"
proof -
  let ?pes = "fs_pending fs" and ?m = "tc_abs (fs_write_cache fs)"
  let ?es = "entries_of h ?m 0 ?pes"
  let ?buf = "if want \<and> payload_sum ?pes \<noteq> 0 then Some (concat (map pe_payload ?pes)) else None"
  obtain tc where b: "build_entries h want (fs_write_cache fs) 0 None ?pes = Some (tc, Inr (?es, payload_sum ?pes, ?buf))"
      "tc_ok tc" "tc_abs tc = foldl (next_types h) ?m ?pes"
    using build_entries_ok [OF assms(2,1), of want 0 None] by auto
  let ?fs1 = "fs\<lparr>fs_write_cache := tc\<rparr>"
  let ?st = "\<lparr>st_physical_step = fs_physical_step fs, st_logical_ids = fs_logical_ids fs,
              st_wall_time_ns = fs_wall_time_ns fs, st_hdf5_version = hdf5_version h,
              st_entries = ?es, st_payload_bytes = payload_sum ?pes\<rparr>"
  obtain mf where mf: "finalize ?st = Some mf" "as_root mf = Some ?st" using assms(6) by blast
  have build: "build_manifest h finalize want fs = Some (?fs1, Inr (mf, ?buf, payload_sum ?pes))"
    using b(1) mf(1) by (simp add: build_manifest_def)
  have reach: "payload_reachable ?buf wiring ?pes" using assms(10) by (auto simp: payload_reachable_def)
  have ver: "hdf5_version h div 1000 = (maj * 1000 + minor) mod 2 ^ 32"
    by (rule hdf5_version_minor [OF assms(7-9)])
  have late: "is_late (?es ! i) = late_pe (?pes ! i)" if "i < length ?pes" for i
    using entries_of_nth [OF that] by (simp add: is_late_def late_pe_def entry_of_def)
  have ord: "replay_order ?es = filter (\<lambda>i. \<not> late_pe (?pes ! i)) [0..<length ?pes] @ filter (\<lambda>i. late_pe (?pes ! i)) [0..<length ?pes]"
    unfolding replay_order_split length_entries_of using late by (intro arg_cong2 [where f = append] filter_cong) auto
  obtain tc1 x1 where p1: "replay_entries h log_item ?buf wiring (payload_sum ?pes) (fs_physical_step fs) ?es
      (fs_replay_cache fs, rd_paths (fs_reader fs)) [] (filter (\<lambda>i. \<not> late_pe (?pes ! i)) [0..<length ?pes]) =
      Some ((tc1, x1), map (item_of h ?pes) (filter (\<lambda>i. \<not> late_pe (?pes ! i)) [0..<length ?pes]), Inr ())"
      "tc_ok tc1" "pi_ok x1" "tc_abs tc1 = foldl (next_types h) ?m ?pes"
    using replay_pass_one [OF assms(1) reach assms(3,5) order_refl, of "fs_physical_step fs" "[]"] assms(4) by auto
  obtain x2 where p2: "replay_entries h log_item ?buf wiring (payload_sum ?pes) (fs_physical_step fs) ?es (tc1, x1)
      (map (item_of h ?pes) (filter (\<lambda>i. \<not> late_pe (?pes ! i)) [0..<length ?pes])) (filter (\<lambda>i. late_pe (?pes ! i)) [0..<length ?pes]) =
      Some ((tc1, x2), map (item_of h ?pes) (filter (\<lambda>i. \<not> late_pe (?pes ! i)) [0..<length ?pes]) @
        map (item_of h ?pes) (filter (\<lambda>i. late_pe (?pes ! i)) [0..<length ?pes]), Inr ())"
    using replay_pass_two [OF assms(1) reach p1(2,3) order_refl] by blast
  have "replay_manifest h as_root log_item mf ?buf wiring ?fs1 [] =
      Some (?fs1\<lparr>fs_replay_cache := tc1, fs_reader := (fs_reader fs)\<lparr>rd_paths := x2\<rparr>\<rparr>,
        map (item_of h ?pes) (filter (\<lambda>i. \<not> late_pe (?pes ! i)) [0..<length ?pes] @ filter (\<lambda>i. late_pe (?pes ! i)) [0..<length ?pes]), Inr ())"
    using mf(2) ver assms(7,10) ord p1(1) p2 by (auto simp: replay_manifest_def replay_entries_append split del: if_split)
  then show ?thesis using build b(2,3) p1(2,4) by (intro exI conjI) auto
qed

theorem manifest_roundtrip_witness:
  "\<exists>fs1 manifest buf plen fs2.
    build_manifest h5_example Some False ((file_state_init False)\<lparr>fs_pending :=
      [\<lparr>pe_kind = Attr, pe_path = Some ''/d@u'', pe_type_id = 3, pe_space_id = 4, pe_dcpl_id = -1, pe_payload = [7]\<rparr>,
       \<lparr>pe_kind = DsetCreate, pe_path = Some ''/d'', pe_type_id = 5, pe_space_id = 6, pe_dcpl_id = 8, pe_payload = []\<rparr>,
       \<lparr>pe_kind = DsetWrite, pe_path = Some ''/d'', pe_type_id = 5, pe_space_id = 6, pe_dcpl_id = -1, pe_payload = [1, 2]\<rparr>]\<rparr>) =
      Some (fs1, Inr (manifest, buf, plen)) \<and>
    replay_manifest h5_example Some log_item manifest buf (Some (fs_pending fs1)) fs1 [] =
      Some (fs2,
        [\<lparr>ri_index = 1, ri_kind = DsetCreate, ri_path = Some ''/d'', ri_type = 5, ri_space = 6, ri_dcpl = Some 8, ri_payload = []\<rparr>,
         \<lparr>ri_index = 2, ri_kind = DsetWrite, ri_path = Some ''/d'', ri_type = 5, ri_space = 6, ri_dcpl = None, ri_payload = [1, 2]\<rparr>,
         \<lparr>ri_index = 0, ri_kind = Attr, ri_path = Some ''/d@u'', ri_type = 3, ri_space = 4, ri_dcpl = None, ri_payload = [7]\<rparr>], Inr ())"
proof -
  let ?pes = "[\<lparr>pe_kind = Attr, pe_path = Some ''/d@u'', pe_type_id = 3, pe_space_id = 4, pe_dcpl_id = -1, pe_payload = [7]\<rparr>,
       \<lparr>pe_kind = DsetCreate, pe_path = Some ''/d'', pe_type_id = 5, pe_space_id = 6, pe_dcpl_id = 8, pe_payload = []\<rparr>,
       \<lparr>pe_kind = DsetWrite, pe_path = Some ''/d'', pe_type_id = 5, pe_space_id = 6, pe_dcpl_id = -1, pe_payload = [1, 2]\<rparr>]"
  let ?fs = "(file_state_init False)\<lparr>fs_pending := ?pes\<rparr>"
  have dec: "list_all (decodable h5_example) ?pes"
    by (simp add: decodable_def h5_example_def encode_type_def encode_space_def encode_dcpl_def)
  have items: "map (item_of h5_example ?pes) (filter (\<lambda>i. \<not> late_pe (?pes ! i)) [0..<3] @ filter (\<lambda>i. late_pe (?pes ! i)) [0..<3]) =
      [\<lparr>ri_index = 1, ri_kind = DsetCreate, ri_path = Some ''/d'', ri_type = 5, ri_space = 6, ri_dcpl = Some 8, ri_payload = []\<rparr>,
       \<lparr>ri_index = 2, ri_kind = DsetWrite, ri_path = Some ''/d'', ri_type = 5, ri_space = 6, ri_dcpl = None, ri_payload = [1, 2]\<rparr>,
       \<lparr>ri_index = 0, ri_kind = Attr, ri_path = Some ''/d@u'', ri_type = 3, ri_space = 4, ri_dcpl = None, ri_payload = [7]\<rparr>]"
    by (simp add: upt_rec late_pe_def item_of_def h5_example_def encode_type_def encode_space_def encode_dcpl_def)
  have "\<exists>fs1 manifest buf plen fs2.
    build_manifest h5_example Some False ?fs = Some (fs1, Inr (manifest, buf, plen)) \<and>
    replay_manifest h5_example Some log_item manifest buf (Some (fs_pending ?fs)) fs1 [] =
      Some (fs2, map (item_of h5_example (fs_pending ?fs))
        (filter (\<lambda>i. \<not> late_pe (fs_pending ?fs ! i)) [0..<length (fs_pending ?fs)] @
         filter (\<lambda>i. late_pe (fs_pending ?fs ! i)) [0..<length (fs_pending ?fs)]), Inr ()) \<and>
    tc_ok (fs_write_cache fs2) \<and> tc_ok (fs_replay_cache fs2) \<and>
    tc_abs (fs_write_cache fs2) = tc_abs (fs_replay_cache fs2)"
    by (rule manifest_roundtrip [where maj = 2 and minor = 0 and rel = 0])
       (use dec in \<open>simp_all add: file_state_init_def reader_init_def h5_example_def\<close>)
  moreover have "fs_pending fs1 = fs_pending fs" if "build_manifest h5_example Some False fs = Some (fs1, r)" for fs fs1 r
    using that by (auto simp: build_manifest_def bind_eq_Some_conv Let_def)
  moreover have "fs_pending ?fs = ?pes" "length ?pes = 3" by simp_all
  ultimately show ?thesis using items by metis
qed

subsection \<open>Dropping a built step\<close>

lemma build_manifest_decodable:
  assumes "list_all (decodable h) (fs_pending fs)" "tc_ok (fs_write_cache fs)"
    and "\<And>st. \<exists>b. finalize st = Some b \<and> as_root b = Some st"
  shows "\<exists>tc m. let pes = fs_pending fs; types = tc_abs (fs_write_cache fs) in
    build_manifest h finalize want fs = Some (fs\<lparr>fs_write_cache := tc\<rparr>, Inr (m,
      (if want \<and> payload_sum pes \<noteq> 0 then Some (concat (map pe_payload pes)) else None), payload_sum pes)) \<and>
    tc_ok tc \<and> tc_abs tc = foldl (next_types h) types pes \<and>
    as_root m = Some \<lparr>st_physical_step = fs_physical_step fs, st_logical_ids = fs_logical_ids fs,
              st_wall_time_ns = fs_wall_time_ns fs, st_hdf5_version = hdf5_version h,
              st_entries = entries_of h types 0 pes, st_payload_bytes = payload_sum pes\<rparr>"
proof -
  let ?pes = "fs_pending fs"
  let ?buf = "if want \<and> payload_sum ?pes \<noteq> 0 then Some (concat (map pe_payload ?pes)) else None"
  let ?st = "\<lparr>st_physical_step = fs_physical_step fs, st_logical_ids = fs_logical_ids fs,
              st_wall_time_ns = fs_wall_time_ns fs, st_hdf5_version = hdf5_version h,
              st_entries = entries_of h (tc_abs (fs_write_cache fs)) 0 ?pes, st_payload_bytes = payload_sum ?pes\<rparr>"
  obtain tc where b: "build_entries h want (fs_write_cache fs) 0 None ?pes =
        Some (tc, Inr (entries_of h (tc_abs (fs_write_cache fs)) 0 ?pes, payload_sum ?pes, ?buf))"
      "tc_ok tc" "tc_abs tc = foldl (next_types h) (tc_abs (fs_write_cache fs)) ?pes"
    using build_entries_ok [OF assms(2,1), of want 0 None] by auto
  obtain m where "finalize ?st = Some m" "as_root m = Some ?st" using assms(3) by blast
  then show ?thesis using b by (intro exI [of _ tc] exI [of _ m]) (simp add: build_manifest_def Let_def split del: if_split)
qed

text \<open>A write whose datatype the builder already recorded but the replayer never saw.\<close>

lemma omitted_type_fails:
  assumes "fs_pending fs = [pe]" "pe_kind pe = DsetWrite" "decodable h pe"
    "tc_ok (fs_write_cache fs)" "tc_ok (fs_replay_cache fs)"
    "tc_abs (fs_write_cache fs) (the (pe_path pe)) = encode_type h (pe_type_id pe)"
    "tc_abs (fs_replay_cache fs) (the (pe_path pe)) = None"
    "\<And>st. \<exists>b. finalize st = Some b \<and> as_root b = Some st"
    "H5get_libversion h = (maj, minor, rel)" "rel < 1000" "maj * 1000000 + minor * 1000 + rel < 2 ^ 32"
  shows "\<exists>fs2 m b n. build_manifest h finalize want fs = Some (fs2, Inr (m, b, n)) \<and> fs_pending fs2 = [pe] \<and>
    (\<forall>w. \<exists>fs3. replay_manifest h as_root ap m b (Some [pe]) fs2 w = Some (fs3, w, Inl EFail))"
proof -
  let ?types = "tc_abs (fs_write_cache fs)"
  let ?buf = "if want \<and> payload_sum [pe] \<noteq> 0 then Some (concat (map pe_payload [pe])) else None"
  have dec: "list_all (decodable h) (fs_pending fs)" using assms(1,3) by simp
  obtain tc m where b: "build_manifest h finalize want fs = Some (fs\<lparr>fs_write_cache := tc\<rparr>, Inr (m, ?buf, payload_sum [pe]))"
    "as_root m = Some \<lparr>st_physical_step = fs_physical_step fs, st_logical_ids = fs_logical_ids fs,
       st_wall_time_ns = fs_wall_time_ns fs, st_hdf5_version = hdf5_version h,
       st_entries = entries_of h ?types 0 [pe], st_payload_bytes = payload_sum [pe]\<rparr>"
    using build_manifest_decodable [OF dec assms(4,8), of want] unfolding assms(1) Let_def by blast
  have omitted: "wire_type h ?types pe = []"
    using assms(2,3,6) by (auto simp: wire_type_def decodable_def split: option.splits)
  let ?e = "entry_of h ?types pe 0" and ?n = "length (pe_payload pe)"
  have f: "en_kind ?e = DsetWrite" "en_path ?e = pe_path pe" "en_type_enc ?e = []" "en_payload_off ?e = 0" "en_payload_len ?e = ?n"
    using assms(2) omitted by (simp_all add: entry_of_def)
  have g: "\<not> (?n > 0 \<and> ?buf \<noteq> None \<and> (0 > payload_sum [pe] \<or> ?n > payload_sum [pe] - 0))"
    "\<not> (?n > 0 \<and> entry_src ?buf (Some [pe]) 0 0 = None)"
    by (simp_all add: entry_src_def payload_sum_def)
  have lk: "type_cache_lookup (fs_replay_cache fs) (the (pe_path pe)) = Some None"
    using assms(7) type_cache_lookup_abs [OF assms(5)] by simp
  have "replay_entry h ?buf (Some [pe]) (payload_sum [pe]) n (fs_replay_cache fs) (rd_paths (fs_reader fs)) 0 ?e =
      Some ((fs_replay_cache fs, rd_paths (fs_reader fs)), Inl EFail)" for n
    unfolding replay_entry_def Let_def f if_not_P [OF g(1)] if_not_P [OF g(2)] by (simp add: lk)
  moreover have "replay_order (entries_of h ?types 0 [pe]) = [0]"
    using assms(2) by (simp add: replay_order_split is_late_def entry_of_def)
  ultimately have "\<exists>fs3. replay_manifest h as_root ap m ?buf (Some [pe]) (fs\<lparr>fs_write_cache := tc\<rparr>) w = Some (fs3, w, Inl EFail)" for w
    using b(2) hdf5_version_minor [OF assms(9-11)] assms(9) by (simp add: replay_manifest_def split del: if_split)
  then show ?thesis using b(1) assms(1) by (intro exI [of _ "fs\<lparr>fs_write_cache := tc\<rparr>"] exI conjI) auto
qed

text \<open>
  The omission is not sound across a step that is built but not replayed (a failed replay,
  or a spilled step not yet drained): when the same write is captured again, its manifest
  omits the datatype that the replay side never saw, and replaying it fails.
\<close>

theorem dropped_step_breaks_next_write:
  assumes "fs_pending fs = [pe]" and "pe_kind pe = DsetWrite" and "decodable h pe"
    and "tc_ok (fs_write_cache fs)" and "tc_ok (fs_replay_cache fs)"
    and "tc_abs (fs_replay_cache fs) (the (pe_path pe)) = None"
    and "\<And>st. \<exists>b. finalize st = Some b \<and> as_root b = Some st"
    and "H5get_libversion h = (maj, minor, rel)" and "rel < 1000" and "maj * 1000000 + minor * 1000 + rel < 2 ^ 32"
  shows "\<exists>fs1 r1 fs2 m2 b2 n2 fs3 w. build_manifest h finalize False fs = Some (fs1, Inr r1) \<and>
    build_manifest h finalize False fs1 = Some (fs2, Inr (m2, b2, n2)) \<and>
    replay_manifest h as_root log_item m2 b2 (Some [pe]) fs2 [] = Some (fs3, w, Inl EFail)"
proof -
  have dec: "list_all (decodable h) (fs_pending fs)" using assms(1,3) by simp
  obtain tc r where b: "build_manifest h finalize False fs = Some (fs\<lparr>fs_write_cache := tc\<rparr>, Inr r)" "tc_ok tc"
    "tc_abs tc = next_types h (tc_abs (fs_write_cache fs)) pe"
    using build_manifest_decodable [OF dec assms(4,7), of False] unfolding assms(1) Let_def by auto
  have "tc_abs tc (the (pe_path pe)) = encode_type h (pe_type_id pe)"
    using b(3) assms(2,3) by (auto simp: next_types_def decodable_def split: option.splits)
  then show ?thesis
    using b(1) omitted_type_fails [where fs = "fs\<lparr>fs_write_cache := tc\<rparr>" and want = False and ap = log_item,
        OF _ assms(2,3) _ _ _ _ assms(7-10)] assms(1,5,6) b(2) by fastforce
qed

theorem dropped_step_breaks_next_write_witness:
  "\<exists>fs1 r1 fs2 m2 b2 n2 fs3 w.
    build_manifest h5_example Some False ((file_state_init False)\<lparr>fs_pending :=
      [\<lparr>pe_kind = DsetWrite, pe_path = Some ''/d'', pe_type_id = 5, pe_space_id = 6, pe_dcpl_id = -1, pe_payload = [1, 2]\<rparr>]\<rparr>) =
      Some (fs1, Inr r1) \<and>
    build_manifest h5_example Some False fs1 = Some (fs2, Inr (m2, b2, n2)) \<and>
    replay_manifest h5_example Some log_item m2 b2 (Some
      [\<lparr>pe_kind = DsetWrite, pe_path = Some ''/d'', pe_type_id = 5, pe_space_id = 6, pe_dcpl_id = -1, pe_payload = [1, 2]\<rparr>]) fs2 [] =
      Some (fs3, w, Inl EFail)"
  by (rule dropped_step_breaks_next_write [where maj = 2 and minor = 0 and rel = 0])
     (simp_all add: file_state_init_def h5_example_def decodable_def encode_type_def encode_space_def)

end
