(* ===== verification/VS_Queue.thy ===== *)
theory VS_Queue
  imports VS_Manifest "HOL-Library.Countable"
begin

text \<open>
  What happens to a step that ends: the ordinary replay, the queue policies (Block, Discard,
  Spill) that apply when a tracked reader is too far behind, the spill queue and its drain, and
  step retention.

  Everything outside the connector's own memory is a world of type \<open>'w\<close>, reached through the
  record \<open>env\<close>: the under-VOL (making and unlinking a step group, applying a replayed entry),
  the reader-progress query of the transport, the BAKE client, MPI reductions, and the passing
  of time. An MPI reduction returns \<open>None\<close> when it fails. The connector is modelled as built
  with Mercury; \<open>e_have_bake\<close> and \<open>e_has_comm\<close> are the other two configurations.
  Diagnostics are not modelled. Step numbers are far from \<open>2 ^ 64\<close> and do not wrap;
  sums with the user's \<open>reserve_slots\<close> do. Host integers are little-endian.
\<close>

record 'w env =
  e_h5 :: h5api
  e_finalize :: "vs_step \<Rightarrow> byte list option"
  e_as_root :: "byte list \<Rightarrow> vs_step option"
  e_verify :: "byte list \<Rightarrow> bool"
  e_apply_entry :: "'w \<Rightarrow> replay_item \<Rightarrow> 'w \<times> bool"
  e_stage_payload :: bool
  e_add_region :: "'w \<Rightarrow> byte list \<Rightarrow> 'w"
  e_ensure_group :: "'w \<Rightarrow> path \<Rightarrow> 'w \<times> bool"
  e_unlink :: "'w \<Rightarrow> path \<Rightarrow> 'w"
  e_owned :: "'w \<Rightarrow> nat \<Rightarrow> bool"
  e_min_acked :: "'w \<Rightarrow> nat option"
  e_sleep :: "'w \<Rightarrow> 'w"
  e_has_comm :: bool
  e_reduce_min :: "'w \<Rightarrow> nat \<Rightarrow> nat option"
  e_reduce_or :: "'w \<Rightarrow> bool \<Rightarrow> bool option"
  e_reduce_and :: "'w \<Rightarrow> bool \<Rightarrow> bool option"
  e_replay_parallel :: "file_state \<Rightarrow> 'w \<Rightarrow> (file_state \<times> 'w \<times> unit cres) option"
  e_have_bake :: bool
  e_bake_up :: "'w \<Rightarrow> bool"
  e_bake_start :: "'w \<Rightarrow> 'w"
  e_bake_write :: "'w \<Rightarrow> byte list \<Rightarrow> 'w \<times> string option"
  e_bake_read :: "'w \<Rightarrow> string \<Rightarrow> nat \<Rightarrow> byte list option"
  e_bake_remove :: "'w \<Rightarrow> string \<Rightarrow> 'w"

definition replay_step :: "'w env \<Rightarrow> file_state \<Rightarrow> 'w \<Rightarrow> (file_state \<times> 'w \<times> unit cres) option" where
  "replay_step env fs w =
     Option.bind (build_manifest (e_h5 env) (e_finalize env) (e_stage_payload env) fs) (\<lambda>(fs, r).
       case r of
         Inl e \<Rightarrow> Some (fs, w, Inl EFail)
       | Inr (manifest, buf, plen) \<Rightarrow>
           (let w = (if fs_transport fs \<and> buf \<noteq> None \<and> plen > 0 then e_add_region env w (the buf) else w) in
            replay_manifest (e_h5 env) (e_as_root env) (e_apply_entry env) manifest buf (Some (fs_pending fs)) fs w))"

definition discard_step :: "'w env \<Rightarrow> file_state \<Rightarrow> 'w \<Rightarrow> 'w \<times> unit cres" where
  "discard_step env fs w =
     (case e_ensure_group env w (step_path (fs_physical_step fs) []) of
        (w, ok) \<Rightarrow> (w, if ok then Inr () else Inl EFail))"

subsection \<open>Spill\<close>

text \<open>The region: two host \<open>uint64_t\<close> lengths, the manifest, the payload.\<close>

definition spill_blob :: "byte list \<Rightarrow> byte list \<Rightarrow> byte list" where
  "spill_blob manifest payload =
     put_u64le (of_nat (length manifest)) @ put_u64le (of_nat (length payload)) @ manifest @ payload"

definition spill_step :: "'w env \<Rightarrow> file_state \<Rightarrow> 'w \<Rightarrow> (file_state \<times> 'w \<times> unit cres) option" where
  "spill_step env fs w =
     (case discard_step env fs w of
        (w, Inl e) \<Rightarrow> Some (fs, w, Inl EFail)
      | (w, Inr _) \<Rightarrow>
          (let w = (if \<not> e_bake_up env w \<and> fs_transport fs then e_bake_start env w else w) in
           if \<not> e_bake_up env w then Some (fs, w, Inl EFail)
           else
             Option.bind (build_manifest (e_h5 env) (e_finalize env) True fs) (\<lambda>(fs, r).
               case r of
                 Inl e \<Rightarrow> Some (fs, w, Inl EFail)
               | Inr (manifest, buf, plen) \<Rightarrow>
                   (let combined = spill_blob manifest (case buf of None \<Rightarrow> [] | Some b \<Rightarrow> b) in
                    case e_bake_write env w combined of
                      (w, None) \<Rightarrow> Some (fs, w, Inl EFail)
                    | (w, Some desc) \<Rightarrow>
                        Some (fs\<lparr>fs_pending_spill := fs_pending_spill fs @
                                   [\<lparr>sp_physical_step = fs_physical_step fs, sp_desc = desc, sp_size = length combined\<rparr>]\<rparr>,
                              w, Inr ())))))"

text \<open>
  One entry of the drain loop: the region is read back, split and replayed. \<open>EOob\<close> marks a read
  outside the region.
\<close>

definition drain_entry :: "'w env \<Rightarrow> file_state \<Rightarrow> 'w \<Rightarrow> spill_entry \<Rightarrow> (file_state \<times> 'w \<times> unit cres) option" where
  "drain_entry env fs w e =
     (case e_bake_read env w (sp_desc e) (sp_size e) of
        None \<Rightarrow> Some (fs, w, Inl EFail)
      | Some buf \<Rightarrow>
          if sp_size e < 16 then Some (fs, w, Inl EFail)
          else
            (case (rd_u64le buf 0, rd_u64le buf 8) of
               (Inr m64, Inr p64) \<Rightarrow>
                 (let mlen = unat m64; plen = unat p64 in
                  if sp_size e \<noteq> wrap64 (16 + mlen + plen) then Some (fs, w, Inl EFail)
                  else case mem_read buf 16 mlen of
                    Inl err \<Rightarrow> Some (fs, w, Inl err)
                  | Inr manifest \<Rightarrow>
                      if \<not> e_verify env manifest then Some (fs, w, Inl EFail)
                      else replay_manifest (e_h5 env) (e_as_root env) (e_apply_entry env) manifest (Some (drop (16 + mlen) buf)) None fs w)
             | _ \<Rightarrow> Some (fs, w, Inl EOob)))"

fun drain_loop ::
  "'w env \<Rightarrow> nat \<Rightarrow> file_state \<Rightarrow> 'w \<Rightarrow> spill_entry list \<Rightarrow> (file_state \<times> 'w \<times> spill_entry list \<times> unit cres) option" where
  "drain_loop env min_acked fs w [] = Some (fs, w, [], Inr ())"
| "drain_loop env min_acked fs w (e # es) =
     (if sp_physical_step e > wrap64 (min_acked + fs_reserve_slots fs) then Some (fs, w, e # es, Inr ())
      else
        Option.bind (drain_entry env fs w e) (\<lambda>(fs, w, r).
          case r of
            Inl err \<Rightarrow> Some (fs, w, e # es, Inl err)
          | Inr _ \<Rightarrow> drain_loop env min_acked fs (e_bake_remove env w (sp_desc e)) es))"

definition drain_spill :: "'w env \<Rightarrow> nat \<Rightarrow> file_state \<Rightarrow> 'w \<Rightarrow> (file_state \<times> 'w \<times> unit cres) option" where
  "drain_spill env min_acked fs w =
     Option.bind (drain_loop env min_acked fs w (fs_pending_spill fs)) (\<lambda>(fs, w, rest, r).
       Some (fs\<lparr>fs_pending_spill := rest\<rparr>, w, r))"

subsection \<open>Agreement across ranks\<close>

definition queue_lag_view :: "'w env \<Rightarrow> 'w \<Rightarrow> nat option" where
  "queue_lag_view env w =
     (let local = e_min_acked env w; local_min = (case local of None \<Rightarrow> U64_MAX | Some m \<Rightarrow> m) in
      if e_has_comm env
      then case e_reduce_min env w local_min of
             None \<Rightarrow> None
           | Some recv \<Rightarrow>
               (case e_reduce_or env w (local \<noteq> None) of
                  None \<Rightarrow> None
                | Some have_recv \<Rightarrow> if have_recv then Some recv else None)
      else local)"

definition queue_agree_or :: "'w env \<Rightarrow> 'w \<Rightarrow> bool \<Rightarrow> bool" where
  "queue_agree_or env w local =
     (if e_has_comm env then (case e_reduce_or env w local of None \<Rightarrow> True | Some g \<Rightarrow> g) else local)"

definition queue_agree_and :: "'w env \<Rightarrow> 'w \<Rightarrow> bool \<Rightarrow> bool" where
  "queue_agree_and env w local =
     (if e_has_comm env then (case e_reduce_and env w local of None \<Rightarrow> False | Some g \<Rightarrow> g) else local)"

subsection \<open>Retention\<close>

definition unlink_step :: "'w env \<Rightarrow> 'w \<Rightarrow> nat \<Rightarrow> 'w" where
  "unlink_step env w n = e_unlink env w (step_path n [])"

definition retention_drop_oldest :: "'w env \<Rightarrow> file_state \<times> 'w \<Rightarrow> file_state \<times> 'w" where
  "retention_drop_oldest env = (\<lambda>(fs, w).
     (fs\<lparr>fs_retain_bytes := tl (fs_retain_bytes fs), fs_retain_floor := fs_retain_floor fs + 1\<rparr>,
      unlink_step env w (fs_retain_floor fs)))"

function retain_by_steps :: "'w env \<Rightarrow> file_state \<times> 'w \<Rightarrow> file_state \<times> 'w" where
  "retain_by_steps env s =
     (let n = length (fs_retain_bytes (fst s)) in
      if n > 1 \<and> n > fs_retain_max_steps (fst s)
      then retain_by_steps env (retention_drop_oldest env s) else s)"
  by auto
termination
  by (relation "measure (\<lambda>(env, s). length (fs_retain_bytes (fst s)))") (auto simp: retention_drop_oldest_def)

function retain_by_bytes :: "'w env \<Rightarrow> nat \<Rightarrow> file_state \<times> 'w \<Rightarrow> file_state \<times> 'w" where
  "retain_by_bytes env tot s =
     (if length (fs_retain_bytes (fst s)) > 1 \<and> tot > fs_retain_max_bytes (fst s)
      then retain_by_bytes env (sub64 tot (hd (fs_retain_bytes (fst s)))) (retention_drop_oldest env s)
      else s)"
  by auto
termination
  by (relation "measure (\<lambda>(env, tot, s). length (fs_retain_bytes (fst s)))") (auto simp: retention_drop_oldest_def)

declare retain_by_steps.simps [simp del] retain_by_bytes.simps [simp del]

definition apply_retention :: "'w env \<Rightarrow> nat \<Rightarrow> file_state \<Rightarrow> 'w \<Rightarrow> file_state \<times> 'w" where
  "apply_retention env committed_bytes fs w =
     (if \<not> fs_retention_set fs \<or> fs_is_reader fs then (fs, w)
      else
        (let s = (fs\<lparr>fs_retain_bytes := fs_retain_bytes fs @ [committed_bytes]\<rparr>, w);
             s = (if fs_retain_max_steps fs > 0 then retain_by_steps env s else s) in
         if fs_retain_max_bytes fs > 0
         then retain_by_bytes env (foldl (\<lambda>t b. wrap64 (t + b)) 0 (fs_retain_bytes (fst s))) s
         else s))"

subsection \<open>The queue policy\<close>

text \<open>The wait of the Block policy: at most \<open>n\<close> polls.\<close>

fun block_wait :: "'w env \<Rightarrow> file_state \<Rightarrow> 'w \<Rightarrow> nat \<Rightarrow> 'w \<times> bool" where
  "block_wait env fs w 0 = (w, False)"
| "block_wait env fs w (Suc n) =
     (case queue_lag_view env w of
        None \<Rightarrow> (w, True)
      | Some cur_min \<Rightarrow>
          if fs_physical_step fs \<le> wrap64 (cur_min + fs_reserve_slots fs) then (w, True)
          else block_wait env fs (e_sleep env w) n)"

definition final_replay :: "'w env \<Rightarrow> file_state \<Rightarrow> 'w \<Rightarrow> (file_state \<times> 'w \<times> unit cres) option" where
  "final_replay env fs w = (if e_has_comm env then e_replay_parallel env fs w else replay_step env fs w)"

definition blocked_replay :: "'w env \<Rightarrow> file_state \<Rightarrow> 'w \<Rightarrow> (file_state \<times> 'w \<times> unit cres) option" where
  "blocked_replay env fs w = final_replay env fs (fst (block_wait env fs w 600))"

definition policy_step :: "'w env \<Rightarrow> file_state \<Rightarrow> 'w \<Rightarrow> (file_state \<times> 'w \<times> unit cres) option" where
  "policy_step env fs w =
     (case fs_queue_policy fs of
        QDiscard \<Rightarrow> (case discard_step env fs w of (w, r) \<Rightarrow> Some (fs, w, r))
      | QSpill \<Rightarrow>
          if e_have_bake env
          then
            if \<not> e_has_comm env
            then Option.bind (spill_step env fs w) (\<lambda>(fs, w, r).
                   case r of Inr _ \<Rightarrow> Some (fs, w, Inr ()) | Inl _ \<Rightarrow> blocked_replay env fs w)
            else blocked_replay env fs w
          else (case discard_step env fs w of (w, r) \<Rightarrow> Some (fs, w, r))
      | QBlock \<Rightarrow> blocked_replay env fs w)"

definition drain_first :: "'w env \<Rightarrow> file_state \<Rightarrow> 'w \<Rightarrow> (file_state \<times> 'w) option" where
  "drain_first env fs w =
     (if e_have_bake env \<and> \<not> e_has_comm env \<and> fs_pending_spill fs \<noteq> []
      then
        (let drain_to = (case queue_lag_view env w of None \<Rightarrow> fs_physical_step fs | Some m \<Rightarrow> m) in
         Option.bind (drain_spill env drain_to fs w) (\<lambda>(fs, w, _). Some (fs, w)))
      else Some (fs, w))"

definition apply_queue_policy :: "'w env \<Rightarrow> file_state \<Rightarrow> 'w \<Rightarrow> (file_state \<times> 'w \<times> unit cres) option" where
  "apply_queue_policy env fs w =
     (if queue_agree_and env w (fs_queue_policy_set fs \<and> fs_transport fs)
      then
        Option.bind (drain_first env fs w) (\<lambda>(fs, w).
          case queue_lag_view env w of
            None \<Rightarrow> final_replay env fs w
          | Some min_acked \<Rightarrow>
              if fs_physical_step fs > wrap64 (min_acked + fs_reserve_slots fs)
              then
                (if queue_agree_or env w (list_ex (e_owned env w) [0..<length (fs_pending fs)])
                 then final_replay env fs w
                 else policy_step env fs w)
              else final_replay env fs w)
      else final_replay env fs w)"

subsection \<open>Building and replaying always return\<close>

definition caches_ok :: "file_state \<Rightarrow> bool" where
  "caches_ok fs \<longleftrightarrow> tc_ok (fs_write_cache fs) \<and> tc_ok (fs_replay_cache fs) \<and> pi_ok (rd_paths (fs_reader fs))"

text \<open>What building and replaying change: the two caches and the path index, nothing else.\<close>

definition same_but_caches :: "file_state \<Rightarrow> file_state \<Rightarrow> bool" where
  "same_but_caches fs fs' \<longleftrightarrow> (\<exists>wc rc x.
     fs' = fs\<lparr>fs_write_cache := wc, fs_replay_cache := rc, fs_reader := (fs_reader fs)\<lparr>rd_paths := x\<rparr>\<rparr>)"

lemma same_but_cachesD:
  assumes "same_but_caches fs fs'"
  shows "fs_pending_spill fs' = fs_pending_spill fs" "fs_pending fs' = fs_pending fs" "fs_physical_step fs' = fs_physical_step fs"
    "fs_reserve_slots fs' = fs_reserve_slots fs" "fs_queue_policy fs' = fs_queue_policy fs" "fs_transport fs' = fs_transport fs"
    "fs_step_state fs' = fs_step_state fs" "fs_is_reader fs' = fs_is_reader fs" "fs_pending_bytes fs' = fs_pending_bytes fs"
    "fs_logical_ids fs' = fs_logical_ids fs" "fs_retention_set fs' = fs_retention_set fs"
    "fs_retain_floor fs' = fs_retain_floor fs" "fs_retain_bytes fs' = fs_retain_bytes fs" "fs_schema fs' = fs_schema fs"
  using assms by (auto simp: same_but_caches_def)

lemma same_but_caches_refl [simp]: "same_but_caches fs fs"
  unfolding same_but_caches_def by (intro exI [of _ "fs_write_cache fs"] exI [of _ "fs_replay_cache fs"] exI [of _ "rd_paths (fs_reader fs)"]) simp

lemma same_but_caches_trans:
  assumes "same_but_caches fs fs1" "same_but_caches fs1 fs2"
  shows "same_but_caches fs fs2"
proof -
  obtain wc rc x where "fs2 = fs1\<lparr>fs_write_cache := wc, fs_replay_cache := rc, fs_reader := (fs_reader fs1)\<lparr>rd_paths := x\<rparr>\<rparr>"
    using assms(2) by (auto simp: same_but_caches_def)
  then have "fs2 = fs\<lparr>fs_write_cache := wc, fs_replay_cache := rc, fs_reader := (fs_reader fs)\<lparr>rd_paths := x\<rparr>\<rparr>"
    using assms(1) by (auto simp: same_but_caches_def)
  then show ?thesis unfolding same_but_caches_def by blast
qed

lemma build_entry_total: "tc_ok tc \<Longrightarrow> \<exists>tc' r. build_entry h tc pe off = Some (tc', r) \<and> tc_ok tc'"
proof -
  assume ok: "tc_ok tc"
  then have "type_cache_lookup tc (the (pe_path pe)) = Some (tc_abs tc (the (pe_path pe)))" by (rule type_cache_lookup_abs)
  moreover obtain tc' where "type_cache_upsert tc (the (pe_path pe)) (the (encode_type h (pe_type_id pe))) = Some tc'" "tc_ok tc'"
    using type_cache_upsert_abs [OF ok] by blast
  ultimately show ?thesis using ok by (auto simp: build_entry_def Let_def split: option.split)
qed

lemma build_entries_total: "tc_ok tc \<Longrightarrow> \<exists>tc' r. build_entries h want tc off buf pes = Some (tc', r) \<and> tc_ok tc'"
proof (induction pes arbitrary: tc off buf)
  case (Cons pe pes)
  obtain tc1 r where b: "build_entry h tc pe off = Some (tc1, r)" "tc_ok tc1" using build_entry_total [OF Cons.prems] by blast
  show ?case
  proof (cases r)
    case (Inr e)
    then show ?thesis
      using b(1) Cons.IH [OF b(2), of "off + length (pe_payload pe)"
          "if pe_payload pe \<noteq> [] \<and> want then Some ((case buf of None \<Rightarrow> [] | Some b \<Rightarrow> b) @ pe_payload pe) else buf"]
      by (fastforce split del: if_split)
  qed (use b in simp)
qed simp

lemma build_manifest_total:
  assumes "caches_ok fs"
  shows "\<exists>fs' r. build_manifest h f want fs = Some (fs', r) \<and> caches_ok fs' \<and> same_but_caches fs fs'"
proof -
  obtain tc r where "build_entries h want (fs_write_cache fs) 0 None (fs_pending fs) = Some (tc, r)" "tc_ok tc"
    using build_entries_total assms unfolding caches_ok_def by blast
  moreover have "same_but_caches fs (fs\<lparr>fs_write_cache := tc\<rparr>)"
    unfolding same_but_caches_def by (intro exI [of _ tc] exI [of _ "fs_replay_cache fs"] exI [of _ "rd_paths (fs_reader fs)"]) simp
  ultimately show ?thesis using assms by (simp add: build_manifest_def caches_ok_def)
qed

lemma replay_entry_total:
  assumes "tc_ok tc" "pi_ok x"
  shows "\<exists>tc' x' r. replay_entry h buf pending plen n tc x i e = Some ((tc', x'), r) \<and> tc_ok tc' \<and> pi_ok x'"
proof -
  obtain te where lk: "(if en_kind e = DsetWrite \<and> en_type_enc e = [] then type_cache_lookup tc (the (en_path e))
      else Some (Some (en_type_enc e))) = Some te"
    using type_cache_lookup_abs [OF assms(1)] by metis
  obtain tc' where up: "(if en_kind e = DsetWrite \<and> en_type_enc e \<noteq> [] then type_cache_upsert tc (the (en_path e)) (en_type_enc e)
      else Some tc) = Some tc'" "tc_ok tc'"
    using type_cache_upsert_abs [OF assms(1)] assms(1) by metis
  obtain x' where x': "(case en_path e of
                 None \<Rightarrow> Some x
               | Some path \<Rightarrow>
                   if en_kind e = DsetCreate \<or> en_kind e = Attr \<or> en_kind e = Link
                   then Option.bind (path_index_add x path n) (\<lambda>x. if en_kind e = Link then path_index_mark_link x path else Some x)
                   else Some x) = Some x'" "pi_ok x'"
    using replay_paths_ok [OF assms(2)] by blast
  define rest where "rest = (\<lambda>dcpl :: hid option option. \<lambda>item :: hid option \<Rightarrow> replay_item cres. case dcpl of
      None \<Rightarrow> Some ((tc', x'), Inl EFail) | Some d \<Rightarrow> Some ((tc', x'), item d))"
  have rest: "\<exists>r. rest d it = Some ((tc', x'), r)" for d it by (cases d) (simp_all add: rest_def)
  show ?thesis unfolding replay_entry_def Let_def lk Option.bind.simps x'(1) up(1) rest_def [symmetric]
    using assms up(2) x'(2) rest by (auto split: option.split)
qed

lemma replay_entries_total:
  assumes "tc_ok tc" "pi_ok x"
  shows "\<exists>tc' x' w' r. replay_entries h ap buf pending plen n es (tc, x) w is = Some ((tc', x'), w', r) \<and> tc_ok tc' \<and> pi_ok x'"
  using assms
proof (induction "is" arbitrary: tc x w)
  case (Cons i "is")
  obtain tc1 x1 r where e: "replay_entry h buf pending plen n tc x i (es ! i) = Some ((tc1, x1), r)" "tc_ok tc1" "pi_ok x1"
    using replay_entry_total [OF Cons.prems] by blast
  show ?case
  proof (cases r)
    case (Inr item)
    obtain w1 ok where a: "ap w item = (w1, ok)" by (cases "ap w item")
    show ?thesis using e Inr a Cons.IH [OF e(2,3), of w1] by (cases ok) auto
  qed (use e in auto)
qed auto

lemma replay_manifest_total:
  assumes "caches_ok fs"
  shows "\<exists>fs' w' r. replay_manifest h rt ap m buf pending fs w = Some (fs', w', r) \<and> caches_ok fs' \<and> same_but_caches fs fs'"
proof -
  have same: "same_but_caches fs (fs\<lparr>fs_replay_cache := tc, fs_reader := (fs_reader fs)\<lparr>rd_paths := x\<rparr>\<rparr>)" for tc x
    unfolding same_but_caches_def by (intro exI [of _ "fs_write_cache fs"] exI [of _ tc] exI [of _ x]) simp
  show ?thesis
  proof (cases "rt m")
    case (Some st)
    obtain tc x w' r where "replay_entries h ap buf pending (st_payload_bytes st) (st_physical_step st) (st_entries st)
        (fs_replay_cache fs, rd_paths (fs_reader fs)) w (replay_order (st_entries st)) = Some ((tc, x), w', r)" "tc_ok tc" "pi_ok x"
      using replay_entries_total [of "fs_replay_cache fs" "rd_paths (fs_reader fs)" h ap buf pending "st_payload_bytes st"
          "st_physical_step st" "st_entries st" w "replay_order (st_entries st)"] assms by (auto simp: caches_ok_def)
    then show ?thesis
      using Some assms same by (auto simp: replay_manifest_def caches_ok_def split: prod.split)
  qed (use assms in \<open>simp add: replay_manifest_def\<close>)
qed

subsection \<open>The spill queue\<close>

lemma drain_entry_total:
  assumes "caches_ok fs"
  shows "\<exists>fs' w' r. drain_entry env fs w e = Some (fs', w', r) \<and> caches_ok fs' \<and> same_but_caches fs fs'"
  using assms replay_manifest_total [OF assms]
  by (auto simp: drain_entry_def Let_def split: option.split sum.split)

text \<open>The entries the loop has replayed, in order, each successfully.\<close>

fun drain_chain :: "'w env \<Rightarrow> file_state \<Rightarrow> 'w \<Rightarrow> spill_entry list \<Rightarrow> file_state \<times> 'w \<Rightarrow> bool" where
  "drain_chain env fs w [] s = (s = (fs, w))"
| "drain_chain env fs w (e # es) s =
     (\<exists>fs1 w1. drain_entry env fs w e = Some (fs1, w1, Inr ()) \<and> drain_chain env fs1 (e_bake_remove env w1 (sp_desc e)) es s)"

lemma drain_loop_chain:
  assumes "caches_ok fs"
  shows "\<exists>fs' w' done rest r. drain_loop env m fs w es = Some (fs', w', rest, r) \<and> caches_ok fs' \<and> same_but_caches fs fs' \<and>
    es = done @ rest \<and> (\<forall>e \<in> set done. sp_physical_step e \<le> wrap64 (m + fs_reserve_slots fs)) \<and>
    (r = Inr () \<longrightarrow> drain_chain env fs w done (fs', w') \<and>
       (rest \<noteq> [] \<longrightarrow> sp_physical_step (hd rest) > wrap64 (m + fs_reserve_slots fs))) \<and>
    (r \<noteq> Inr () \<longrightarrow> rest \<noteq> [])"
  using assms
proof (induction es arbitrary: fs w)
  case Nil
  show ?case by (rule exI [of _ fs]) (use Nil in \<open>auto intro!: exI [of _ w]\<close>)
next
  case (Cons e es)
  show ?case
  proof (cases "sp_physical_step e > wrap64 (m + fs_reserve_slots fs)")
    case True
    then show ?thesis using Cons.prems by (auto intro!: exI [of _ fs])
  next
    case False
    obtain fs1 w1 r1 where d: "drain_entry env fs w e = Some (fs1, w1, r1)" "caches_ok fs1" "same_but_caches fs fs1"
      using drain_entry_total [OF Cons.prems, of env w e] by blast
    show ?thesis
    proof (cases r1)
      case (Inl err)
      then show ?thesis using False d by (auto intro!: exI [of _ fs1])
    next
      case (Inr u)
      obtain fs' w' dn rest r where i: "drain_loop env m fs1 (e_bake_remove env w1 (sp_desc e)) es = Some (fs', w', rest, r)"
        "caches_ok fs'" "same_but_caches fs1 fs'" "es = dn @ rest"
        "\<forall>e \<in> set dn. sp_physical_step e \<le> wrap64 (m + fs_reserve_slots fs1)"
        "r = Inr () \<longrightarrow> drain_chain env fs1 (e_bake_remove env w1 (sp_desc e)) dn (fs', w') \<and>
           (rest \<noteq> [] \<longrightarrow> sp_physical_step (hd rest) > wrap64 (m + fs_reserve_slots fs1))"
        "r \<noteq> Inr () \<longrightarrow> rest \<noteq> []"
        using Cons.IH [OF d(2), of "e_bake_remove env w1 (sp_desc e)"] by blast
      have "drain_loop env m fs w (e # es) = Some (fs', w', rest, r)" using False d(1) Inr i(1) by simp
      moreover have "same_but_caches fs fs'" using same_but_caches_trans d(3) i(3) by blast
      ultimately show ?thesis
        using False d Inr i same_but_cachesD(4) [OF d(3)]
        by (intro exI [of _ fs'] exI [of _ w'] exI [of _ "e # dn"] exI [of _ rest] exI [of _ r]) auto
    qed
  qed
qed

lemma window_split:
  fixes k :: nat
  assumes "sorted (map f (xs @ ys))" "\<forall>x \<in> set xs. f x \<le> k" "ys \<noteq> [] \<longrightarrow> f (hd ys) > k"
  shows "ys = filter (\<lambda>x. f x > k) (xs @ ys)"
proof -
  have "\<forall>y \<in> set ys. f y > k"
    using assms(1,3) by (cases ys) (auto simp: sorted_append)
  then show ?thesis using assms(2) by (simp add: filter_empty_conv leD flip: not_le)
qed

text \<open>A concrete environment for the examples: the world is the log of the step groups unlinked or made.\<close>

definition env_example :: "byte list \<Rightarrow> path list env" where
  "env_example region = \<lparr>e_h5 = h5_example, e_finalize = (\<lambda>st. Some [7]), e_as_root = (\<lambda>b. None), e_verify = (\<lambda>b. True),
     e_apply_entry = (\<lambda>w it. (w, True)), e_stage_payload = False, e_add_region = (\<lambda>w b. w),
     e_ensure_group = (\<lambda>w p. (w @ [p], True)), e_unlink = (\<lambda>w p. w @ [p]), e_owned = (\<lambda>w i. False),
     e_min_acked = (\<lambda>w. Some 0), e_sleep = (\<lambda>w. w), e_has_comm = False, e_reduce_min = (\<lambda>w n. Some n),
     e_reduce_or = (\<lambda>w b. Some b), e_reduce_and = (\<lambda>w b. Some b), e_replay_parallel = (\<lambda>fs w. Some (fs, w, Inr ())),
     e_have_bake = True, e_bake_up = (\<lambda>w. True), e_bake_start = (\<lambda>w. w), e_bake_write = (\<lambda>w b. (w, None)),
     e_bake_read = (\<lambda>w d n. Some region), e_bake_remove = (\<lambda>w d. w)\<rparr>"

lemma caches_ok_init: "caches_ok (file_state_init r)"
  by (simp add: caches_ok_def file_state_init_def reader_init_def)



text \<open>
  A spilled step survives the trip through node-local storage: reading back the region that
  \<open>spill_step\<close> wrote replays exactly the manifest and payload that were built.
\<close>

theorem spill_drain_roundtrip:
  assumes "e_bake_read env w (sp_desc e) (sp_size e) = Some (spill_blob manifest payload)"
    and "sp_size e = length (spill_blob manifest payload)" and "sp_size e \<le> U64_MAX" and "e_verify env manifest"
  shows "drain_entry env fs w e =
    replay_manifest (e_h5 env) (e_as_root env) (e_apply_entry env) manifest (Some payload) None fs w"
proof -
  let ?m = "put_u64le (of_nat (length manifest))" and ?p = "put_u64le (of_nat (length payload))"
  have len: "sp_size e = 16 + length manifest + length payload" using assms(2) by (simp add: spill_blob_def)
  then have "length manifest < 2 ^ 64" "length payload < 2 ^ 64" using assms(3) by (simp_all add: U64_MAX_def)
  then have "unat (of_nat (length manifest) :: u64) = length manifest" "unat (of_nat (length payload) :: u64) = length payload"
    by (simp_all add: unat_of_nat take_bit_nat_eq_self)
  moreover have "rd_u64le ([] @ ?m @ ?p @ manifest @ payload) 0 = Inr (of_nat (length manifest))"
    by (rule rd_append(2)) simp
  moreover have "rd_u64le (?m @ ?p @ manifest @ payload) 8 = Inr (of_nat (length payload))"
    by (rule rd_append(2)) simp
  moreover have "mem_read ((?m @ ?p) @ manifest @ payload) 16 (length manifest) = Inr manifest"
    by (rule mem_read_append) simp_all
  ultimately show ?thesis
    unfolding drain_entry_def assms(1) using assms(3,4) len by (simp add: spill_blob_def wrap64_id)
qed

theorem spill_drain_roundtrip_witness:
  "drain_entry (env_example (spill_blob [7] [1, 2])) (file_state_init False) []
     \<lparr>sp_physical_step = 0, sp_desc = ''r'', sp_size = 19\<rparr> = Some (file_state_init False, [], Inl EFail)"
proof -
  let ?e = "\<lparr>sp_physical_step = 0, sp_desc = ''r'', sp_size = 19\<rparr>"
  have "drain_entry (env_example (spill_blob [7] [1, 2])) (file_state_init False) [] ?e =
      replay_manifest h5_example (\<lambda>b. None) (\<lambda>w it. (w, True)) [7 :: byte] (Some [1, 2]) None (file_state_init False) []"
    using spill_drain_roundtrip [of "env_example (spill_blob [7] [1, 2])" "[]" ?e "[7]" "[1, 2]" "file_state_init False"]
    by (simp add: env_example_def spill_blob_def U64_MAX_val)
  then show ?thesis by (simp add: replay_manifest_def)
qed

text \<open>
  The length check of the drain is modulo \<open>2 ^ 64\<close>: a region whose recorded manifest length
  is larger than the region and whose two lengths add up to its size only after wrapping passes
  it, and the verifier is then run over memory past the region.
\<close>

theorem drain_length_check_wraps:
  assumes "e_bake_read env w (sp_desc e) (sp_size e) = Some buf" and "length buf = sp_size e" and "16 \<le> sp_size e"
    and "rd_u64le buf 0 = Inr mw" and "rd_u64le buf 8 = Inr pw"
    and "wrap64 (16 + unat mw + unat pw) = sp_size e" and "unat mw > sp_size e - 16"
  shows "drain_entry env fs w e = Some (fs, w, Inl EOob)"
proof -
  have "mem_read buf 16 (unat mw) = Inl EOob" using assms(2,3,7) by (simp add: mem_read_def)
  then show ?thesis using assms by (simp add: drain_entry_def)
qed

theorem drain_length_check_wraps_witness:
  "drain_entry (env_example (put_u64le (- 8) @ put_u64le 8)) (file_state_init False) []
     \<lparr>sp_physical_step = 0, sp_desc = ''r'', sp_size = 16\<rparr> = Some (file_state_init False, [], Inl EOob)"
proof -
  have r0: "rd_u64le (put_u64le (- 8) @ put_u64le 8) 0 = Inr (- 8)"
    using rd_append(2) [of "[]" 0 "- 8" "put_u64le 8"] by simp
  have r8: "rd_u64le (put_u64le (- 8) @ put_u64le 8) 8 = Inr 8"
    using rd_append(2) [of "put_u64le (- 8)" 8 8 "[]"] by simp
  have "unat (- 8 :: u64) = 18446744073709551608" by simp
  then show ?thesis
    using r0 r8 by (intro drain_length_check_wraps [where buf = "put_u64le (- 8) @ put_u64le 8" and mw = "- 8" and pw = 8])
      (simp_all add: env_example_def wrap64_def)
qed

subsection \<open>Retention keeps a suffix\<close>

lemma drop_oldest_iter:
  "(retention_drop_oldest env ^^ k) (fs, w) =
     (fs\<lparr>fs_retain_bytes := drop k (fs_retain_bytes fs), fs_retain_floor := fs_retain_floor fs + k\<rparr>,
      foldl (unlink_step env) w [fs_retain_floor fs..<fs_retain_floor fs + k])"
proof (induction k)
  case (Suc k)
  then show ?case by (simp add: retention_drop_oldest_def drop_Suc tl_drop)
qed simp

lemma retain_by_steps_iter:
  "\<exists>k. retain_by_steps env s = (retention_drop_oldest env ^^ k) s \<and>
     k = length (fs_retain_bytes (fst s)) - max 1 (fs_retain_max_steps (fst s))"
proof (induction env s rule: retain_by_steps.induct)
  case (1 env s)
  let ?n = "length (fs_retain_bytes (fst s))" and ?m = "fs_retain_max_steps (fst s)"
  show ?case
  proof (cases "?n > 1 \<and> ?n > ?m")
    case True
    have d: "fs_retain_bytes (fst (retention_drop_oldest env s)) = tl (fs_retain_bytes (fst s))"
      "fs_retain_max_steps (fst (retention_drop_oldest env s)) = ?m"
      by (simp_all add: retention_drop_oldest_def split: prod.split)
    have "retain_by_steps env s = (retention_drop_oldest env ^^ Suc (?n - 1 - max 1 ?m)) s"
      using "1.IH" [OF refl True] True d by (subst retain_by_steps.simps) (simp add: funpow_Suc_right del: funpow.simps)
    moreover have "Suc (?n - 1 - max 1 ?m) = ?n - max 1 ?m" using True by auto
    ultimately show ?thesis by metis
  next
    case False
    then have "?n - max 1 ?m = 0" by auto
    then show ?thesis using False by (subst retain_by_steps.simps) (auto simp: Let_def)
  qed
qed

lemma sum_list_suffix: "sum_list (drop k xs) \<le> sum_list (xs :: nat list)"
  by (metis append_take_drop_id le_add2 sum_list_append)

lemma retain_by_bytes_iter:
  assumes "tot = sum_list (fs_retain_bytes (fst s))" "tot \<le> U64_MAX"
  shows "\<exists>k. retain_by_bytes env tot s = (retention_drop_oldest env ^^ k) s \<and> k \<le> length (fs_retain_bytes (fst s)) - 1 \<and>
     (sum_list (drop k (fs_retain_bytes (fst s))) \<le> fs_retain_max_bytes (fst s) \<or> length (fs_retain_bytes (fst s)) \<le> Suc k) \<and>
     (\<forall>j < k. sum_list (drop j (fs_retain_bytes (fst s))) > fs_retain_max_bytes (fst s))"
  using assms
proof (induction env tot s rule: retain_by_bytes.induct)
  case (1 env tot s)
  let ?bs = "fs_retain_bytes (fst s)" and ?s' = "retention_drop_oldest env s"
  show ?case
  proof (cases "length ?bs > 1 \<and> tot > fs_retain_max_bytes (fst s)")
    case True
    obtain b bs where bs: "?bs = b # bs" "bs \<noteq> []" using True by (cases ?bs) auto
    have d: "fs_retain_bytes (fst ?s') = bs" "fs_retain_max_bytes (fst ?s') = fs_retain_max_bytes (fst s)"
      using bs by (cases s, simp add: retention_drop_oldest_def)+
    have sb: "sub64 tot (hd ?bs) = sum_list bs" "sum_list bs \<le> U64_MAX" using "1.prems" bs by (simp_all add: sub64_id)
    obtain k where k: "retain_by_bytes env (sum_list bs) ?s' = (retention_drop_oldest env ^^ k) ?s'" "k \<le> length bs - 1"
        "sum_list (drop k bs) \<le> fs_retain_max_bytes (fst s) \<or> length bs \<le> Suc k"
        "\<forall>j < k. sum_list (drop j bs) > fs_retain_max_bytes (fst s)"
      using "1.IH" [OF True] sb d by auto
    have "retain_by_bytes env tot s = (retention_drop_oldest env ^^ Suc k) s"
      using True k(1) sb(1) by (subst retain_by_bytes.simps) (simp add: funpow_Suc_right del: funpow.simps)
    moreover have "\<forall>j < Suc k. sum_list (drop j ?bs) > fs_retain_max_bytes (fst s)"
      using k(4) True "1.prems"(1) bs(1) by (auto simp: less_Suc_eq_0_disj)
    moreover have "Suc k \<le> length bs" using k(2) bs(2) by (cases bs) auto
    ultimately show ?thesis using k(3) bs(1) by (intro exI [of _ "Suc k"]) auto
  next
    case False
    then show ?thesis using "1.prems" by (subst retain_by_bytes.simps) (auto intro!: exI [of _ 0])
  qed
qed

lemma retain_by_bytes_drops:
  "\<exists>k. retain_by_bytes env tot s = (retention_drop_oldest env ^^ k) s \<and> k \<le> length (fs_retain_bytes (fst s)) - 1"
proof (induction env tot s rule: retain_by_bytes.induct)
  case (1 env tot s)
  let ?s' = "retention_drop_oldest env s"
  show ?case
  proof (cases "length (fs_retain_bytes (fst s)) > 1 \<and> tot > fs_retain_max_bytes (fst s)")
    case True
    obtain k where k: "retain_by_bytes env (sub64 tot (hd (fs_retain_bytes (fst s)))) ?s' = (retention_drop_oldest env ^^ k) ?s'"
        "k \<le> length (fs_retain_bytes (fst ?s')) - 1"
      using "1.IH" [OF True] by blast
    have "length (fs_retain_bytes (fst ?s')) = length (fs_retain_bytes (fst s)) - 1"
      by (simp add: retention_drop_oldest_def split: prod.split)
    moreover have "retain_by_bytes env tot s = (retention_drop_oldest env ^^ Suc k) s"
      using True k(1) by (subst retain_by_bytes.simps) (simp add: funpow_Suc_right del: funpow.simps)
    ultimately show ?thesis using k(2) True by (intro exI [of _ "Suc k"]) auto
  next
    case False
    then show ?thesis by (subst retain_by_bytes.simps) (auto intro!: exI [of _ 0])
  qed
qed

lemma apply_retention_drops:
  assumes "fs_retention_set fs" "\<not> fs_is_reader fs"
  shows "\<exists>k. k \<le> length (fs_retain_bytes fs) \<and> apply_retention env c fs w =
    (fs\<lparr>fs_retain_bytes := drop k (fs_retain_bytes fs @ [c]), fs_retain_floor := fs_retain_floor fs + k\<rparr>,
     foldl (unlink_step env) w [fs_retain_floor fs..<fs_retain_floor fs + k])"
proof -
  let ?D = "retention_drop_oldest env"
  define s where "s = (fs\<lparr>fs_retain_bytes := fs_retain_bytes fs @ [c]\<rparr>, w)"
  obtain k1 where k1: "(if fs_retain_max_steps fs > 0 then retain_by_steps env s else s) = (?D ^^ k1) s" "k1 \<le> length (fs_retain_bytes fs)"
    using retain_by_steps_iter [of env s] by (cases "fs_retain_max_steps fs > 0") (auto simp: s_def intro: that [of 0])
  have len: "length (fs_retain_bytes (fst ((?D ^^ k1) s))) = Suc (length (fs_retain_bytes fs)) - k1"
    by (simp add: s_def drop_oldest_iter)
  have ng: "\<not> (\<not> fs_retention_set fs \<or> fs_is_reader fs)" using assms by simp
  obtain k2 where k2: "apply_retention env c fs w = (?D ^^ k2) ((?D ^^ k1) s)" "k1 + k2 \<le> length (fs_retain_bytes fs)"
  proof (cases "fs_retain_max_bytes fs > 0")
    case True
    then show thesis
      using that retain_by_bytes_drops [of env _ "(?D ^^ k1) s"] k1(2) len
      unfolding apply_retention_def Let_def if_not_P [OF ng] s_def [symmetric] k1(1) by fastforce
  next
    case False
    then show thesis
      using that [of 0] k1(2) unfolding apply_retention_def Let_def if_not_P [OF ng] s_def [symmetric] k1(1) by simp
  qed
  have "apply_retention env c fs w = (?D ^^ (k1 + k2)) s"
    unfolding k2(1) by (metis add.commute comp_apply funpow_add)
  then show ?thesis using k2(2) by (intro exI [of _ "k1 + k2"]) (simp add: s_def drop_oldest_iter)
qed

lemma foldl_wrap_sum: "acc + sum_list bs \<le> U64_MAX \<Longrightarrow> foldl (\<lambda>t b. wrap64 (t + b)) acc bs = acc + sum_list bs"
  by (induction bs arbitrary: acc) (simp_all add: wrap64_id)

text \<open>
  (C17) Step retention: after a commit a number of the oldest retained steps are unlinked, oldest
  first, and the accounting keeps exactly the rest. The step just committed is never unlinked,
  both bounds hold afterwards except that a single step may exceed the byte bound, and the number
  is the least one: with one step fewer unlinked a bound would be violated.
\<close>

theorem retention_exact:
  assumes "fs_retention_set fs" and "\<not> fs_is_reader fs"
    and "sum_list (fs_retain_bytes fs) + committed \<le> U64_MAX"
  shows "\<exists>k. let bytes = fs_retain_bytes fs @ [committed]; floor = fs_retain_floor fs; kept = drop k bytes in
    apply_retention env committed fs w =
      (fs\<lparr>fs_retain_bytes := kept, fs_retain_floor := floor + k\<rparr>, foldl (unlink_step env) w [floor..<floor + k]) \<and>
    k \<le> length (fs_retain_bytes fs) \<and>
    (fs_retain_max_steps fs = 0 \<or> length kept \<le> fs_retain_max_steps fs) \<and>
    (fs_retain_max_bytes fs = 0 \<or> sum_list kept \<le> fs_retain_max_bytes fs \<or> length kept = 1) \<and>
    (\<forall>j < k. (fs_retain_max_steps fs \<noteq> 0 \<and> length (drop j bytes) > fs_retain_max_steps fs) \<or>
             (fs_retain_max_bytes fs \<noteq> 0 \<and> sum_list (drop j bytes) > fs_retain_max_bytes fs))"
proof -
  let ?bs = "fs_retain_bytes fs @ [committed]" and ?D = "retention_drop_oldest env"
  let ?ms = "fs_retain_max_steps fs" and ?mb = "fs_retain_max_bytes fs"
  define s where "s = (fs\<lparr>fs_retain_bytes := ?bs\<rparr>, w)"
  have iter: "(?D ^^ k) s = (fs\<lparr>fs_retain_bytes := drop k ?bs, fs_retain_floor := fs_retain_floor fs + k\<rparr>,
      foldl (unlink_step env) w [fs_retain_floor fs..<fs_retain_floor fs + k])" for k
    by (simp add: s_def drop_oldest_iter)
  define k1 where "k1 = (if ?ms > 0 then length ?bs - max 1 ?ms else 0)"
  have s1: "(if ?ms > 0 then retain_by_steps env s else s) = (?D ^^ k1) s"
    using retain_by_steps_iter [of env s] by (auto simp: k1_def s_def)
  have k1: "k1 < length ?bs" "?ms = 0 \<or> length ?bs - k1 \<le> ?ms" "\<forall>j < k1. ?ms \<noteq> 0 \<and> length ?bs - j > ?ms"
    by (auto simp: k1_def)
  have tot: "sum_list (drop k1 ?bs) \<le> U64_MAX" using assms(3) sum_list_suffix [of k1 ?bs] by simp
  obtain k2 where k2: "(if ?mb > 0 then retain_by_bytes env (foldl (\<lambda>t b. wrap64 (t + b)) 0 (drop k1 ?bs)) ((?D ^^ k1) s) else (?D ^^ k1) s)
        = (?D ^^ k2) ((?D ^^ k1) s)" "k1 + k2 < length ?bs"
      "?mb = 0 \<or> sum_list (drop (k1 + k2) ?bs) \<le> ?mb \<or> length ?bs \<le> Suc (k1 + k2)"
      "\<forall>j < k2. ?mb \<noteq> 0 \<and> sum_list (drop (k1 + j) ?bs) > ?mb"
  proof (cases "?mb > 0")
    case True
    have f: "fs_retain_bytes (fst ((?D ^^ k1) s)) = drop k1 ?bs" "fs_retain_max_bytes (fst ((?D ^^ k1) s)) = ?mb"
      by (simp_all only: iter fst_conv) simp_all
    obtain k where k: "retain_by_bytes env (sum_list (drop k1 ?bs)) ((?D ^^ k1) s) = (?D ^^ k) ((?D ^^ k1) s)"
      "k \<le> length (drop k1 ?bs) - 1" "sum_list (drop k (drop k1 ?bs)) \<le> ?mb \<or> length (drop k1 ?bs) \<le> Suc k"
      "\<forall>j < k. sum_list (drop j (drop k1 ?bs)) > ?mb"
      using retain_by_bytes_iter [of "sum_list (drop k1 ?bs)" "(?D ^^ k1) s" env] tot unfolding f by blast
    have "foldl (\<lambda>t b. wrap64 (t + b)) 0 (drop k1 ?bs) = sum_list (drop k1 ?bs)" using foldl_wrap_sum [of 0 "drop k1 ?bs"] tot by (metis add_0)
    then show thesis
      using True k k1(1) unfolding drop_drop add.commute [of _ k1] by (intro that [of k]) auto
  next
    case False
    then show thesis using that [of 0] k1(1) by simp
  qed
  have fb: "fs_retain_bytes (fst ((?D ^^ k1) s)) = drop k1 ?bs" by (simp only: iter fst_conv) simp
  have ng: "\<not> (\<not> fs_retention_set fs \<or> fs_is_reader fs)" using assms(1,2) by simp
  have "apply_retention env committed fs w =
      (if ?mb > 0 then retain_by_bytes env (foldl (\<lambda>t b. wrap64 (t + b)) 0 (fs_retain_bytes (fst ((?D ^^ k1) s)))) ((?D ^^ k1) s)
       else (?D ^^ k1) s)"
    unfolding apply_retention_def Let_def if_not_P [OF ng] s_def [symmetric] s1 ..
  then have out: "apply_retention env committed fs w = (?D ^^ (k1 + k2)) s"
    unfolding fb k2(1) by (metis add.commute comp_apply funpow_add)
  have least: "\<forall>j < k1 + k2. (?ms \<noteq> 0 \<and> length (drop j ?bs) > ?ms) \<or> (?mb \<noteq> 0 \<and> sum_list (drop j ?bs) > ?mb)"
  proof (intro allI impI)
    fix j assume "j < k1 + k2"
    then show "(?ms \<noteq> 0 \<and> length (drop j ?bs) > ?ms) \<or> (?mb \<noteq> 0 \<and> sum_list (drop j ?bs) > ?mb)"
      using k1(3) k2(4) [rule_format, of "j - k1"] by (cases "j < k1") auto
  qed
  show ?thesis
    by (rule exI [of _ "k1 + k2"], unfold Let_def out iter) (use k1(2) k2(2,3) least in auto)
qed

theorem retention_exact_witness:
  "apply_retention (env_example []) 4 ((file_state_init False)\<lparr>fs_retention_set := True, fs_retain_max_steps := 2,
      fs_retain_bytes := [4, 4, 4]\<rparr>) [] =
    ((file_state_init False)\<lparr>fs_retention_set := True, fs_retain_max_steps := 2, fs_retain_bytes := [4, 4], fs_retain_floor := 2\<rparr>,
     [step_path 0 [], step_path 1 []])"
proof -
  let ?fs = "(file_state_init False)\<lparr>fs_retention_set := True, fs_retain_max_steps := 2, fs_retain_bytes := [4, 4, 4]\<rparr>"
  have pre: "fs_retention_set ?fs" "\<not> fs_is_reader ?fs" "sum_list (fs_retain_bytes ?fs) + 4 \<le> U64_MAX"
    by (simp_all add: file_state_init_def U64_MAX_val)
  have f: "fs_retain_bytes ?fs = [4, 4, 4]" "fs_retain_floor ?fs = 0" "fs_retain_max_steps ?fs = 2" "fs_retain_max_bytes ?fs = 0"
    by (simp_all add: file_state_init_def)
  obtain k where k: "apply_retention (env_example []) 4 ?fs [] =
      (?fs\<lparr>fs_retain_bytes := drop k ([4, 4, 4] @ [4]), fs_retain_floor := 0 + k\<rparr>, foldl (unlink_step (env_example [])) [] [0..<0 + k])"
    "k \<le> length [4 :: nat, 4, 4]" "length (drop k ([4 :: nat, 4, 4] @ [4])) \<le> 2" "\<forall>j < k. length (drop j ([4 :: nat, 4, 4] @ [4])) > 2"
    using retention_exact [OF pre, of "env_example []" "[]"] unfolding f Let_def by auto
  have "k = 2" using k(3) k(4) [rule_format, of "k - 1"] by (cases k) auto
  then show ?thesis
    using k(1) by (simp add: upt_rec unlink_step_def env_example_def file_state_init_def)
qed

subsection \<open>What the policy does to a step\<close>

lemma block_wait_sleeps: "\<exists>k \<le> n. fst (block_wait env fs w n) = (e_sleep env ^^ k) w"
proof (induction n arbitrary: w)
  case (Suc n)
  obtain k where "k \<le> n" "fst (block_wait env fs (e_sleep env w) n) = (e_sleep env ^^ k) (e_sleep env w)" using Suc.IH by blast
  then have "Suc k \<le> Suc n \<and> fst (block_wait env fs (e_sleep env w) n) = (e_sleep env ^^ Suc k) w"
    by (simp add: funpow_Suc_right del: funpow.simps)
  then show ?case by (fastforce split: option.split)
qed auto

text \<open>A reader is too far behind the step that is ending.\<close>

definition lagging :: "'w env \<Rightarrow> file_state \<Rightarrow> 'w \<Rightarrow> bool" where
  "lagging env fs w \<longleftrightarrow>
     (\<exists>m. queue_lag_view env w = Some m \<and> fs_physical_step fs > wrap64 (m + fs_reserve_slots fs))"

lemma blocked_replay_serial:
  assumes "\<not> e_has_comm env"
  shows "\<exists>k \<le> 600. blocked_replay env fs w = replay_step env fs ((e_sleep env ^^ k) w)"
proof -
  obtain k where "k \<le> 600" "fst (block_wait env fs w 600) = (e_sleep env ^^ k) w" using block_wait_sleeps [of 600 env fs w] by (elim exE conjE)
  then show ?thesis unfolding blocked_replay_def final_replay_def if_not_P [OF assms] by metis
qed

lemma policy_step_outcome:
  assumes "\<not> e_has_comm env" "policy_step env fs w = Some out"
  shows "\<exists>k \<le> 600. Some out = replay_step env fs ((e_sleep env ^^ k) w) \<or>
     (fs_queue_policy fs = QDiscard \<or> fs_queue_policy fs = QSpill \<and> \<not> e_have_bake env) \<and>
       (\<exists>w2 r. discard_step env fs w = (w2, r) \<and> out = (fs, w2, r)) \<or>
     fs_queue_policy fs = QSpill \<and> e_have_bake env \<and>
       (\<exists>fs2 w2 r. spill_step env fs w = Some (fs2, w2, r) \<and>
          (if r = Inr () then out = (fs2, w2, Inr ()) else Some out = replay_step env fs2 ((e_sleep env ^^ k) w2)))"
proof -
  consider (block) "fs_queue_policy fs = QBlock" | (spill) "fs_queue_policy fs = QSpill" "e_have_bake env"
    | (drop) "fs_queue_policy fs = QDiscard \<or> fs_queue_policy fs = QSpill \<and> \<not> e_have_bake env"
    by (cases "fs_queue_policy fs") auto
  then show ?thesis
  proof cases
    case block
    then show ?thesis using assms blocked_replay_serial [OF assms(1), of fs w] by (auto simp: policy_step_def)
  next
    case drop
    then show ?thesis using assms(2) by (auto simp: policy_step_def split: prod.splits)
  next
    case spill
    then obtain fs2 w2 r where s: "spill_step env fs w = Some (fs2, w2, r)"
      "Some out = (case r of Inr _ \<Rightarrow> Some (fs2, w2, Inr ()) | Inl _ \<Rightarrow> blocked_replay env fs2 w2)"
      using assms by (cases "spill_step env fs w") (auto simp: policy_step_def)
    obtain k where "k \<le> 600" "blocked_replay env fs2 w2 = replay_step env fs2 ((e_sleep env ^^ k) w2)"
      using blocked_replay_serial [OF assms(1)] by blast
    then show ?thesis using s spill by (cases r) auto
  qed
qed

lemma apply_policy_serial:
  assumes "\<not> e_has_comm env" "fs_queue_policy_set fs \<and> fs_transport fs" "drain_first env fs w = Some (fs1, w1)"
  shows "apply_queue_policy env fs w =
    (if lagging env fs1 w1 \<and> \<not> list_ex (e_owned env w1) [0..<length (fs_pending fs1)]
     then policy_step env fs1 w1 else replay_step env fs1 w1)"
  using assms
  by (cases "queue_lag_view env w1")
    (simp_all add: apply_queue_policy_def queue_agree_and_def queue_agree_or_def final_replay_def lagging_def)




text \<open>A concrete flat-buffer codec for the example: a step is the length of its buffer.\<close>

definition entry_tuple :: "vs_entry \<Rightarrow> nat \<times> path option \<times> byte list \<times> byte list \<times> byte list option \<times> nat \<times> nat" where
  "entry_tuple e = (case en_kind e of DsetCreate \<Rightarrow> 0 | DsetWrite \<Rightarrow> 1 | Attr \<Rightarrow> 2 | Group \<Rightarrow> 3 | Link \<Rightarrow> 4,
     en_path e, en_type_enc e, en_space_enc e, en_dcpl_enc e, en_payload_off e, en_payload_len e)"

definition entry_untuple :: "nat \<times> path option \<times> byte list \<times> byte list \<times> byte list option \<times> nat \<times> nat \<Rightarrow> vs_entry" where
  "entry_untuple = (\<lambda>(k, p, t, s, d, off, len). \<lparr>en_kind = [DsetCreate, DsetWrite, Attr, Group, Link] ! k, en_path = p, en_type_enc = t,
     en_space_enc = s, en_dcpl_enc = d, en_payload_off = off, en_payload_len = len\<rparr>)"

definition code_step :: "vs_step \<Rightarrow> byte list" where
  "code_step st = replicate (to_nat (st_physical_step st, st_logical_ids st, st_wall_time_ns st, st_hdf5_version st,
     map entry_tuple (st_entries st), st_payload_bytes st)) 0"

definition uncode_step :: "byte list \<Rightarrow> vs_step" where
  "uncode_step b = (case from_nat (length b) of (n, ids, t, v, es, pb) \<Rightarrow>
     \<lparr>st_physical_step = n, st_logical_ids = ids, st_wall_time_ns = t, st_hdf5_version = v,
      st_entries = map entry_untuple es, st_payload_bytes = pb\<rparr>)"

lemma uncode_code_step: "uncode_step (code_step st) = st"
proof -
  have "entry_untuple (entry_tuple e) = e" for e
    by (cases "en_kind e") (simp_all add: entry_tuple_def entry_untuple_def)
  then show ?thesis by (simp add: uncode_step_def code_step_def comp_def)
qed

abbreviation env_codec :: "path list env" where
  "env_codec \<equiv> (env_example [])\<lparr>e_finalize := \<lambda>st. Some (code_step st), e_as_root := \<lambda>b. Some (uncode_step b)\<rparr>"


end
