(* ===== verification/VS_Step.thy ===== *)
theory VS_Step
  imports VS_Queue
begin

text \<open>
  The step operations of \<open>H5VL__stream_file_optional_impl\<close>: opening and ending a step, jumping
  to a logical step, the policies, and what closing the file does to an open step; and the step
  machine of a serial writer with its invariant. The record \<open>senv\<close> adds to the environment of
  the queue what these handlers call: the transport (announcements, acknowledgements, the schema
  service, end of stream), the \<open>/stream\<close> overlay, a flush, the callbacks of a completion cell and
  the MPI barrier. A handler returns the state it leaves behind and its return code; \<open>None\<close> is
  a probe of a path map that never ends.
\<close>

record 'w senv =
  s_env :: "'w env"
  s_limit :: "string option"
  s_read_attr :: "'w \<Rightarrow> path \<Rightarrow> string \<Rightarrow> (hid \<times> hid \<times> hid \<times> byte list) option"
  s_file :: "'w \<Rightarrow> h5file"
  s_verify_root :: "byte list \<Rightarrow> vs_step option"
  s_barrier :: "'w \<Rightarrow> 'w"
  s_serve_backfill :: "file_state \<Rightarrow> 'w \<Rightarrow> 'w"
  s_ack :: "'w \<Rightarrow> nat \<Rightarrow> 'w"
  s_set_schema :: "'w \<Rightarrow> byte list \<Rightarrow> 'w"
  s_complete :: "'w \<Rightarrow> int \<Rightarrow> 'w"
  s_overlay :: "file_state \<Rightarrow> 'w \<Rightarrow> nat \<Rightarrow> 'w"
  s_broadcast :: "'w \<Rightarrow> nat \<Rightarrow> nat \<Rightarrow> 'w"
  s_flush :: "'w \<Rightarrow> 'w"
  s_end_of_stream :: "'w \<Rightarrow> bool"

abbreviation s_sync :: "'w senv \<Rightarrow> 'w \<Rightarrow> 'w" where
  "s_sync se w \<equiv> (if e_has_comm (s_env se) then s_barrier se w else w)"

definition begin_step :: "'w senv \<Rightarrow> nat list \<Rightarrow> nat \<Rightarrow> file_state \<Rightarrow> 'w \<Rightarrow> (file_state \<times> 'w \<times> unit cres) option" where
  "begin_step se logical_ids wall_time_ns fs w =
     (if fs_is_reader fs
      then
        Option.bind (reader_advance (s_file se w) (s_verify_root se) (fs_step_state fs) (fs_reader fs) None) (\<lambda>(r, res).
          case res of
            Inl e \<Rightarrow> Some (fs\<lparr>fs_reader := r\<rparr>, w, Inl e)
          | Inr st \<Rightarrow>
              Some (fs\<lparr>fs_reader := r, fs_step_state := st\<rparr>,
                    (if fs_transport fs then s_ack se w (rd_current_step r) else w), Inr ()))
      else
        (let w = s_sync se w in
         if fs_step_state fs \<noteq> NOT_IN_STEP then Some (fs, w, Inl EFail)
         else
           (let w = s_serve_backfill se fs w in
            Some (fs\<lparr>fs_logical_ids := logical_ids, fs_wall_time_ns := wall_time_ns, fs_step_state := IN_STEP\<rparr>, w, Inr ()))))"

text \<open>The end of a step, in the handler's order: fold, replay, publish, discard, complete, then commit or undo.\<close>

definition fold_pending :: "'w senv \<Rightarrow> file_state \<Rightarrow> 'w \<Rightarrow> file_state" where
  "fold_pending se fs w =
     fold_links (s_limit se) (e_h5 (s_env se)) (fold_group_attrs (s_limit se) (s_read_attr se w) fs)"

definition publish_step :: "'w senv \<Rightarrow> file_state \<Rightarrow> 'w \<Rightarrow> (file_state \<times> 'w) option" where
  "publish_step se fs w =
     Option.bind (publish_schema (e_h5 (s_env se)) (fs_transport fs) (fs_schema fs) (fs_pending fs) (of_nat (fs_physical_step fs)))
       (\<lambda>(sc, blob). Some (fs\<lparr>fs_schema := sc\<rparr>, case blob of None \<Rightarrow> w | Some b \<Rightarrow> s_set_schema se w b))"

definition resolve_completion :: "'w senv \<Rightarrow> bool \<Rightarrow> file_state \<Rightarrow> 'w \<Rightarrow> file_state \<times> 'w" where
  "resolve_completion se ok fs w =
     (case fs_completion fs of
        None \<Rightarrow> (fs, w)
      | Some _ \<Rightarrow> (fs\<lparr>fs_completion := None\<rparr>, s_complete se w (if ok then 1 else -1)))"

definition undo_step :: "'w senv \<Rightarrow> file_state \<Rightarrow> 'w \<Rightarrow> file_state \<times> 'w" where
  "undo_step se fs w =
     (let (fs, w) =
        (if e_has_comm (s_env se) then (fs, w)
         else (fs\<lparr>fs_reader := (fs_reader fs)\<lparr>rd_paths := path_index_drop_step (rd_paths (fs_reader fs)) (fs_physical_step fs)\<rparr>\<rparr>,
               unlink_step (s_env se) w (fs_physical_step fs)))
      in (fs\<lparr>fs_step_state := NOT_IN_STEP\<rparr>, w))"

definition commit_step :: "'w senv \<Rightarrow> nat \<Rightarrow> file_state \<Rightarrow> 'w \<Rightarrow> file_state \<times> 'w" where
  "commit_step se committed_bytes fs w =
     (let step = fs_physical_step fs;
          fs = fs\<lparr>fs_physical_step := step + 1, fs_step_state := NOT_IN_STEP\<rparr>;
          (fs, w) = apply_retention (s_env se) committed_bytes fs w;
          w = s_overlay se fs w step;
          w = (if fs_transport fs then s_broadcast se w step (fs_wall_time_ns fs) else w);
          (fs, w) = (if fs_flush_after_step fs then (fs\<lparr>fs_flush_after_step := False\<rparr>, s_flush se w) else (fs, w))
      in (fs, s_sync se w))"

definition end_step :: "'w senv \<Rightarrow> file_state \<Rightarrow> 'w \<Rightarrow> (file_state \<times> 'w \<times> unit cres) option" where
  "end_step se fs w =
     (if fs_step_state fs \<noteq> IN_STEP then Some (fs, w, Inl EFail)
      else
        (let fs = fold_pending se fs w;
             w = s_serve_backfill se fs w;
             fs = fs\<lparr>fs_step_state := COMMITTING\<rparr>;
             w = s_sync se w in
         Option.bind (apply_queue_policy (s_env se) fs w) (\<lambda>(fs, w, replay_ret).
           let committed_bytes = fs_pending_bytes fs; ok = (case replay_ret of Inl _ \<Rightarrow> False | Inr _ \<Rightarrow> True) in
           Option.bind (if ok then publish_step se fs w else Some (fs, w)) (\<lambda>(fs, w).
             let fs = (pending_discard_all fs)\<lparr>fs_logical_ids := []\<rparr>;
                 (fs, w) = resolve_completion se ok fs w in
             if ok then (case commit_step se committed_bytes fs w of (fs, w) \<Rightarrow> Some (fs, w, Inr ()))
             else (case undo_step se fs w of (fs, w) \<Rightarrow> Some (fs, w, Inl EFail))))))"

definition get_step_status :: "'w senv \<Rightarrow> file_state \<Rightarrow> 'w \<Rightarrow> step_status" where
  "get_step_status se fs w =
     (if fs_transport fs \<and> s_end_of_stream se w then EOS else fs_step_state fs)"

definition begin_logical_step :: "'w senv \<Rightarrow> nat \<Rightarrow> file_state \<Rightarrow> 'w \<Rightarrow> (file_state \<times> unit cres) option" where
  "begin_logical_step se logical_id fs w =
     (if \<not> fs_is_reader fs then Some (fs, Inl EFail)
      else
        Option.bind (if \<not> rd_index_built (fs_reader fs) then reader_build_index (s_file se w) (s_verify_root se) (fs_reader fs)
                     else Some (fs_reader fs, Inr ())) (\<lambda>(r, res).
          case res of
            Inl e \<Rightarrow> Some (fs\<lparr>fs_reader := r\<rparr>, Inl EFail)
          | Inr _ \<Rightarrow>
              (case map_of (rd_logical_map r) logical_id of
                 None \<Rightarrow> Some (fs\<lparr>fs_reader := r\<rparr>, Inl EFail)
               | Some phys \<Rightarrow>
                   Option.bind (reader_advance (s_file se w) (s_verify_root se) (fs_step_state fs) r (Some phys)) (\<lambda>(r, res).
                     case res of
                       Inl e \<Rightarrow> Some (fs\<lparr>fs_reader := r\<rparr>, Inl e)
                     | Inr st \<Rightarrow> Some (fs\<lparr>fs_reader := r, fs_step_state := st\<rparr>, Inr ())))))"

text \<open>
  \<open>H5Fget_logical_steps\<close>: the ids copied to the caller's array, of capacity \<open>cap\<close> (\<open>None\<close> when
  it passes no array), and the count it is told.
\<close>

definition get_logical_steps :: "'w senv \<Rightarrow> nat option \<Rightarrow> file_state \<Rightarrow> 'w \<Rightarrow> (file_state \<times> (nat list \<times> nat) cres) option" where
  "get_logical_steps se cap fs w =
     (if \<not> fs_is_reader fs then Some (fs, Inl EFail)
      else
        Option.bind (if \<not> rd_index_built (fs_reader fs) then reader_build_index (s_file se w) (s_verify_root se) (fs_reader fs)
                     else Some (fs_reader fs, Inr ())) (\<lambda>(r, res).
          case res of
            Inl e \<Rightarrow> Some (fs\<lparr>fs_reader := r\<rparr>, Inl EFail)
          | Inr _ \<Rightarrow>
              (let n = length (rd_logical_map r) in
               Some (fs\<lparr>fs_reader := r\<rparr>, Inr (case cap of
                   None \<Rightarrow> ([], n)
                 | Some c \<Rightarrow> (map fst (take (if c < n then c else n) (rd_logical_map r)), n))))))"

definition set_queue_policy :: "queue_policy \<Rightarrow> nat \<Rightarrow> file_state \<Rightarrow> file_state \<times> unit cres" where
  "set_queue_policy policy slots fs =
     (if fs_is_reader fs then (fs, Inl EFail)
      else (fs\<lparr>fs_queue_policy_set := True, fs_queue_policy := policy, fs_reserve_slots := slots\<rparr>, Inr ()))"

definition set_retention :: "nat \<Rightarrow> nat \<Rightarrow> file_state \<Rightarrow> file_state \<times> unit cres" where
  "set_retention max_steps max_bytes fs =
     (if fs_is_reader fs then (fs, Inl EFail)
      else
        (let fs = fs\<lparr>fs_retention_set := True, fs_retain_max_steps := max_steps, fs_retain_max_bytes := max_bytes\<rparr> in
         (if fs_physical_step fs > 0 \<and> fs_retain_bytes fs = []
          then fs\<lparr>fs_retain_bytes := replicate (fs_physical_step fs) 0, fs_retain_floor := 0\<rparr> else fs, Inr ())))"

text \<open>The part of \<open>H5VL_stream_file_close\<close> that concerns the step.\<close>

definition close_step :: "file_state \<Rightarrow> file_state" where
  "close_step fs =
     (if fs_step_state fs = IN_STEP \<or> fs_step_state fs = COMMITTING
      then (pending_discard_all fs)\<lparr>fs_logical_ids := [], fs_step_state := NOT_IN_STEP\<rparr> else fs)"

text \<open>
  One request of \<open>H5VL__stream_serve_backfill\<close>, as the sequence of pushes and announcements it
  makes; reading an object back and encoding it is behind the push.
\<close>

datatype backfill_action = Push nat path nat | Announce nat nat

fun backfill_pushes :: "path_index \<Rightarrow> nat \<Rightarrow> nat \<Rightarrow> path list \<Rightarrow> backfill_action list option" where
  "backfill_pushes x member k [] = Some []"
| "backfill_pushes x member k (p # ps) =
     Option.bind (path_index_resolve x p k) (\<lambda>res.
       Option.bind (backfill_pushes x member k ps) (\<lambda>rest.
         Some (if res = Some k then Push member p k # rest else rest)))"

fun backfill_steps :: "path_index \<Rightarrow> nat \<Rightarrow> path list \<Rightarrow> nat list \<Rightarrow> backfill_action list option" where
  "backfill_steps x member paths [] = Some []"
| "backfill_steps x member paths (k # ks) =
     Option.bind (backfill_pushes x member k paths) (\<lambda>pushes.
       Option.bind (backfill_steps x member paths ks) (\<lambda>rest. Some (pushes @ Announce member k # rest)))"

definition serve_backfill :: "file_state \<Rightarrow> nat \<Rightarrow> path list \<Rightarrow> nat \<Rightarrow> backfill_action list option" where
  "serve_backfill fs member paths from_step =
     (if fs_is_reader fs \<or> \<not> fs_transport fs then Some []
      else backfill_steps (rd_paths (fs_reader fs)) member paths [from_step..<fs_physical_step fs])"

subsection \<open>Totality of publication\<close>

lemma schema_upsert_total:
  assumes "sc_ok s"
  shows "\<exists>s' r. schema_upsert h s pe = Some (s', r) \<and> sc_ok s'"
proof (cases "pe_path pe")
  case (Some p)
  have idx: "pm.indexed (sc_map s) (map sc_path (sc_arr s))" using assms by (simp add: sc_ok_def)
  show ?thesis
  proof (rule pm.indexed_find_cases [OF idx, of p])
    assume new: "p \<notin> set (map sc_path (sc_arr s))" "pathmap_find (sc_map s) p = Some None"
    obtain m where "pathmap_set (sc_map s) p (length (map sc_path (sc_arr s))) = Some m"
        "pm.indexed m (map sc_path (sc_arr s) @ [p])"
      using pm.indexed_append [OF idx new(1)] .
    then show ?thesis
      using new assms Some by (auto simp: schema_upsert_def sc_ok_def Let_def split: option.split)
  next
    fix i assume old: "i < length (map sc_path (sc_arr s))" "map sc_path (sc_arr s) ! i = p"
      "pathmap_find (sc_map s) p = Some (Some i)"
    have "map sc_path ((sc_arr s)[i := e]) = map sc_path (sc_arr s)" if "sc_path e = p" for e :: schema_entry
      using old that by (simp add: map_update list_update_same_conv)
    then show ?thesis
      using old assms Some by (auto simp: schema_upsert_def sc_ok_def Let_def split: option.split)
  qed
qed (use assms in \<open>simp add: schema_upsert_def\<close>)

lemma schema_upserts_total: "sc_ok s \<Longrightarrow> \<exists>s'. schema_upserts h s pes = Some s' \<and> sc_ok s'"
proof (induction pes arbitrary: s)
  case (Cons pe pes)
  obtain s1 r where "schema_upsert h s pe = Some (s1, r)" "sc_ok s1" using schema_upsert_total [OF Cons.prems] by blast
  then show ?case using Cons.IH by auto
qed simp

lemma publish_step_total:
  assumes "sc_ok (fs_schema fs)"
  shows "\<exists>sc w'. publish_step se fs w = Some (fs\<lparr>fs_schema := sc\<rparr>, w') \<and> sc_ok sc"
proof -
  obtain s' where s': "schema_upserts (e_h5 (s_env se)) (fs_schema fs) (fs_pending fs) = Some s'" "sc_ok s'"
    using schema_upserts_total [OF assms] by blast
  then have "sc_ok (s'\<lparr>sc_dirty := False\<rparr>)" by (simp add: sc_ok_def)
  then show ?thesis using s' assms
    by (cases "fs_transport fs") (auto simp: publish_step_def publish_schema_def intro: exI [of _ "fs_schema fs"])
qed

subsection \<open>The invariant of a serial writer\<close>

text \<open>Spilled steps are queued in ascending order, and all lie before the step \<open>n\<close>.\<close>

definition spill_below :: "nat \<Rightarrow> file_state \<Rightarrow> bool" where
  "spill_below n fs \<longleftrightarrow> sorted_wrt (<) (map sp_physical_step (fs_pending_spill fs)) \<and>
     (\<forall>e \<in> set (fs_pending_spill fs). sp_physical_step e < n)"

text \<open>The accounting covers exactly the steps from the floor to the last committed one.\<close>

definition retain_ok :: "file_state \<Rightarrow> bool" where
  "retain_ok fs \<longleftrightarrow> (if fs_retention_set fs then fs_retain_floor fs + length (fs_retain_bytes fs) = fs_physical_step fs
     else fs_retain_bytes fs = [] \<and> fs_retain_floor fs = 0)"

definition writer_inv :: "file_state \<Rightarrow> bool" where
  "writer_inv fs \<longleftrightarrow> caches_ok fs \<and> sc_ok (fs_schema fs) \<and> \<not> fs_is_reader fs \<and>
     spill_below (fs_physical_step fs) fs \<and> retain_ok fs \<and> distinct (fs_group_attrs fs) \<and>
     (fs_step_state fs = NOT_IN_STEP \<and> fs_pending fs = [] \<and> fs_pending_bytes fs = 0 \<and> fs_logical_ids fs = [] \<or>
      fs_step_state fs = IN_STEP)"

text \<open>What the queue policy may change.\<close>

definition same_but_queue :: "file_state \<Rightarrow> file_state \<Rightarrow> bool" where
  "same_but_queue fs fs' \<longleftrightarrow> (\<exists>wc rc x sp.
     fs' = fs\<lparr>fs_write_cache := wc, fs_replay_cache := rc, fs_reader := (fs_reader fs)\<lparr>rd_paths := x\<rparr>, fs_pending_spill := sp\<rparr>)"

lemma same_but_queueI:
  "same_but_caches fs fs' \<Longrightarrow> same_but_queue fs (fs'\<lparr>fs_pending_spill := sp\<rparr>)"
  "same_but_caches fs fs' \<Longrightarrow> same_but_queue fs fs'"
proof -
  assume "same_but_caches fs fs'"
  then obtain wc rc x where f: "fs' = fs\<lparr>fs_write_cache := wc, fs_replay_cache := rc, fs_reader := (fs_reader fs)\<lparr>rd_paths := x\<rparr>\<rparr>"
    by (auto simp: same_but_caches_def)
  show "same_but_queue fs (fs'\<lparr>fs_pending_spill := sp\<rparr>)"
    unfolding f same_but_queue_def by (intro exI [of _ wc] exI [of _ rc] exI [of _ x] exI [of _ sp]) simp
  show "same_but_queue fs fs'"
    unfolding f same_but_queue_def by (intro exI [of _ wc] exI [of _ rc] exI [of _ x] exI [of _ "fs_pending_spill fs"]) simp
qed

lemma same_but_queue_trans:
  assumes "same_but_queue fs fs1" "same_but_queue fs1 fs2"
  shows "same_but_queue fs fs2"
proof -
  obtain wc rc x sp where "fs2 = fs1\<lparr>fs_write_cache := wc, fs_replay_cache := rc, fs_reader := (fs_reader fs1)\<lparr>rd_paths := x\<rparr>, fs_pending_spill := sp\<rparr>"
    using assms(2) by (auto simp: same_but_queue_def)
  then have "fs2 = fs\<lparr>fs_write_cache := wc, fs_replay_cache := rc, fs_reader := (fs_reader fs)\<lparr>rd_paths := x\<rparr>, fs_pending_spill := sp\<rparr>"
    using assms(1) by (auto simp: same_but_queue_def)
  then show ?thesis unfolding same_but_queue_def by blast
qed

lemma same_but_queueD:
  assumes "same_but_queue fs fs'"
  shows "fs_pending fs' = fs_pending fs" "fs_physical_step fs' = fs_physical_step fs" "fs_transport fs' = fs_transport fs"
    "fs_step_state fs' = fs_step_state fs" "fs_is_reader fs' = fs_is_reader fs" "fs_schema fs' = fs_schema fs"
    "fs_retention_set fs' = fs_retention_set fs" "fs_retain_floor fs' = fs_retain_floor fs" "fs_retain_bytes fs' = fs_retain_bytes fs"
    "fs_group_attrs fs' = fs_group_attrs fs" "fs_pending_bytes fs' = fs_pending_bytes fs"
  using assms by (auto simp: same_but_queue_def)

text \<open>The result of an operation on the queue: it returns, and keeps its share of the invariant.\<close>

definition queue_ok :: "file_state \<Rightarrow> (file_state \<times> 'w \<times> unit cres) option \<Rightarrow> bool" where
  "queue_ok fs res \<longleftrightarrow> (\<exists>fs' w' r. res = Some (fs', w', r) \<and> same_but_queue fs fs' \<and> caches_ok fs' \<and>
     spill_below (if r = Inr () then Suc (fs_physical_step fs) else fs_physical_step fs) fs')"

lemma spill_below_mono: "spill_below n fs \<Longrightarrow> n \<le> m \<Longrightarrow> spill_below m fs"
  by (auto simp: spill_below_def)

lemma spill_below_same: "same_but_caches fs fs' \<Longrightarrow> spill_below n fs' = spill_below n fs"
  by (auto simp: spill_below_def same_but_caches_def)

lemma replay_step_ok:
  assumes "caches_ok fs" "spill_below (fs_physical_step fs) fs"
  shows "queue_ok fs (replay_step env fs w)"
proof -
  obtain fs1 r where b: "build_manifest (e_h5 env) (e_finalize env) (e_stage_payload env) fs = Some (fs1, r)" "caches_ok fs1" "same_but_caches fs fs1"
    using build_manifest_total [OF assms(1)] by blast
  show ?thesis
  proof (cases r)
    case (Inl e)
    then show ?thesis using b assms(2) spill_below_same same_but_queueI(2) by (auto simp: queue_ok_def replay_step_def)
  next
    case (Inr t)
    obtain m buf n where t: "t = (m, buf, n)" by (cases t)
    let ?w = "if fs_transport fs1 \<and> buf \<noteq> None \<and> n > 0 then e_add_region env w (the buf) else w"
    obtain fs2 w2 r2 where rp: "replay_manifest (e_h5 env) (e_as_root env) (e_apply_entry env) m buf (Some (fs_pending fs1)) fs1 ?w = Some (fs2, w2, r2)"
      "caches_ok fs2" "same_but_caches fs1 fs2"
      using replay_manifest_total [OF b(2), of "e_h5 env" "e_as_root env" "e_apply_entry env" m buf "Some (fs_pending fs1)" ?w] by blast
    have sm: "same_but_caches fs fs2" using same_but_caches_trans b(3) rp(3) by blast
    have "replay_step env fs w = Some (fs2, w2, r2)" using b(1) Inr t rp(1) by (simp add: replay_step_def split del: if_split)
    moreover have "spill_below (if r2 = Inr () then Suc (fs_physical_step fs) else fs_physical_step fs) fs2"
      using assms(2) spill_below_same [OF sm] spill_below_mono by auto
    ultimately show ?thesis using rp(2) same_but_queueI(2) [OF sm] by (auto simp: queue_ok_def)
  qed
qed

lemma spill_step_ok:
  fixes env :: "'w env"
  assumes "caches_ok fs" "spill_below (fs_physical_step fs) fs"
  shows "queue_ok fs (spill_step env fs w)"
proof -
  have fail: "queue_ok fs (Some (fs1, w1, Inl e))" if "caches_ok fs1" "same_but_caches fs fs1" for fs1 and w1 :: 'w and e
    using that assms(2) spill_below_same same_but_queueI(2) by (auto simp: queue_ok_def)
  obtain fs1 r where b: "build_manifest (e_h5 env) (e_finalize env) True fs = Some (fs1, r)" "caches_ok fs1" "same_but_caches fs fs1"
    using build_manifest_total [OF assms(1)] by blast
  have ok: "queue_ok fs (Some (fs1\<lparr>fs_pending_spill := fs_pending_spill fs1 @
      [\<lparr>sp_physical_step = fs_physical_step fs1, sp_desc = d, sp_size = n\<rparr>]\<rparr>, w1, Inr ()))" for d n and w1 :: 'w
    using b(2) same_but_queueI(1) [OF b(3)] same_but_cachesD(1,3) [OF b(3)] assms(2)
    by (auto simp: queue_ok_def caches_ok_def spill_below_def sorted_wrt_append)
  show ?thesis
  proof (cases r)
    case (Inl e)
    then show ?thesis using b fail assms(1) by (auto simp: spill_step_def Let_def split: prod.split sum.split)
  next
    case (Inr t)
    then show ?thesis
      using b fail ok assms(1) by (cases t) (auto simp: spill_step_def Let_def split: prod.split sum.split option.split)
  qed
qed

lemma drain_first_ok:
  assumes "caches_ok fs" "spill_below (fs_physical_step fs) fs"
  shows "\<exists>fs' w'. drain_first env fs w = Some (fs', w') \<and> caches_ok fs' \<and> same_but_queue fs fs' \<and> spill_below (fs_physical_step fs) fs'"
proof (cases "e_have_bake env \<and> \<not> e_has_comm env \<and> fs_pending_spill fs \<noteq> []")
  case True
  let ?m = "case queue_lag_view env w of None \<Rightarrow> fs_physical_step fs | Some m \<Rightarrow> m"
  obtain fs1 w1 dn rest r where d: "drain_loop env ?m fs w (fs_pending_spill fs) = Some (fs1, w1, rest, r)" "caches_ok fs1"
      "same_but_caches fs fs1" "fs_pending_spill fs = dn @ rest"
    using drain_loop_chain [OF assms(1), of env ?m w "fs_pending_spill fs"] by blast
  have "spill_below (fs_physical_step fs) (fs1\<lparr>fs_pending_spill := rest\<rparr>)"
    using assms(2) d(4) by (auto simp: spill_below_def sorted_wrt_append)
  moreover have "caches_ok (fs1\<lparr>fs_pending_spill := rest\<rparr>)" using d(2) by (simp add: caches_ok_def)
  ultimately show ?thesis
    using True d(1) same_but_queueI(1) [OF d(3)] by (auto simp: drain_first_def drain_spill_def Let_def)
next
  case False
  then show ?thesis unfolding drain_first_def if_not_P [OF False] using assms same_but_queueI(2) by auto
qed

lemma queue_ok_after:
  assumes "same_but_queue fs fs1" "queue_ok fs1 res"
  shows "queue_ok fs res"
  using assms same_but_queueD(2) [OF assms(1)] same_but_queue_trans by (fastforce simp: queue_ok_def)

lemma apply_queue_policy_ok:
  fixes env :: "'w env"
  assumes "\<not> e_has_comm env" "caches_ok fs" "spill_below (fs_physical_step fs) fs"
  shows "queue_ok fs (apply_queue_policy env fs w)"
proof -
  have blocked: "queue_ok fs1 (blocked_replay env fs1 w1)" "queue_ok fs1 (replay_step env fs1 w1)"
    if "caches_ok fs1" "spill_below (fs_physical_step fs1) fs1" for fs1 and w1 :: 'w
    using that assms(1) replay_step_ok by (auto simp: blocked_replay_def final_replay_def)
  show ?thesis
  proof (cases "fs_queue_policy_set fs \<and> fs_transport fs")
    case False
    then have "\<not> queue_agree_and env w (fs_queue_policy_set fs \<and> fs_transport fs)"
      using assms(1) by (simp only: queue_agree_and_def if_False simp_thms)
    then have "apply_queue_policy env fs w = replay_step env fs w"
      unfolding apply_queue_policy_def final_replay_def using assms(1) by (simp only: if_not_P simp_thms if_False)
    then show ?thesis using replay_step_ok assms by simp
  next
    case True
    obtain fs1 w1 where d: "drain_first env fs w = Some (fs1, w1)" "caches_ok fs1" "same_but_queue fs fs1" "spill_below (fs_physical_step fs) fs1"
      using drain_first_ok [OF assms(2,3), of env w] by blast
    have sb: "spill_below (fs_physical_step fs1) fs1" using d(3,4) same_but_queueD(2) by simp
    have "queue_ok fs1 (policy_step env fs1 w1)"
    proof (cases "fs_queue_policy fs1 = QSpill \<and> e_have_bake env")
      case spill: True
      obtain fs2 w2 r where s: "spill_step env fs1 w1 = Some (fs2, w2, r)" "same_but_queue fs1 fs2" "caches_ok fs2"
          "spill_below (if r = Inr () then Suc (fs_physical_step fs1) else fs_physical_step fs1) fs2"
        using spill_step_ok [OF d(2) sb, of env w1] by (auto simp: queue_ok_def)
      have "queue_ok fs1 (blocked_replay env fs2 w2)" if "r \<noteq> Inr ()"
        using queue_ok_after [OF s(2) blocked(1) [OF s(3)]] s(2,4) that same_but_queueD(2) by simp
      then show ?thesis
        using spill assms(1) s by (cases r) (auto simp: policy_step_def queue_ok_def)
    next
      case False
      have "spill_below (Suc (fs_physical_step fs1)) fs1" using spill_below_mono [OF sb] by simp
      then have "queue_ok fs1 (Some (fs1, discard_step env fs1 w1))"
        using d(2) sb same_but_queueI(2) [OF same_but_caches_refl] by (cases "discard_step env fs1 w1") (auto simp: queue_ok_def)
      then show ?thesis
        using False blocked(1) [OF d(2) sb] by (cases "fs_queue_policy fs1") (auto simp: policy_step_def)
    qed
    from queue_ok_after [OF d(3) this] queue_ok_after [OF d(3) blocked(2) [OF d(2) sb, of w1]]
    show ?thesis unfolding apply_policy_serial [OF assms(1) True d(1)] by (rule if_split [THEN iffD2, OF conjI, OF impI impI])
  qed
qed

subsection \<open>Every operation keeps the invariant\<close>

text \<open>Capturing changes the pending entries and their byte count only.\<close>

definition same_but_pending :: "file_state \<Rightarrow> file_state \<Rightarrow> bool" where
  "same_but_pending fs fs' \<longleftrightarrow> (\<exists>ps n. fs' = fs\<lparr>fs_pending := ps, fs_pending_bytes := n\<rparr>)"

lemma same_but_pending_refl [simp]: "same_but_pending fs fs"
  unfolding same_but_pending_def by (intro exI [of _ "fs_pending fs"] exI [of _ "fs_pending_bytes fs"]) simp

lemma same_but_pending_trans: "same_but_pending fs fs1 \<Longrightarrow> same_but_pending fs1 fs2 \<Longrightarrow> same_but_pending fs fs2"
proof -
  assume "same_but_pending fs fs1" "same_but_pending fs1 fs2"
  then obtain ps n where "fs2 = fs\<lparr>fs_pending := ps, fs_pending_bytes := n\<rparr>" by (auto simp: same_but_pending_def)
  then show ?thesis unfolding same_but_pending_def by blast
qed

lemma same_but_pendingD: "same_but_pending fs fs' \<Longrightarrow> fs_physical_step fs' = fs_physical_step fs"
  by (auto simp: same_but_pending_def)

lemma pending_append_same: "same_but_pending fs (fst (pending_append env fs e))"
  unfolding pending_append_def Let_def by (auto simp: same_but_pending_def intro: same_but_pending_refl [unfolded same_but_pending_def])

lemma pending_link_same: "same_but_pending fs (fst (pending_link env h fs p t ty))"
  using pending_append_same [of fs env "link_entry h p t ty"]
  by (auto simp: pending_link_def Let_def split: prod.splits option.splits)

lemma fold_same:
  "(\<And>fs x. same_but_pending fs (f fs x)) \<Longrightarrow> same_but_pending fs (foldl f fs xs)"
  by (induction xs arbitrary: fs) (auto intro: same_but_pending_trans)

lemma fold_pending_same: "\<exists>ps n. fold_pending se fs w = fs\<lparr>fs_pending := ps, fs_pending_bytes := n, fs_group_attrs := []\<rparr>"
proof -
  have "same_but_pending fs (fold_group_attr (s_limit se) rd fs p)" for fs rd p
    using pending_append_same by (auto simp: fold_group_attr_def split: option.split)
  then have "same_but_pending fs (foldl (fold_group_attr (s_limit se) (s_read_attr se w)) fs (fs_group_attrs fs))" by (rule fold_same)
  then obtain ps n where a: "fold_group_attrs (s_limit se) (s_read_attr se w) fs = fs\<lparr>fs_pending := ps, fs_pending_bytes := n, fs_group_attrs := []\<rparr>"
    by (auto simp: fold_group_attrs_def same_but_pending_def)
  have "same_but_pending fs (fold_one_link (s_limit se) h fs l)" for fs h l
    using pending_link_same by (auto simp: fold_one_link_def Let_def)
  then have "same_but_pending fs' (fold_links (s_limit se) (e_h5 (s_env se)) fs')" for fs'
    unfolding fold_links_def by (rule fold_same)
  then obtain ps' n' where "fold_pending se fs w = fs\<lparr>fs_pending := ps, fs_pending_bytes := n, fs_group_attrs := []\<rparr>\<lparr>fs_pending := ps', fs_pending_bytes := n'\<rparr>"
    unfolding fold_pending_def a same_but_pending_def by blast
  then show ?thesis by (intro exI [of _ ps'] exI [of _ n']) simp
qed

lemma capture_inv:
  assumes "writer_inv fs" "same_but_pending fs fs'" "fs_step_state fs = IN_STEP"
  shows "writer_inv fs'"
  using assms by (auto simp: writer_inv_def same_but_pending_def caches_ok_def spill_below_def retain_ok_def)

lemma apply_retention_other:
  assumes "apply_retention env c fs w = (fs', w')"
    and "retain_ok (fs\<lparr>fs_physical_step := fs_physical_step fs - 1\<rparr>)" "fs_physical_step fs > 0" "\<not> fs_is_reader fs"
  shows "\<exists>bs fl. fs' = fs\<lparr>fs_retain_bytes := bs, fs_retain_floor := fl\<rparr> \<and> retain_ok fs'"
proof (cases "fs_retention_set fs")
  case True
  obtain k where k: "fs' = fs\<lparr>fs_retain_bytes := drop k (fs_retain_bytes fs @ [c]), fs_retain_floor := fs_retain_floor fs + k\<rparr>"
      "k \<le> length (fs_retain_bytes fs)"
    using apply_retention_drops [OF True assms(4), of env c w] assms(1) by auto
  have "retain_ok fs'" using assms(2,3) True k by (simp add: retain_ok_def)
  then show ?thesis using k(1) by blast
next
  case False
  then have "fs' = fs" using assms(1) by (simp add: apply_retention_def)
  moreover have "retain_ok fs" using assms(2) False by (simp add: retain_ok_def)
  ultimately show ?thesis
    by (intro exI [of _ "fs_retain_bytes fs"] exI [of _ "fs_retain_floor fs"]) simp
qed

lemma commit_step_inv:
  assumes "writer_inv (fs\<lparr>fs_step_state := IN_STEP, fs_pending_spill := []\<rparr>)" "spill_below (Suc (fs_physical_step fs)) fs"
    and "fs_pending fs = []" "fs_pending_bytes fs = 0" "fs_logical_ids fs = []" "commit_step se c fs w = (fs', w')"
  shows "writer_inv fs' \<and> fs_physical_step fs' = Suc (fs_physical_step fs) \<and> fs_step_state fs' = NOT_IN_STEP \<and> fs_pending fs' = []"
proof -
  let ?f = "fs\<lparr>fs_physical_step := fs_physical_step fs + 1, fs_step_state := NOT_IN_STEP\<rparr>"
  obtain fs1 w1 where r: "apply_retention (s_env se) c ?f w = (fs1, w1)" by (cases "apply_retention (s_env se) c ?f w")
  have "retain_ok (?f\<lparr>fs_physical_step := fs_physical_step ?f - 1\<rparr>)" "\<not> fs_is_reader ?f"
    using assms(1) by (auto simp: writer_inv_def retain_ok_def split: if_splits)
  then obtain bs fl where f1: "fs1 = ?f\<lparr>fs_retain_bytes := bs, fs_retain_floor := fl\<rparr>" "retain_ok fs1"
    using apply_retention_other [OF r] by auto
  have inv: "writer_inv fs1"
    using assms(1-5) f1 by (simp add: writer_inv_def caches_ok_def spill_below_def)
  have "fs' = fs1 \<or> fs' = fs1\<lparr>fs_flush_after_step := False\<rparr>"
    using assms(6) r by (auto simp: commit_step_def Let_def split: if_splits)
  then show ?thesis
    using inv f1(1) assms(3) by (auto simp: writer_inv_def caches_ok_def spill_below_def retain_ok_def)
qed

lemma undo_step_inv:
  assumes "writer_inv (fs\<lparr>fs_step_state := IN_STEP, fs_pending_spill := []\<rparr>)" "spill_below (fs_physical_step fs) fs"
    and "fs_pending fs = []" "fs_pending_bytes fs = 0" "fs_logical_ids fs = []" "undo_step se fs w = (fs', w')"
  shows "writer_inv fs' \<and> fs_physical_step fs' = fs_physical_step fs \<and> fs_step_state fs' = NOT_IN_STEP \<and> fs_pending fs' = []"
  using assms
  by (auto simp: undo_step_def Let_def writer_inv_def caches_ok_def spill_below_def retain_ok_def path_index_drop_step_steps(1)
      split: if_splits)

lemma end_step_ok:
  assumes "\<not> e_has_comm (s_env se)" and "writer_inv fs" and "fs_step_state fs = IN_STEP"
  shows "\<exists>fs' w' r. end_step se fs w = Some (fs', w', r) \<and> writer_inv fs' \<and> fs_step_state fs' = NOT_IN_STEP \<and>
    fs_pending fs' = [] \<and> fs_physical_step fs' = (if r = Inr () then Suc (fs_physical_step fs) else fs_physical_step fs)"
proof -
  obtain ps n where fp: "fold_pending se fs w = fs\<lparr>fs_pending := ps, fs_pending_bytes := n, fs_group_attrs := []\<rparr>"
    using fold_pending_same [of se fs w] by blast
  define f0 where "f0 = fs\<lparr>fs_pending := ps, fs_pending_bytes := n, fs_group_attrs := [], fs_step_state := COMMITTING\<rparr>"
  define w0 where "w0 = s_serve_backfill se (fold_pending se fs w) w"
  have "caches_ok f0" "spill_below (fs_physical_step f0) f0"
    using assms(2) by (simp_all add: f0_def writer_inv_def caches_ok_def spill_below_def)
  then obtain f1 w1 r where q: "apply_queue_policy (s_env se) f0 w0 = Some (f1, w1, r)" "same_but_queue f0 f1" "caches_ok f1"
      "spill_below (if r = Inr () then Suc (fs_physical_step f0) else fs_physical_step f0) f1"
    using apply_queue_policy_ok [OF assms(1), of f0 w0] by (auto simp: queue_ok_def)
  have inv1: "writer_inv (f1\<lparr>fs_step_state := IN_STEP, fs_pending_spill := []\<rparr>)"
    using assms(2) q(3) same_but_queueD [OF q(2)] by (simp add: f0_def writer_inv_def caches_ok_def spill_below_def retain_ok_def)
  have phys: "fs_physical_step f1 = fs_physical_step fs" using same_but_queueD(2) [OF q(2)] by (simp add: f0_def)
  let ?ok = "r = Inr ()"
  obtain sc w2 where p: "(if ?ok then publish_step se f1 w1 else Some (f1, w1)) = Some (f1\<lparr>fs_schema := sc\<rparr>, w2)" "sc_ok sc"
    using publish_step_total [of f1 se w1] inv1
    by (cases ?ok) (auto simp: writer_inv_def intro: that [of "fs_schema f1" w1])
  define f2 where "f2 = (pending_discard_all (f1\<lparr>fs_schema := sc\<rparr>))\<lparr>fs_logical_ids := []\<rparr>"
  obtain f3 w3 where c: "resolve_completion se ?ok f2 w2 = (f3, w3)" by (cases "resolve_completion se ?ok f2 w2")
  have f3: "f3 = f2 \<or> f3 = f2\<lparr>fs_completion := None\<rparr>" using c by (auto simp: resolve_completion_def split: option.splits)
  have inv3: "writer_inv (f3\<lparr>fs_step_state := IN_STEP, fs_pending_spill := []\<rparr>)" "fs_pending f3 = []" "fs_pending_bytes f3 = 0"
      "fs_logical_ids f3 = []" "fs_physical_step f3 = fs_physical_step fs"
      "spill_below (if ?ok then Suc (fs_physical_step fs) else fs_physical_step fs) f3"
    using f3 inv1 p(2) q(4) phys
    by (auto simp: f2_def pending_discard_all_def writer_inv_def caches_ok_def spill_below_def retain_ok_def f0_def)
  have okc: "(case r of Inl _ \<Rightarrow> False | Inr _ \<Rightarrow> True) = ?ok" by (cases r) auto
  have "end_step se fs w = (if ?ok then (case commit_step se (fs_pending_bytes f1) f3 w3 of (fs, w) \<Rightarrow> Some (fs, w, Inr ()))
      else (case undo_step se f3 w3 of (fs, w) \<Rightarrow> Some (fs, w, Inl EFail)))"
    using assms(1,3) q(1) p(1) c unfolding end_step_def Let_def fp f0_def [symmetric] w0_def [unfolded fp, symmetric]
    by (simp add: okc f2_def f0_def w0_def fp split del: if_split)
  note out = this
  show ?thesis
  proof (cases ?ok)
    case True
    obtain f4 w4 where cm: "commit_step se (fs_pending_bytes f1) f3 w3 = (f4, w4)" by (cases "commit_step se (fs_pending_bytes f1) f3 w3")
    show ?thesis using out True cm inv3(5,6) commit_step_inv [OF inv3(1) _ inv3(2-4) cm]
      by (intro exI [of _ f4] exI [of _ w4] exI [of _ "Inr ()"]) simp
  next
    case False
    obtain f4 w4 where un: "undo_step se f3 w3 = (f4, w4)" by (cases "undo_step se f3 w3")
    show ?thesis using out False un inv3(5,6) undo_step_inv [OF inv3(1) _ inv3(2-4) un]
      by (intro exI [of _ f4] exI [of _ w4] exI [of _ "Inl EFail"]) simp
  qed
qed


definition senv_example :: "path list senv" where
  "senv_example = \<lparr>s_env = env_example [], s_limit = None, s_read_attr = (\<lambda>w p a. None),
     s_file = (\<lambda>w. \<lparr>h5_open = True, h5_step_children = None, h5_read = (\<lambda>p. None)\<rparr>), s_verify_root = (\<lambda>b. None),
     s_barrier = (\<lambda>w. w), s_serve_backfill = (\<lambda>fs w. w), s_ack = (\<lambda>w n. w), s_set_schema = (\<lambda>w b. w),
     s_complete = (\<lambda>w i. w), s_overlay = (\<lambda>fs w n. w), s_broadcast = (\<lambda>w n t. w), s_flush = (\<lambda>w. w),
     s_end_of_stream = (\<lambda>w. False)\<rparr>"

lemma writer_inv_init: "writer_inv ((file_state_init False)\<lparr>fs_transport := b\<rparr>)"
  using caches_ok_init [of False] sc_ok_empty
  by (simp add: writer_inv_def file_state_init_def spill_below_def retain_ok_def caches_ok_def)


subsection \<open>The step machine\<close>

text \<open>
  What a serial writer's file goes through: the application's calls in any order, interleaved
  with anything the rest of the world does (readers acknowledging, time passing).
\<close>

inductive writer_step :: "'w senv \<Rightarrow> file_state \<times> 'w \<Rightarrow> file_state \<times> 'w \<Rightarrow> bool" for se where
  world: "writer_step se (fs, w) (fs, w')"
| begin_s: "begin_step se ids t fs w = Some (fs', w', r) \<Longrightarrow> writer_step se (fs, w) (fs', w')"
| end_s: "end_step se fs w = Some (fs', w', r) \<Longrightarrow> writer_step se (fs, w) (fs', w')"
| capture: "fs_step_state fs = IN_STEP \<Longrightarrow> writer_step se (fs, w) (fst (pending_append (s_limit se) fs e), w)"
| link: "capture_link (s_limit se) (e_h5 (s_env se)) (Some fs) p loc args = (Some fs', res) \<Longrightarrow> writer_step se (fs, w) (fs', w)"
| note_attr: "writer_step se (fs, w) (note_group_attr (e_has_comm (s_env se)) fs p by_self on_group a, w)"
| defer_request: "fs_step_state fs = IN_STEP \<Longrightarrow> writer_step se (fs, w) (fs\<lparr>fs_completion := Some 0\<rparr>, w)"
| flush: "fs_step_state fs = IN_STEP \<Longrightarrow> writer_step se (fs, w) (fs\<lparr>fs_flush_after_step := True\<rparr>, w)"
| policy: "writer_step se (fs, w) (fst (set_queue_policy pol slots fs), w)"
| retention: "writer_step se (fs, w) (fst (set_retention ms mb fs), w)"

inductive_cases writer_stepE: "writer_step se (fs, w) s'"

lemma begin_step_inv:
  assumes "writer_inv fs" "begin_step se ids t fs w = Some (fs', w', r)"
  shows "writer_inv fs'"
  using assms
  by (auto simp: begin_step_def Let_def writer_inv_def caches_ok_def spill_below_def retain_ok_def split: if_splits)

lemma capture_link_frame:
  assumes "capture_link env h (Some fs) p loc args = (Some fs', res)"
  shows "fs' = fs \<or> fs_step_state fs = IN_STEP \<and> (\<exists>q t ty. fs' = fst (pending_link env h fs q t ty))"
  using assms
  by (auto simp: capture_link_def Let_def split: option.splits loc_params.splits link_create.splits if_splits prod.splits sum.splits)
    (metis fst_conv)+

lemma capture_link_inv:
  assumes "writer_inv fs" "capture_link env h (Some fs) p loc args = (Some fs', res)"
  shows "writer_inv fs'"
  using capture_link_frame [OF assms(2)] assms(1) capture_inv [OF assms(1) pending_link_same] by auto

lemma note_group_attr_inv: "writer_inv fs \<Longrightarrow> writer_inv (note_group_attr c fs p b g a)"
  by (auto simp: note_group_attr_def writer_inv_def caches_ok_def spill_below_def retain_ok_def split: option.split)

lemma set_retention_inv: "writer_inv fs \<Longrightarrow> writer_inv (fst (set_retention ms mb fs))"
  by (auto simp: set_retention_def Let_def writer_inv_def caches_ok_def spill_below_def retain_ok_def split: if_splits)

lemma writer_step_inv:
  assumes "\<not> e_has_comm (s_env se)" "writer_inv fs" "writer_step se (fs, w) (fs', w')"
  shows "writer_inv fs' \<and> fs_physical_step fs \<le> fs_physical_step fs' \<and> fs_physical_step fs' \<le> Suc (fs_physical_step fs)"
  using assms(3)
proof (cases rule: writer_step.cases)
  case (begin_s ids t r)
  then have "fs_physical_step fs' = fs_physical_step fs"
    using assms(2) by (auto simp: begin_step_def Let_def writer_inv_def split: if_splits)
  then show ?thesis using begin_step_inv [OF assms(2) begin_s] by simp
next
  case (end_s r)
  show ?thesis
  proof (cases "fs_step_state fs = IN_STEP")
    case True
    then show ?thesis using end_step_ok [OF assms(1,2) True, of w] end_s by auto
  next
    case False
    then show ?thesis using end_s assms(2) by (simp add: end_step_def)
  qed
next
  case (capture e)
  have "fs_physical_step fs' = fs_physical_step fs" using capture(1) by (simp add: pending_append_def Let_def)
  then show ?thesis using capture_inv [OF assms(2) pending_append_same capture(3)] capture(1) by simp
next
  case (link p loc args res)
  have "fs_physical_step fs' = fs_physical_step fs"
    using capture_link_frame [OF link(2)] same_but_pendingD [OF pending_link_same] by auto
  then show ?thesis using capture_link_inv [OF assms(2) link(2)] by simp
next
  case (note_attr p by_self on_group a)
  then show ?thesis using note_group_attr_inv [OF assms(2)] by (auto simp: note_group_attr_def split: option.split)
next
  case (retention ms mb)
  then show ?thesis using set_retention_inv [OF assms(2)] by (auto simp: set_retention_def Let_def)
next
  case (policy pol slots)
  then show ?thesis using assms(2) by (simp add: set_queue_policy_def writer_inv_def caches_ok_def spill_below_def retain_ok_def)
next
  case flush
  then show ?thesis using assms(2) by (simp add: writer_inv_def caches_ok_def spill_below_def retain_ok_def)
next
  case defer_request
  then show ?thesis using assms(2) by (simp add: writer_inv_def caches_ok_def spill_below_def retain_ok_def)
qed (use assms(2) in simp)



subsection \<open>Serving a late joiner\<close>

lemma backfill_pushes_exact:
  assumes "pi_ok x"
  shows "backfill_pushes x m k ps = Some (map (\<lambda>p. Push m p k) (filter (\<lambda>p. find (\<lambda>s. s \<le> k) (rev (pi_steps x p)) = Some k) ps))"
  by (induction ps) (auto simp: path_index_resolve_find [OF assms])

lemma find_current:
  fixes k :: nat
  assumes "sorted ss"
  shows "find (\<lambda>s. s \<le> k) (rev ss) = Some k \<longleftrightarrow> k \<in> set ss"
proof
  assume "k \<in> set ss"
  moreover have "Max {s \<in> set ss. s \<le> k} = k" using \<open>k \<in> set ss\<close> by (intro Max_eqI) auto
  ultimately show "find (\<lambda>s. s \<le> k) (rev ss) = Some k" unfolding find_rev_sorted [OF assms] by auto
qed (auto simp: find_Some_iff rev_nth)

text \<open>
  A late joiner is served every committed step from the one it asked for, in order: for each
  step, first every requested path that step wrote, each once and in the order asked, and then
  the announcement of the step. This holds when the path index lists each path's steps in
  ascending order.
\<close>

theorem serve_backfill_exact:
  assumes "\<not> fs_is_reader fs" and "fs_transport fs" and "pi_ok (rd_paths (fs_reader fs))"
    and "\<forall>p \<in> set paths. sorted (pi_steps (rd_paths (fs_reader fs)) p)"
  shows "serve_backfill fs member paths from_step =
    Some (concat (map (\<lambda>k. map (\<lambda>p. Push member p k) (filter (\<lambda>p. k \<in> set (pi_steps (rd_paths (fs_reader fs)) p)) paths) @ [Announce member k])
      [from_step..<fs_physical_step fs]))"
proof -
  let ?x = "rd_paths (fs_reader fs)"
  have one: "backfill_pushes ?x member k paths = Some (map (\<lambda>p. Push member p k) (filter (\<lambda>p. k \<in> set (pi_steps ?x p)) paths))" for k
    using assms(4) unfolding backfill_pushes_exact [OF assms(3)] by (simp add: find_current cong: filter_cong)
  have "backfill_steps ?x member paths ks =
      Some (concat (map (\<lambda>k. map (\<lambda>p. Push member p k) (filter (\<lambda>p. k \<in> set (pi_steps ?x p)) paths) @ [Announce member k]) ks))" for ks
    by (induction ks) (simp_all add: one)
  then show ?thesis using assms(1,2) by (simp add: serve_backfill_def)
qed

text \<open>An index in which \<open>/d\<close> was written in the given steps, in that order.\<close>

fun index_adds :: "path_index \<Rightarrow> path \<Rightarrow> nat list \<Rightarrow> path_index" where
  "index_adds x p [] = x"
| "index_adds x p (n # ns) = index_adds (the (path_index_add x p n)) p ns"

lemma index_adds_steps: "pi_ok x \<Longrightarrow> pi_ok (index_adds x p ns) \<and> pi_steps (index_adds x p ns) p = pi_steps x p @ ns"
proof (induction ns arbitrary: x)
  case (Cons n ns)
  obtain x' where "path_index_add x p n = Some x'" "pi_ok x'" "pi_steps x' = (pi_steps x)(p := pi_steps x p @ [n])"
    using path_index_add_steps [OF Cons.prems] by blast
  then show ?case using Cons.IH [of x'] by simp
qed simp

abbreviation indexed_state :: "nat list \<Rightarrow> file_state" where
  "indexed_state ns \<equiv> (file_state_init False)\<lparr>fs_transport := True, fs_physical_step := 3,
     fs_reader := reader_init\<lparr>rd_paths := index_adds path_index_empty ''/d'' ns\<rparr>\<rparr>"

theorem serve_backfill_exact_witness:
  "serve_backfill (indexed_state [0, 2]) 7 [''/d''] 1 = Some [Announce 7 1, Push 7 ''/d'' 2, Announce 7 2]"
proof -
  note ix = index_adds_steps [OF pi_ok_empty(1), of "''/d''" "[0, 2]", unfolded pi_ok_empty(2) append_Nil]
  have "serve_backfill (indexed_state [0, 2]) 7 [''/d''] 1 =
      Some (concat (map (\<lambda>k. map (\<lambda>p. Push 7 p k) (filter (\<lambda>p. k \<in> set (pi_steps (index_adds path_index_empty ''/d'' [0, 2]) p)) [''/d'']) @ [Announce 7 k])
        [1..<3]))"
    using serve_backfill_exact [of "indexed_state [0, 2]" "[''/d'']" 7 1] ix
    by (simp add: file_state_init_def del: index_adds.simps upt_Suc)
  then show ?thesis using ix by (simp add: upt_rec del: index_adds.simps)
qed



end
