(* ===== verification/VS_VL.thy ===== *)
theory VS_VL
  imports VS_Bytes
begin

text \<open>
  Variable-length data: which datatypes a step may capture
  (\<open>H5VL__stream_type_unsafe_to_capture\<close>, \<open>H5VL__stream_type_vl_kind\<close>), and the deep
  serialization of VL write buffers (\<open>H5VL__stream_vl_serialize\<close>,
  \<open>H5VL__stream_vl_deserialize\<close>, \<open>H5VL__stream_vl_flatten\<close>).

  A datatype handle is represented by the tree its H5T accessors expose: the class, the size
  (\<open>H5Tget_size\<close>), the base type of an array or VL type and the members of a compound.
  \<open>T_INVALID\<close> is a handle for which the accessors fail, also as the base or member for
  which \<open>H5Tget_super\<close> / \<open>H5Tget_member_type\<close> fails; a failing
  \<open>H5Tis_variable_str\<close> or \<open>H5Tget_nmembers\<close> is \<open>None\<close>.
  A \<open>char *\<close> or \<open>hvl_t.p\<close> is \<open>None\<close> for NULL, else the readable memory at it.
  Allocation succeeds.
\<close>

datatype h5t =
    T_INVALID
  | T_ATOMIC nat
  | T_STRING nat "bool option"
  | T_VLEN nat h5t
  | T_REFERENCE nat
  | T_COMPOUND nat "h5t list option"
  | T_ARRAY nat h5t

fun H5Tget_size :: "h5t \<Rightarrow> nat" where
  "H5Tget_size T_INVALID = 0"
| "H5Tget_size (T_ATOMIC n) = n"
| "H5Tget_size (T_STRING n _) = n"
| "H5Tget_size (T_VLEN n _) = n"
| "H5Tget_size (T_REFERENCE n) = n"
| "H5Tget_size (T_COMPOUND n _) = n"
| "H5Tget_size (T_ARRAY n _) = n"

fun H5Tget_super :: "h5t \<Rightarrow> h5t" where
  "H5Tget_super (T_VLEN _ b) = b"
| "H5Tget_super (T_ARRAY _ b) = b"
| "H5Tget_super _ = T_INVALID"

text \<open>\<open>htri_t\<close>: positive, zero, negative.\<close>

datatype htri = HTrue | HFalse | HFail

datatype vl_kind = VL_NONE | VL_SEQ | VL_STR

function (sequential) type_unsafe_to_capture_1 :: "h5t \<Rightarrow> bool \<Rightarrow> htri"
  and members_unsafe :: "h5t list \<Rightarrow> htri"
  and type_vl_kind :: "h5t \<Rightarrow> vl_kind" where
  "type_unsafe_to_capture_1 T_INVALID top_level = HFail"
| "type_unsafe_to_capture_1 (T_VLEN n b) top_level =
     (if top_level \<and> type_vl_kind (T_VLEN n b) \<noteq> VL_NONE then HFalse else HTrue)"
| "type_unsafe_to_capture_1 (T_REFERENCE n) top_level = (if top_level then HFalse else HTrue)"
| "type_unsafe_to_capture_1 (T_STRING n v) top_level =
     (case v of
        None \<Rightarrow> HFail
      | Some is_vl \<Rightarrow> if is_vl \<and> top_level then HFalse else if is_vl then HTrue else HFalse)"
| "type_unsafe_to_capture_1 (T_COMPOUND n ms) top_level =
     (case ms of None \<Rightarrow> HFail | Some ts \<Rightarrow> members_unsafe ts)"
| "type_unsafe_to_capture_1 (T_ARRAY n b) top_level =
     (if b = T_INVALID then HFail else type_unsafe_to_capture_1 b False)"
| "type_unsafe_to_capture_1 (T_ATOMIC n) top_level = HFalse"
| "members_unsafe [] = HFalse"
| "members_unsafe (m # ms) =
     (if m = T_INVALID then HFail
      else if type_unsafe_to_capture_1 m False \<noteq> HFalse then type_unsafe_to_capture_1 m False
      else members_unsafe ms)"
| "type_vl_kind (T_STRING n v) = (if v = Some True then VL_STR else VL_NONE)"
| "type_vl_kind (T_VLEN n b) =
     (if b = T_INVALID then VL_NONE
      else if type_unsafe_to_capture_1 b False = HFalse then VL_SEQ else VL_NONE)"
| "type_vl_kind _ = VL_NONE"
  by pat_completeness auto

termination
  by (relation "measure (\<lambda>x. case x of
        Inl (t, _) \<Rightarrow> 2 * size t + 1
      | Inr (Inl ts) \<Rightarrow> 2 * size_list size ts
      | Inr (Inr t) \<Rightarrow> 2 * size t)") auto

definition type_unsafe_to_capture :: "h5t \<Rightarrow> htri" where
  "type_unsafe_to_capture t = type_unsafe_to_capture_1 t True"

subsection \<open>Buffers and their wire form\<close>

datatype vl_val =
    Hvl nat "byte list option"
  | Cstr "byte list option"

definition c_strlen :: "byte list \<Rightarrow> nat cres" where
  "c_strlen m = (if 0 \<in> set m then Inr (length (takeWhile (\<lambda>b. b \<noteq> 0) m)) else Inl EOob)"

text \<open>\<open>src\<close> and \<open>nbytes\<close> of one iteration of the serialize loop: \<open>None\<close> is a NULL source.\<close>

fun vl_elem_src :: "vl_kind \<Rightarrow> nat \<Rightarrow> vl_val \<Rightarrow> byte list option cres" where
  "vl_elem_src VL_SEQ base_size (Hvl len p) =
     (case p of
        None \<Rightarrow> Inr None
      | Some m \<Rightarrow> cbind (mem_read m 0 (wrap64 (len * base_size))) (\<lambda>d. Inr (Some d)))"
| "vl_elem_src VL_STR base_size (Cstr p) =
     (case p of
        None \<Rightarrow> Inr None
      | Some m \<Rightarrow> cbind (c_strlen m) (\<lambda>n. cbind (mem_read m 0 n) (\<lambda>d. Inr (Some d))))"
| "vl_elem_src _ _ _ = Inl EOob"

definition vl_tag :: "byte list option \<Rightarrow> u64" where
  "vl_tag src = (case src of None \<Rightarrow> 0 | Some d \<Rightarrow> word_of_nat (length d) + 1)"

definition vl_wire :: "byte list option \<Rightarrow> byte list" where
  "vl_wire src = put_u64le (vl_tag src) @ (case src of None \<Rightarrow> [] | Some d \<Rightarrow> d)"

fun vl_serialize_loop ::
  "vl_kind \<Rightarrow> nat \<Rightarrow> vl_val list \<Rightarrow> byte list \<Rightarrow> byte list cres" where
  "vl_serialize_loop kind base_size [] acc = Inr acc"
| "vl_serialize_loop kind base_size (v # vs) acc =
     cbind (vl_elem_src kind base_size v)
       (\<lambda>src. vl_serialize_loop kind base_size vs (acc @ vl_wire src))"

text \<open>The base size both directions look up first.\<close>

definition vl_base_size :: "vl_kind \<Rightarrow> h5t \<Rightarrow> nat cres" where
  "vl_base_size kind ty =
     (if kind = VL_SEQ then
        (if H5Tget_super ty = T_INVALID then Inl EFail
         else if H5Tget_size (H5Tget_super ty) = 0 then Inl EFail
         else Inr (H5Tget_size (H5Tget_super ty)))
      else Inr 0)"

definition vl_serialize :: "vl_kind \<Rightarrow> h5t \<Rightarrow> vl_val list \<Rightarrow> byte list cres" where
  "vl_serialize kind ty buf =
     (if kind = VL_NONE then Inl EFail
      else cbind (vl_base_size kind ty) (\<lambda>bs. vl_serialize_loop kind bs buf []))"

definition vl_null :: "vl_kind \<Rightarrow> vl_val" where
  "vl_null kind = (if kind = VL_SEQ then Hvl 0 None else Cstr None)"

definition vl_fresh :: "vl_kind \<Rightarrow> nat \<Rightarrow> byte list \<Rightarrow> vl_val" where
  "vl_fresh kind base_size d =
     (if kind = VL_SEQ then Hvl (length d div base_size) (Some d) else Cstr (Some (d @ [0])))"

fun vl_deserialize_loop ::
  "vl_kind \<Rightarrow> nat \<Rightarrow> byte list \<Rightarrow> nat \<Rightarrow> nat \<Rightarrow> vl_val list cres" where
  "vl_deserialize_loop kind base_size bytes p 0 = Inr []"
| "vl_deserialize_loop kind base_size bytes p (Suc n) =
     (if length bytes - p < 8 then Inl EFail
      else cbind (rd_u64le bytes p) (\<lambda>tag.
        if tag = 0
        then cbind (vl_deserialize_loop kind base_size bytes (p + 8) n)
               (\<lambda>vs. Inr (vl_null kind # vs))
        else
          (let nbytes = unat (tag - 1) in
           if length bytes - (p + 8) < nbytes then Inl EFail
           else if kind = VL_SEQ \<and> nbytes mod base_size \<noteq> 0 then Inl EFail
           else cbind (mem_read bytes (p + 8) nbytes) (\<lambda>d.
             cbind (vl_deserialize_loop kind base_size bytes (p + 8 + nbytes) n)
               (\<lambda>vs. Inr (vl_fresh kind base_size d # vs))))))"

definition vl_deserialize :: "vl_kind \<Rightarrow> h5t \<Rightarrow> byte list \<Rightarrow> nat \<Rightarrow> vl_val list cres" where
  "vl_deserialize kind ty bytes count =
     (if kind = VL_NONE then Inl EFail
      else cbind (vl_base_size kind ty) (\<lambda>bs. vl_deserialize_loop kind bs bytes 0 count))"

subsection \<open>One-block decode for subscribers\<close>

text \<open>
  \<open>H5VL__stream_vl_flatten\<close> returns one allocation, the pointer array and then the bytes it
  points to. \<open>fl_ptrs\<close> is the array: the \<open>len\<close> member (0 for a \<open>char *\<close>) and the
  pointer, as an offset into the data area \<open>fl_data\<close> or \<open>None\<close> for NULL. \<open>fl_cap\<close>
  is the size of the data area of the allocation and \<open>fl_size\<close> the reported size.
\<close>

record vl_flat =
  fl_ptrs :: "(nat \<times> nat option) list"
  fl_data :: "byte list"
  fl_cap :: nat
  fl_size :: nat

fun vl_flatten_pass1 ::
  "vl_kind \<Rightarrow> nat \<Rightarrow> byte list \<Rightarrow> nat \<Rightarrow> nat \<Rightarrow> nat \<Rightarrow> nat cres" where
  "vl_flatten_pass1 kind base_size src off sum_len 0 = Inr sum_len"
| "vl_flatten_pass1 kind base_size src off sum_len (Suc n) =
     (if length src - off < 8 then Inl EFail
      else cbind (rd_u64le src off) (\<lambda>tag.
        if tag = 0 then vl_flatten_pass1 kind base_size src (off + 8) sum_len n
        else
          (let nbytes = unat (tag - 1) in
           if nbytes > length src - (off + 8)
              \<or> (kind = VL_SEQ \<and> nbytes mod base_size \<noteq> 0) then Inl EFail
           else vl_flatten_pass1 kind base_size src (off + 8 + nbytes)
                  (sum_len + nbytes + (if kind = VL_STR then 1 else 0)) n)))"

fun vl_flatten_pass2 ::
  "vl_kind \<Rightarrow> nat \<Rightarrow> byte list \<Rightarrow> nat \<Rightarrow> nat \<Rightarrow> (nat \<times> nat option) list \<Rightarrow> byte list
     \<Rightarrow> ((nat \<times> nat option) list \<times> byte list) cres" where
  "vl_flatten_pass2 kind base_size src off 0 ptrs data = Inr (ptrs, data)"
| "vl_flatten_pass2 kind base_size src off (Suc n) ptrs data =
     cbind (rd_u64le src off) (\<lambda>tag.
       if tag = 0
       then vl_flatten_pass2 kind base_size src (off + 8) n (ptrs @ [(0, None)]) data
       else
         (let nbytes = unat (tag - 1) in
          cbind (mem_read src (off + 8) nbytes) (\<lambda>d.
            vl_flatten_pass2 kind base_size src (off + 8 + nbytes) n
              (ptrs @ [(if kind = VL_SEQ then nbytes div base_size else 0, Some (length data))])
              (data @ d @ (if kind = VL_STR then [0] else [])))))"

definition vl_flatten ::
  "(byte list \<Rightarrow> h5t option) \<Rightarrow> byte list \<Rightarrow> byte list \<Rightarrow> nat \<Rightarrow> vl_flat cres" where
  "vl_flatten H5Tdecode2 type_enc src count =
     (case H5Tdecode2 type_enc of
        None \<Rightarrow> Inl EFail
      | Some ty \<Rightarrow>
          (let kind = type_vl_kind ty; elem = (if kind = VL_SEQ then 16 else 8) in
           if kind = VL_NONE then Inl EFail
           else cbind (vl_base_size kind ty) (\<lambda>bs0.
             let bs = (if kind = VL_SEQ then bs0 else 1) in
             cbind (vl_flatten_pass1 kind bs src 0 0 count) (\<lambda>sum_len.
               cbind (vl_flatten_pass2 kind bs src 0 count [] []) (\<lambda>(ptrs, data).
                 Inr \<lparr>fl_ptrs = ptrs, fl_data = data, fl_cap = sum_len + 1,
                      fl_size = count * elem\<rparr>)))))"

text \<open>What an application reads from an element: through a \<open>vl_val\<close> and through the block.\<close>

definition vl_view :: "nat \<Rightarrow> vl_val \<Rightarrow> byte list option" where
  "vl_view base_size v =
     (case v of
        Hvl len p \<Rightarrow> map_option (take (len * base_size)) p
      | Cstr p \<Rightarrow> map_option (takeWhile (\<lambda>b. b \<noteq> 0)) p)"

definition fl_view :: "vl_kind \<Rightarrow> nat \<Rightarrow> byte list \<Rightarrow> nat \<times> nat option \<Rightarrow> byte list option" where
  "fl_view kind base_size data e =
     map_option (\<lambda>pos. (if kind = VL_SEQ then take (fst e * base_size) (drop pos data)
                       else takeWhile (\<lambda>b. b \<noteq> 0) (drop pos data))) (snd e)"

subsection \<open>Which types are captured\<close>

text \<open>The intended reading of the guard: a value whose bytes are all its own.\<close>

fun self_contained :: "h5t \<Rightarrow> bool" where
  "self_contained T_INVALID = False"
| "self_contained (T_ATOMIC n) = True"
| "self_contained (T_STRING n v) = (v = Some False)"
| "self_contained (T_VLEN n b) = False"
| "self_contained (T_REFERENCE n) = False"
| "self_contained (T_COMPOUND n ms) = (case ms of None \<Rightarrow> False | Some ts \<Rightarrow> list_all self_contained ts)"
| "self_contained (T_ARRAY n b) = self_contained b"

lemma members_unsafe_iff:
  "(\<And>t. t \<in> set ts \<Longrightarrow> type_unsafe_to_capture_1 t False = HFalse \<longleftrightarrow> self_contained t)
     \<Longrightarrow> members_unsafe ts = HFalse \<longleftrightarrow> list_all self_contained ts"
  by (induction ts) auto

lemma nested_unsafe_iff: "type_unsafe_to_capture_1 t False = HFalse \<longleftrightarrow> self_contained t"
proof (induction t)
  case (T_COMPOUND n ms)
  then show ?case by (auto split: option.splits simp: members_unsafe_iff)
qed (auto split: option.splits)

lemma type_vl_kind_VLEN [simp]:
  "type_vl_kind (T_VLEN n b) = (if self_contained b then VL_SEQ else VL_NONE)"
  using nested_unsafe_iff [of b] by (cases "b = T_INVALID") auto

declare type_vl_kind.simps(2) [simp del]

lemma type_vl_kind_iff:
  "type_vl_kind t = VL_SEQ \<longleftrightarrow> (\<exists>n b. t = T_VLEN n b \<and> self_contained b)"
  "type_vl_kind t = VL_STR \<longleftrightarrow> (\<exists>n. t = T_STRING n (Some True))"
  by (cases t; simp)+

subsection \<open>A reference parser for the wire form\<close>

fun vl_parse :: "vl_kind \<Rightarrow> nat \<Rightarrow> byte list \<Rightarrow> nat \<Rightarrow> byte list option list option" where
  "vl_parse kind base_size src 0 = Some []"
| "vl_parse kind base_size src (Suc n) =
     (if length src < 8 then None
      else
        (let tag = get_u64le src; rest = drop 8 src; k = unat (tag - 1) in
         if tag = 0 then map_option ((#) None) (vl_parse kind base_size rest n)
         else if k > length rest \<or> (kind = VL_SEQ \<and> k mod base_size \<noteq> 0) then None
         else map_option ((#) (Some (take k rest))) (vl_parse kind base_size (drop k rest) n)))"

definition vl_build :: "vl_kind \<Rightarrow> nat \<Rightarrow> byte list option \<Rightarrow> vl_val" where
  "vl_build kind base_size src =
     (case src of None \<Rightarrow> vl_null kind | Some d \<Rightarrow> vl_fresh kind base_size d)"

definition of_parse :: "'a option \<Rightarrow> 'a cres" where
  "of_parse m = (case m of None \<Rightarrow> Inl EFail | Some x \<Rightarrow> Inr x)"

lemma of_parse_simps [simp]:
  "of_parse None = Inl EFail" "of_parse (Some x) = Inr x"
  by (simp_all add: of_parse_def)

lemma vl_deserialize_loop_parse:
  "p \<le> length bytes \<Longrightarrow>
     vl_deserialize_loop kind bs bytes p n =
       of_parse (map_option (map (vl_build kind bs)) (vl_parse kind bs (drop p bytes) n))"
proof (induction n arbitrary: p)
  case 0
  then show ?case by simp
next
  case (Suc n)
  let ?tag = "get_u64le (drop p bytes)"
  let ?k = "unat (?tag - 1)"
  show ?case
  proof (cases "length bytes - p < 8")
    case True
    then show ?thesis by simp
  next
    case False
    then have rd: "rd_u64le bytes p = Inr ?tag" and p8: "p + 8 \<le> length bytes"
      using Suc.prems by (auto simp: rd_ok)
    note IH0 = Suc.IH [OF p8]
    show ?thesis
    proof (cases "?tag = 0")
      case True
      then show ?thesis
        using False rd IH0
        by (cases "vl_parse kind bs (drop (p + 8) bytes) n") (simp_all add: vl_build_def add.commute)
    next
      case tag: False
      show ?thesis
      proof (cases "?k > length bytes - (p + 8) \<or> (kind = VL_SEQ \<and> ?k mod bs \<noteq> 0)")
        case True
        then show ?thesis using False rd tag by (auto simp: Let_def)
      next
        case ok: False
        then have "p + 8 + ?k \<le> length bytes" using p8 by auto
        then have "mem_read bytes (p + 8) ?k = Inr (take ?k (drop (p + 8) bytes))"
          and IH: "vl_deserialize_loop kind bs bytes (p + 8 + ?k) n =
            of_parse (map_option (map (vl_build kind bs)) (vl_parse kind bs (drop (p + 8 + ?k) bytes) n))"
          by (simp_all add: mem_read_ok Suc.IH)
        then show ?thesis
          using False rd tag ok
          by (cases "vl_parse kind bs (drop (p + 8 + ?k) bytes) n")
             (auto simp: Let_def vl_build_def add_ac)
      qed
    qed
  qed
qed

subsection \<open>The two passes of the one-block decode\<close>

definition fl_bytes :: "vl_kind \<Rightarrow> byte list option \<Rightarrow> byte list" where
  "fl_bytes kind src =
     (case src of None \<Rightarrow> [] | Some d \<Rightarrow> d @ (if kind = VL_STR then [0] else []))"

lemma fl_bytes_simps [simp]:
  "fl_bytes kind None = []"
  "length (fl_bytes kind (Some d)) = length d + (if kind = VL_STR then 1 else 0)"
  by (simp_all add: fl_bytes_def)

fun fl_layout :: "vl_kind \<Rightarrow> nat \<Rightarrow> nat \<Rightarrow> byte list option list \<Rightarrow> (nat \<times> nat option) list" where
  "fl_layout kind base_size pos [] = []"
| "fl_layout kind base_size pos (x # xs) =
     (case x of None \<Rightarrow> (0, None)
        | Some d \<Rightarrow> (if kind = VL_SEQ then length d div base_size else 0, Some pos))
       # fl_layout kind base_size (pos + length (fl_bytes kind x)) xs"

lemma length_fl_layout [simp]: "length (fl_layout kind bs pos xs) = length xs"
  by (induction xs arbitrary: pos) auto

lemma vl_parse_length: "vl_parse kind bs src n = Some xs \<Longrightarrow> length xs = n"
  by (induction n arbitrary: src xs) (auto simp: Let_def split: if_splits)

lemma vl_flatten_pass1_parse:
  "off \<le> length src \<Longrightarrow>
     vl_flatten_pass1 kind bs src off acc n =
       of_parse (map_option (\<lambda>xs. acc + length (concat (map (fl_bytes kind) xs)))
         (vl_parse kind bs (drop off src) n))"
proof (induction n arbitrary: off acc)
  case 0
  then show ?case by simp
next
  case (Suc n)
  let ?tag = "get_u64le (drop off src)"
  let ?k = "unat (?tag - 1)"
  show ?case
  proof (cases "length src - off < 8")
    case True
    then show ?thesis by simp
  next
    case False
    then have rd: "rd_u64le src off = Inr ?tag" and off8: "off + 8 \<le> length src"
      using Suc.prems by (auto simp: rd_ok)
    have IH: "off + 8 + ?k \<le> length src \<Longrightarrow>
        vl_flatten_pass1 kind bs src (off + 8 + ?k) acc' n =
          of_parse (map_option (\<lambda>xs. acc' + length (concat (map (fl_bytes kind) xs)))
            (vl_parse kind bs (drop (off + 8 + ?k) src) n))" for acc'
      by (rule Suc.IH)
    show ?thesis
      using False rd off8 IH Suc.IH [OF off8, of acc]
      by (cases "vl_parse kind bs (drop (off + 8) src) n";
          cases "vl_parse kind bs (drop (off + 8 + ?k) src) n")
         (auto simp: Let_def add_ac)
  qed
qed

lemma vl_flatten_pass2_parse:
  "off \<le> length src \<Longrightarrow> vl_parse kind bs (drop off src) n = Some xs \<Longrightarrow>
     vl_flatten_pass2 kind bs src off n ptrs data =
       Inr (ptrs @ fl_layout kind bs (length data) xs, data @ concat (map (fl_bytes kind) xs))"
proof (induction n arbitrary: off ptrs data xs)
  case 0
  then show ?case by simp
next
  case (Suc n)
  let ?tag = "get_u64le (drop off src)"
  let ?k = "unat (?tag - 1)"
  from Suc.prems have off8: "off + 8 \<le> length src"
    by (auto split: if_splits)
  then have rd: "rd_u64le src off = Inr ?tag" by (simp add: rd_ok)
  show ?case
  proof (cases "?tag = 0")
    case True
    then obtain ys where "vl_parse kind bs (drop (off + 8) src) n = Some ys" "xs = None # ys"
      using Suc.prems off8 by (auto simp: Let_def add.commute split: if_splits)
    then show ?thesis
      using True rd Suc.IH [OF off8] by (simp add: fl_bytes_def)
  next
    case False
    then obtain ys where k: "off + 8 + ?k \<le> length src"
      and ys: "vl_parse kind bs (drop (off + 8 + ?k) src) n = Some ys"
      and xs: "xs = Some (take ?k (drop (off + 8) src)) # ys"
      using Suc.prems off8 by (auto simp: Let_def add_ac split: if_splits)
    from k have rdk: "mem_read src (off + 8) ?k = Inr (take ?k (drop (off + 8) src))"
      by (simp add: mem_read_ok)
    have "length (take ?k (drop (off + 8) src)) = ?k" using k by simp
    then show ?thesis
      using False rd rdk Suc.IH [OF k ys] by (simp add: Let_def xs fl_bytes_def add_ac)
  qed
qed

lemma fl_view_layout:
  assumes "kind \<noteq> VL_NONE" and "\<And>d. kind = VL_SEQ \<Longrightarrow> Some d \<in> set xs \<Longrightarrow> length d mod bs = 0"
  shows "map (fl_view kind bs (pre @ concat (map (fl_bytes kind) xs)))
           (fl_layout kind bs (length pre) xs) =
         map (\<lambda>x. vl_view bs (vl_build kind bs x)) xs"
  using assms
proof (induction xs arbitrary: pre)
  case Nil
  then show ?case by simp
next
  case (Cons x xs)
  have tl: "map (fl_view kind bs ((pre @ fl_bytes kind x) @ concat (map (fl_bytes kind) xs)))
      (fl_layout kind bs (length (pre @ fl_bytes kind x)) xs) =
    map (\<lambda>x. vl_view bs (vl_build kind bs x)) xs"
    by (rule Cons.IH) (use Cons.prems in auto)
  have hd: "fl_view kind bs (pre @ fl_bytes kind x @ concat (map (fl_bytes kind) xs))
      (hd (fl_layout kind bs (length pre) (x # xs))) = vl_view bs (vl_build kind bs x)"
  proof (cases x)
    case None
    then show ?thesis
      by (simp add: fl_view_def vl_view_def vl_build_def vl_null_def)
  next
    case (Some d)
    then show ?thesis
      using Cons.prems
      by (cases kind)
         (auto simp: fl_view_def vl_view_def vl_build_def vl_fresh_def fl_bytes_def
            takeWhile_append takeWhile_tail mult.commute
            simp flip: dvd_eq_mod_eq_0 split: vl_kind.splits)
  qed
  from tl hd show ?case by simp
qed

subsection \<open>Round trip\<close>

text \<open>A buffer the application may hand to a VL write: readable memory behind every pointer.\<close>

fun vl_ok :: "vl_kind \<Rightarrow> nat \<Rightarrow> vl_val \<Rightarrow> bool" where
  "vl_ok VL_SEQ base_size (Hvl len p) =
     (case p of None \<Rightarrow> True
        | Some m \<Rightarrow> len * base_size \<le> length m \<and> len * base_size < U64_MAX)"
| "vl_ok VL_STR base_size (Cstr p) =
     (case p of None \<Rightarrow> True | Some m \<Rightarrow> 0 \<in> set m \<and> length m \<le> U64_MAX)"
| "vl_ok _ _ _ = False"

lemma vl_elem_src_ok: "vl_ok kind bs v \<Longrightarrow> vl_elem_src kind bs v = Inr (vl_view bs v)"
  by (induction kind bs v rule: vl_ok.induct)
     (auto simp: vl_view_def mem_read_def wrap64_id c_strlen_def length_takeWhile_le
        simp flip: takeWhile_eq_take split: option.splits)

definition wire_ok :: "vl_kind \<Rightarrow> nat \<Rightarrow> byte list option \<Rightarrow> bool" where
  "wire_ok kind base_size src \<longleftrightarrow>
     (case src of None \<Rightarrow> True
        | Some d \<Rightarrow> length d < U64_MAX \<and> (kind = VL_SEQ \<longrightarrow> length d mod base_size = 0))"

lemma vl_view_wire_ok: "vl_ok kind bs v \<Longrightarrow> wire_ok kind bs (vl_view bs v)"
proof (induction kind bs v rule: vl_ok.induct)
  case (2 bs p)
  have "0 \<in> set m \<Longrightarrow> length (takeWhile (\<lambda>b. b \<noteq> 0) m) < length m" for m :: "byte list"
    by (metis (mono_tags, lifting) length_takeWhile_le le_neq_implies_less set_takeWhileD
        takeWhile_eq_take take_all_iff)
  then show ?case
    using 2 by (fastforce simp: vl_view_def wire_ok_def split: option.splits)
qed (auto simp: vl_view_def wire_ok_def min_absorb2 split: option.splits)

lemma vl_serialize_loop_ok:
  "list_all (vl_ok kind bs) buf \<Longrightarrow>
     vl_serialize_loop kind bs buf acc = Inr (acc @ concat (map (vl_wire \<circ> vl_view bs) buf))"
  by (induction buf arbitrary: acc) (auto simp: vl_elem_src_ok)

lemma vl_wire_simps:
  "vl_wire None = put_u64le 0"
  "vl_wire (Some d) = put_u64le (vl_tag (Some d)) @ d"
  by (simp_all add: vl_wire_def vl_tag_def)

lemma vl_tag_Some:
  assumes "length d < U64_MAX"
  shows "vl_tag (Some d) \<noteq> 0" and "unat (vl_tag (Some d) - 1) = length d"
proof -
  have "length d < 2 ^ LENGTH(64)" using assms by (simp add: U64_MAX_def)
  then show k: "unat (vl_tag (Some d) - 1) = length d"
    by (simp add: vl_tag_def unat_of_nat)
  have "unat (word_of_nat (length d) + 1 :: u64) = Suc (length d)"
    using assms by (simp add: unat_word_ariths U64_MAX_def unat_of_nat)
  then show "vl_tag (Some d) \<noteq> 0" by (auto simp: vl_tag_def)
qed

lemma vl_parse_wire:
  "list_all (wire_ok kind bs) xs \<Longrightarrow>
     vl_parse kind bs (concat (map vl_wire xs) @ rest) (length xs) = Some xs"
proof (induction xs)
  case Nil
  then show ?case by simp
next
  case (Cons x xs)
  then have IH: "vl_parse kind bs (concat (map vl_wire xs) @ rest) (length xs) = Some xs" by simp
  show ?case
  proof (cases x)
    case None
    then show ?thesis using IH by (simp add: vl_wire_simps Let_def)
  next
    case (Some d)
    then have "length d < U64_MAX" using Cons.prems by (simp add: wire_ok_def)
    note tag = vl_tag_Some [OF this]
    show ?thesis
      using IH Cons.prems Some tag by (auto simp: vl_wire_simps Let_def wire_ok_def)
  qed
qed

lemma vl_view_build:
  "kind \<noteq> VL_NONE \<Longrightarrow> vl_ok kind bs v \<Longrightarrow> vl_view bs (vl_build kind bs (vl_view bs v)) = vl_view bs v"
  by (induction kind bs v rule: vl_ok.induct)
     (auto simp: vl_view_def vl_build_def vl_null_def vl_fresh_def min_absorb2 takeWhile_tail
        takeWhile_append1 split: option.splits dest: set_takeWhileD)

definition vl_base :: "vl_kind \<Rightarrow> h5t \<Rightarrow> nat" where
  "vl_base kind ty = (if kind = VL_SEQ then H5Tget_size (H5Tget_super ty) else 0)"

lemma vl_base_size_eq:
  "type_vl_kind ty = kind \<Longrightarrow>
     vl_base_size kind ty =
       (if kind = VL_SEQ \<and> vl_base kind ty = 0 then Inl EFail else Inr (vl_base kind ty))"
  by (auto simp: vl_base_size_def vl_base_def type_vl_kind_iff)



text \<open>
  (C25) The deserializer never reads outside the payload it is given, whatever bytes that is:
  it either rejects the payload or returns exactly the requested number of elements.
\<close>

theorem vl_deserialize_memory_safe:
  "vl_deserialize kind ty bytes count = Inl EFail \<or>
   (\<exists>vs. vl_deserialize kind ty bytes count = Inr vs \<and> length vs = count)"
proof (cases "kind = VL_NONE")
  case False
  show ?thesis
  proof (cases "vl_base_size kind ty")
    case (Inl e)
    then show ?thesis using False by (auto simp: vl_deserialize_def vl_base_size_def split: if_splits)
  next
    case (Inr bs)
    then show ?thesis
      using False vl_parse_length [of kind bs bytes count]
      by (cases "vl_parse kind bs bytes count") (auto simp: vl_deserialize_def vl_deserialize_loop_parse)
  qed
qed (simp add: vl_deserialize_def)

text \<open>
  The guard on captured types is exact: a type passes it if and only if its values are
  self-contained bytes, or it is a top-level reference, or it is one of the two shapes that
  are deep-serialized. A pointer into the application's memory is therefore never captured
  by a plain copy.
\<close>

theorem capture_guard_exact:
  "type_unsafe_to_capture t = HFalse \<longleftrightarrow>
     self_contained t \<or> (\<exists>n. t = T_REFERENCE n) \<or> type_vl_kind t \<in> {VL_SEQ, VL_STR}"
proof (cases t)
  case (T_COMPOUND n ms)
  then show ?thesis
    using nested_unsafe_iff [of t] by (simp add: type_unsafe_to_capture_def)
next
  case (T_ARRAY n b)
  then show ?thesis
    using nested_unsafe_iff [of t] by (simp add: type_unsafe_to_capture_def)
qed (auto simp: type_unsafe_to_capture_def split: option.splits)

lemma vl_parse_base: "kind \<noteq> VL_SEQ \<Longrightarrow> vl_parse kind bs src n = vl_parse kind bs' src n"
  by (induction n arbitrary: src) (auto simp: Let_def)

lemma vl_parse_aligned:
  "vl_parse VL_SEQ bs src n = Some xs \<Longrightarrow> Some d \<in> set xs \<Longrightarrow> length d mod bs = 0"
  by (induction n arbitrary: src xs) (auto simp: Let_def min_def split: if_splits)

lemma vl_view_build_base: "kind \<noteq> VL_SEQ \<Longrightarrow> vl_view bs (vl_build kind bs x) = vl_view bs' (vl_build kind bs' x)"
  by (cases x) (simp_all add: vl_view_def vl_build_def vl_null_def vl_fresh_def)

text \<open>
  (C28) A subscriber's one-block decode agrees with the replay decode on every payload: it
  fails exactly when that fails, and otherwise reads the same values through its pointer
  array. Its second pass, which checks nothing, stays inside the payload and inside the
  allocation the first pass sized.
\<close>

theorem vl_flatten_agrees:
  assumes "H5Tdecode2 type_enc = Some ty" and "type_vl_kind ty = kind" and "kind \<noteq> VL_NONE"
  shows "case vl_deserialize kind ty src count of
      Inl e \<Rightarrow> vl_flatten H5Tdecode2 type_enc src count = Inl EFail
    | Inr vs \<Rightarrow> \<exists>fl. vl_flatten H5Tdecode2 type_enc src count = Inr fl \<and>
        map (fl_view kind (vl_base kind ty) (fl_data fl)) (fl_ptrs fl) =
          map (vl_view (vl_base kind ty)) vs \<and>
        length (fl_data fl) < fl_cap fl \<and>
        fl_size fl = count * (if kind = VL_SEQ then 16 else 8)"
proof (cases "vl_base_size kind ty")
  case (Inl e)
  then show ?thesis
    using assms by (auto simp: vl_deserialize_def vl_flatten_def vl_base_size_def split: if_splits)
next
  case (Inr bs)
  let ?b = "if kind = VL_SEQ then bs else 1"
  have bs: "bs = vl_base kind ty"
    using Inr assms(2) by (auto simp: vl_base_size_eq split: if_splits)
  have parse: "vl_parse kind ?b src count = vl_parse kind bs src count"
    by (cases "kind = VL_SEQ") (auto intro: vl_parse_base)
  show ?thesis
  proof (cases "vl_parse kind bs src count")
    case None
    then show ?thesis
      using assms Inr parse
      by (simp add: vl_deserialize_def vl_flatten_def vl_deserialize_loop_parse vl_flatten_pass1_parse
          Let_def split del: if_split)
  next
    case (Some xs)
    have views: "map (fl_view kind ?b (concat (map (fl_bytes kind) xs))) (fl_layout kind ?b 0 xs) =
        map (\<lambda>x. vl_view ?b (vl_build kind ?b x)) xs"
      using fl_view_layout [of kind xs ?b "[]"] assms(3) Some vl_parse_aligned by force
    have flv: "fl_view kind ?b = fl_view kind bs"
      by (auto simp: fl_view_def fun_eq_iff)
    have vv: "map (\<lambda>x. vl_view ?b (vl_build kind ?b x)) xs = map (\<lambda>x. vl_view bs (vl_build kind bs x)) xs"
      by (cases "kind = VL_SEQ") (auto intro: vl_view_build_base)
    have p1: "vl_flatten_pass1 kind ?b src 0 0 count = Inr (length (concat (map (fl_bytes kind) xs)))"
      using parse Some by (simp add: vl_flatten_pass1_parse del: length_concat)
    have p2: "vl_flatten_pass2 kind ?b src 0 count [] [] =
        Inr (fl_layout kind ?b 0 xs, concat (map (fl_bytes kind) xs))"
      using parse Some vl_flatten_pass2_parse [of 0 src kind ?b count xs "[]" "[]"] by simp
    let ?fl = "\<lparr>fl_ptrs = fl_layout kind ?b 0 xs, fl_data = concat (map (fl_bytes kind) xs),
        fl_cap = length (concat (map (fl_bytes kind) xs)) + 1,
        fl_size = count * (if kind = VL_SEQ then 16 else 8)\<rparr>"
    have "vl_flatten H5Tdecode2 type_enc src count = Inr ?fl"
      using assms Inr p1 p2 unfolding vl_flatten_def by (simp only: option.case Let_def) simp
    moreover have "vl_deserialize kind ty src count = Inr (map (vl_build kind bs) xs)"
      using assms(3) Inr Some by (simp add: vl_deserialize_def vl_deserialize_loop_parse)
    moreover have "map (fl_view kind bs (fl_data ?fl)) (fl_ptrs ?fl) =
        map (vl_view bs) (map (vl_build kind bs) xs)"
      using views [unfolded flv vv] by simp
    ultimately show ?thesis using bs by auto
  qed
qed

theorem vl_flatten_agrees_witness:
  "\<exists>fl. vl_flatten (\<lambda>_. Some (T_STRING 8 (Some True))) []
       [2, 0, 0, 0, 0, 0, 0, 0, 65, 0, 0, 0, 0, 0, 0, 0, 0] 2 = Inr fl \<and>
     map (fl_view VL_STR 0 (fl_data fl)) (fl_ptrs fl) = [Some [65], None] \<and>
     length (fl_data fl) < fl_cap fl \<and> fl_size fl = 16"
proof -
  let ?ty = "T_STRING 8 (Some True)"
  have "vl_deserialize VL_STR ?ty [2, 0, 0, 0, 0, 0, 0, 0, 65, 0, 0, 0, 0, 0, 0, 0, 0] 2
      = Inr [Cstr (Some [65, 0]), Cstr None]"
    by code_simp
  moreover have "map (vl_view 0) [Cstr (Some [65, 0]), Cstr None] = [Some [65], None]"
    by (simp add: vl_view_def)
  ultimately show ?thesis
    using vl_flatten_agrees [of "\<lambda>_. Some ?ty" "[]" ?ty VL_STR
        "[2, 0, 0, 0, 0, 0, 0, 0, 65, 0, 0, 0, 0, 0, 0, 0, 0]" 2]
    by (simp add: vl_base_def)
qed

end
