(* ===== verification/VS_Backfill.thy ===== *)
theory VS_Backfill
  imports VS_Push VS_Step VS_VL
begin

text \<open>
  The backfill of late joiners: \<open>H5VL__stream_backfill_one\<close>, \<open>H5VL__stream_backfill_vl\<close> and the
  loop of \<open>H5VL__stream_serve_backfill\<close> over the transport's requests, composed with the
  subscription table (\<open>VS_Group\<close>), the data plane and the announcements (\<open>VS_Push\<close>) and the path
  index (\<open>VS_Step\<close>).

  Reading a committed step back is HDF5's work: \<open>back_api\<close> holds the calls the code makes. An
  opened object is what the calls on it return: the memory type (\<open>H5Tget_native_type\<close> of its type),
  its dataspace and its elements under a file selection, \<open>None\<close> standing for \<open>H5S_ALL\<close>; elements of
  a variable-length type are \<open>vl_val\<close>s. \<open>b_step\<close> is \<open>H5VL__stream_step_manifest\<close>: the entries of
  the verified manifest of a committed step. What is sent and announced goes to a trace.
\<close>

record back_obj =
  bo_native :: "h5t option"
  bo_space :: "dspace option"
  bo_read :: "dspace option \<Rightarrow> byte list option"
  bo_read_vl :: "dspace option \<Rightarrow> vl_val list option"

record back_api =
  b_open :: "string \<Rightarrow> string option \<Rightarrow> back_obj option"
  b_encode_type :: "h5t \<Rightarrow> byte list option"
  b_encode_space :: "dspace \<Rightarrow> byte list option"
  b_decode_space :: "byte list \<Rightarrow> dspace option"
  b_extent :: "dspace \<Rightarrow> nat option"
  b_step :: "nat \<Rightarrow> vs_entry list option"

datatype bf_event = Sent member_id data_item | Told member_id nat

record bf_state =
  bf_tr :: tr
  bf_ps :: push_state
  bf_net :: net
  bf_trace :: "bf_event list"

definition DELIVERY_VL_SERIALIZED :: u32 where "DELIVERY_VL_SERIALIZED = 0x80000000"

text \<open>A result that may not come back (\<open>None\<close>) and that may be a read outside a buffer.\<close>

definition obind :: "'a cres option \<Rightarrow> ('a \<Rightarrow> 'b cres option) \<Rightarrow> 'b cres option" where
  "obind m f = (case m of None \<Rightarrow> None | Some (Inl e) \<Rightarrow> Some (Inl e) | Some (Inr a) \<Rightarrow> f a)"

lemma obind_simps [simp]: "obind None f = None" "obind (Some (Inl e)) f = Some (Inl e)" "obind (Some (Inr a)) f = f a"
  by (simp_all add: obind_def)

subsection \<open>Pushing, with the outcome ignored\<close>

definition bf_push ::
  "(tr \<Rightarrow> push_state \<Rightarrow> (tr \<times> push_state \<times> (member_id \<times> data_item) list) cres) \<Rightarrow> bf_state \<Rightarrow> bf_state cres" where
  "bf_push f s =
     (case f (bf_tr s) (bf_ps s) of
        Inr (tr, ps, out) \<Rightarrow> Inr (s\<lparr>bf_tr := tr, bf_ps := ps, bf_trace := bf_trace s @ map (\<lambda>(m, i). Sent m i) out\<rparr>)
      | Inl EFail \<Rightarrow> Inr s
      | Inl EOob \<Rightarrow> Inl EOob)"

definition release_sources :: "push_env \<Rightarrow> bf_state \<Rightarrow> bf_state" where
  "release_sources penv s = s\<lparr>bf_ps := drain_borrowed penv (bf_ps s)\<rparr>"

definition opt_bytes :: "byte list option \<Rightarrow> byte list" where
  "opt_bytes b = (case b of None \<Rightarrow> [] | Some bs \<Rightarrow> bs)"

definition back_write ::
  "back_api \<Rightarrow> h5t \<Rightarrow> dspace \<Rightarrow> string \<Rightarrow> nat \<Rightarrow> byte list \<Rightarrow> nat \<Rightarrow> nat \<Rightarrow> write_rec" where
  "back_write api mtype space path k buf start n =
     \<lparr>wr_step = k, wr_path = path, wr_buf = buf, wr_elem_size = H5Tget_size mtype, wr_start = start, wr_count = n,
      wr_type = opt_bytes (b_encode_type api mtype), wr_native = [], wr_space = opt_bytes (b_encode_space api space)\<rparr>"

definition push_opaque_to ::
  "push_env \<Rightarrow> member_id \<Rightarrow> write_rec \<Rightarrow> tr \<Rightarrow> push_state \<Rightarrow> (tr \<times> push_state \<times> (member_id \<times> data_item) list) cres" where
  "push_opaque_to penv m wr tr ps = push_opaque penv (Some m) DELIVERY_VL_SERIALIZED wr tr ps"

subsection \<open>Objects of variable length\<close>

definition push_vl ::
  "back_api \<Rightarrow> push_env \<Rightarrow> member_id \<Rightarrow> string \<Rightarrow> nat \<Rightarrow> h5t \<Rightarrow> dspace \<Rightarrow> vl_val list \<Rightarrow> nat \<Rightarrow> nat \<Rightarrow> bf_state \<Rightarrow> bf_state cres" where
  "push_vl api penv m path k mtype space vs start n s =
     (case vl_serialize (type_vl_kind mtype) mtype vs of
        Inl EFail \<Rightarrow> Inr s
      | Inl EOob \<Rightarrow> Inl EOob
      | Inr ser \<Rightarrow>
          cbind (bf_push (push_opaque_to penv m (back_write api mtype space path k ser start n)) s)
            (\<lambda>s. Inr (release_sources penv s)))"

definition is_write_of :: "string \<Rightarrow> vs_entry \<Rightarrow> bool" where
  "is_write_of path e \<longleftrightarrow> en_kind e = DsetWrite \<and> en_path e = Some path \<and> en_space_enc e \<noteq> []"

fun backfill_vl_entries ::
  "back_api \<Rightarrow> push_env \<Rightarrow> member_id \<Rightarrow> string \<Rightarrow> nat \<Rightarrow> back_obj \<Rightarrow> h5t \<Rightarrow> dspace \<Rightarrow> vs_entry list \<Rightarrow> bf_state \<Rightarrow> bf_state cres option" where
  "backfill_vl_entries api penv m path k obj mtype space [] s = Some (Inr s)"
| "backfill_vl_entries api penv m path k obj mtype space (e # es) s =
     (case (if is_write_of path e then b_decode_space api (en_space_enc e) else None) of
        None \<Rightarrow> backfill_vl_entries api penv m path k obj mtype space es s
      | Some sel \<Rightarrow>
          (case ds_npoints sel of
             None \<Rightarrow> backfill_vl_entries api penv m path k obj mtype space es s
           | Some n \<Rightarrow>
               if n = 0 then backfill_vl_entries api penv m path k obj mtype space es s
               else Option.bind (flat_runs sel 1) (\<lambda>r.
                 case (r, bo_read_vl obj (Some sel)) of
                   (Inr [run], Some vs) \<Rightarrow>
                     obind (Some (push_vl api penv m path k mtype space vs (run_start run) (run_count run) s))
                       (backfill_vl_entries api penv m path k obj mtype space es)
                 | (Inl EOob, _) \<Rightarrow> Some (Inl EOob)
                 | _ \<Rightarrow> backfill_vl_entries api penv m path k obj mtype space es s)))"

definition backfill_vl ::
  "back_api \<Rightarrow> push_env \<Rightarrow> member_id \<Rightarrow> string \<Rightarrow> nat \<Rightarrow> back_obj \<Rightarrow> bool \<Rightarrow> h5t \<Rightarrow> dspace \<Rightarrow> vs_entry list option \<Rightarrow> bf_state \<Rightarrow> bf_state cres option" where
  "backfill_vl api penv m path k obj is_attr mtype space step s =
     (if is_attr
      then (case (b_extent api space, bo_read_vl obj None) of
              (Some n, Some vs) \<Rightarrow> if n = 0 then Some (Inr s) else Some (push_vl api penv m path k mtype space vs 0 n s)
            | _ \<Rightarrow> Some (Inr s))
      else (case step of
              None \<Rightarrow> Some (Inr s)
            | Some es \<Rightarrow> backfill_vl_entries api penv m path k obj mtype space es s))"

subsection \<open>Objects of fixed-size elements\<close>

fun backfill_runs ::
  "back_api \<Rightarrow> push_env \<Rightarrow> member_id \<Rightarrow> string \<Rightarrow> nat \<Rightarrow> h5t \<Rightarrow> dspace \<Rightarrow> byte list \<Rightarrow> nat \<Rightarrow> flat_run list \<Rightarrow> bf_state \<Rightarrow> bf_state cres" where
  "backfill_runs api penv m path k mtype space wbuf off [] s = Inr s"
| "backfill_runs api penv m path k mtype space wbuf off (r # rs) s =
     cbind (mem_read wbuf (off * H5Tget_size mtype) (run_count r * H5Tget_size mtype)) (\<lambda>bytes.
       cbind (bf_push (push_data_to penv m (back_write api mtype space path k bytes (run_start r) (run_count r))) s)
         (backfill_runs api penv m path k mtype space wbuf (off + run_count r) rs))"

text \<open>The loop over the entries of the manifest; the flag is \<open>whole\<close>.\<close>

fun backfill_entries ::
  "back_api \<Rightarrow> push_env \<Rightarrow> member_id \<Rightarrow> string \<Rightarrow> nat \<Rightarrow> back_obj \<Rightarrow> h5t \<Rightarrow> dspace \<Rightarrow> vs_entry list \<Rightarrow> bf_state \<Rightarrow> (bf_state \<times> bool) cres option" where
  "backfill_entries api penv m path k obj mtype space [] s = Some (Inr (s, False))"
| "backfill_entries api penv m path k obj mtype space (e # es) s =
     (case (if is_write_of path e then b_decode_space api (en_space_enc e) else None) of
        None \<Rightarrow> backfill_entries api penv m path k obj mtype space es s
      | Some sel \<Rightarrow>
          (case ds_npoints sel of
             None \<Rightarrow> backfill_entries api penv m path k obj mtype space es s
           | Some ns \<Rightarrow>
               if ns = 0 then backfill_entries api penv m path k obj mtype space es s
               else Option.bind (flat_runs sel MAX_PUSH_RUNS) (\<lambda>r.
                 case r of
                   Inl EFail \<Rightarrow> Some (Inr (s, True))
                 | Inl EOob \<Rightarrow> Some (Inl EOob)
                 | Inr runs \<Rightarrow>
                     if runs = [] then Some (Inr (s, True))
                     else (case bo_read obj (Some sel) of
                         None \<Rightarrow> backfill_entries api penv m path k obj mtype space es s
                       | Some wbuf \<Rightarrow>
                           obind (Some (backfill_runs api penv m path k mtype space wbuf 0 runs s)) (\<lambda>s.
                             backfill_entries api penv m path k obj mtype space es (release_sources penv s))))))"

definition backfill_whole ::
  "back_api \<Rightarrow> push_env \<Rightarrow> member_id \<Rightarrow> string \<Rightarrow> nat \<Rightarrow> back_obj \<Rightarrow> h5t \<Rightarrow> dspace \<Rightarrow> nat \<Rightarrow> bf_state \<Rightarrow> bf_state cres" where
  "backfill_whole api penv m path k obj mtype space n s =
     (case bo_read obj None of
        None \<Rightarrow> Inr s
      | Some buf \<Rightarrow>
          cbind (bf_push (push_data_to penv m (back_write api mtype space path k buf 0 n)) s)
            (\<lambda>s. Inr (release_sources penv s)))"

text \<open>\<open>snprintf\<close> into \<open>char full[1024]\<close>.\<close>

definition full_name :: "nat \<Rightarrow> string \<Rightarrow> string" where
  "full_name k p = take 1023 (step_path k p)"

definition open_back :: "back_api \<Rightarrow> string \<Rightarrow> nat \<Rightarrow> back_obj option" where
  "open_back api path k =
     (if CHR ''@'' \<in> set path
      then b_open api (full_name k (takeWhile (\<lambda>c. c \<noteq> CHR ''@'') path)) (Some (tl (dropWhile (\<lambda>c. c \<noteq> CHR ''@'') path)))
      else b_open api (full_name k path) None)"

definition backfill_one ::
  "back_api \<Rightarrow> push_env \<Rightarrow> member_id \<Rightarrow> string \<Rightarrow> nat \<Rightarrow> vs_entry list option \<Rightarrow> bf_state \<Rightarrow> bf_state cres option" where
  "backfill_one api penv m path k step s =
     (let at = CHR ''@'' \<in> set path in
      case open_back api path k of
        None \<Rightarrow> Some (Inr s)
      | Some obj \<Rightarrow>
          (case (bo_native obj, bo_space obj) of
             (Some mtype, Some space) \<Rightarrow>
               if type_vl_kind mtype \<noteq> VL_NONE then backfill_vl api penv m path k obj at mtype space step s
               else if H5Tget_size mtype = 0 then Some (Inr s)
               else (case b_extent api space of
                   None \<Rightarrow> Some (Inr s)
                 | Some n \<Rightarrow>
                     if n = 0 then Some (Inr s)
                     else if \<not> at \<and> step \<noteq> None
                     then obind (backfill_entries api penv m path k obj mtype space (the step) s) (\<lambda>(s, whole).
                       if whole then Some (backfill_whole api penv m path k obj mtype space n s) else Some (Inr s))
                     else Some (backfill_whole api penv m path k obj mtype space n s))
           | _ \<Rightarrow> Some (Inr s)))"

subsection \<open>Serving every pending request\<close>

definition perform ::
  "back_api \<Rightarrow> push_env \<Rightarrow> link_env \<Rightarrow> backfill_action \<Rightarrow> bf_state \<Rightarrow> bf_state cres option" where
  "perform api penv env act s =
     (case act of
        Push m p k \<Rightarrow> backfill_one api penv m p k (b_step api k) s
      | Announce m k \<Rightarrow>
          (case announce_to penv env m k 0 (bf_tr s) (bf_ps s) (bf_net s) of
             (tr, ps, net, _) \<Rightarrow> Some (Inr (s\<lparr>bf_tr := tr, bf_ps := ps, bf_net := net, bf_trace := bf_trace s @ [Told m k]\<rparr>))))"

fun perform_all ::
  "back_api \<Rightarrow> push_env \<Rightarrow> link_env \<Rightarrow> backfill_action list \<Rightarrow> bf_state \<Rightarrow> bf_state cres option" where
  "perform_all api penv env [] s = Some (Inr s)"
| "perform_all api penv env (act # acts) s = obind (perform api penv env act s) (perform_all api penv env acts)"

partial_function (option) serve_pending ::
  "back_api \<Rightarrow> push_env \<Rightarrow> link_env \<Rightarrow> file_state \<Rightarrow> bf_state \<Rightarrow> bf_state cres option" where
  "serve_pending api penv env fs s =
     (if fs_is_reader fs \<or> \<not> fs_transport fs then Some (Inr s)
      else case take_backfill (bf_tr s) of
        (tr, None) \<Rightarrow> Some (Inr s)
      | (tr, Some (m, paths, from)) \<Rightarrow>
          Option.bind (serve_backfill fs m paths from) (\<lambda>acts.
            Option.bind (perform_all api penv env acts (s\<lparr>bf_tr := tr\<rparr>)) (\<lambda>r.
              case r of Inl e \<Rightarrow> Some (Inl e) | Inr s \<Rightarrow> serve_pending api penv env fs s)))"

section \<open>Every push comes back and keeps the tables\<close>

text \<open>What the data plane may not change of the writer's tables: all but the cached addresses.\<close>

definition tr_view :: "(string \<Rightarrow> nat option) \<Rightarrow> tr \<Rightarrow>
    sub_entry list \<times> bool \<times> bool \<times> member_id \<times> member_id list \<times> (member_id \<Rightarrow> nat option)" where
  "tr_view look tr = (tr_subs tr, tr_is_writer tr, tr_in_group tr, tr_self_id tr, map m_id (tr_members tr), \<lambda>m. snd (member_addr look m tr))"

lemma tr_view_member_addr [simp]: "tr_view look (fst (member_addr look m tr)) = tr_view look tr"
proof -
  have "tr_subs (fst (member_addr look m tr)) = tr_subs tr \<and> tr_is_writer (fst (member_addr look m tr)) = tr_is_writer tr \<and>
      tr_in_group (fst (member_addr look m tr)) = tr_in_group tr \<and> tr_self_id (fst (member_addr look m tr)) = tr_self_id tr \<and>
      map m_id (tr_members (fst (member_addr look m tr))) = map m_id (tr_members tr)"
    by (simp add: member_addr_def cache_addr_ids split: option.split)
  then show ?thesis by (simp add: tr_view_def member_addr_stable)
qed

lemma tr_view_cached: "member_addr look m tr = (tr', a) \<Longrightarrow> tr_view look tr' = tr_view look tr"
  using tr_view_member_addr [of look m tr] by simp

lemma push_sub_view: "push_sub env wr e tr ps = Inr (tr', ps', out) \<Longrightarrow> tr_view (pe_lookup env) tr' = tr_view (pe_lookup env) tr"
  by (auto simp: push_sub_def Let_def tr_view_cached split: if_splits prod.splits option.splits)

lemma push_subs_view: "push_subs env wr es tr ps = Inr (tr', ps', out) \<Longrightarrow> tr_view (pe_lookup env) tr' = tr_view (pe_lookup env) tr"
  by (induction es arbitrary: tr ps out) (auto dest!: push_sub_view)

lemma push_opaque_each_view: "push_opaque_each env x wr es tr ps = Inr (tr', ps', out) \<Longrightarrow> tr_view (pe_lookup env) tr' = tr_view (pe_lookup env) tr"
proof (induction es arbitrary: tr ps out)
  case (Cons e es)
  have "tr_view (pe_lookup env) t1 = tr_view (pe_lookup env) tr" if "push_opaque_one env x wr e tr ps = Inr (t1, p1, o1)" for t1 p1 o1
    using that by (auto simp: push_opaque_one_def tr_view_cached split: if_splits prod.splits option.splits)
  then show ?case using Cons by (auto simp: case_prod_unfold)
qed simp

lemma push_one_item_inv: "ps_inv ps \<Longrightarrow> push_one_item env addr m item owned ps = (ps', out, u) \<Longrightarrow> ps_inv ps'"
  using push_one_item_pushes [of "\<lambda>_. True" item env addr m owned] by (auto simp: pushes_ok_def pushed_def)

lemma opaque_delivery_ok:
  assumes "callbacks_ok env"
  obtains d where "opaque_delivery env x wr e = Inr d"
proof -
  have "\<exists>d. opaque_delivery env x wr e = Inr d"
  proof (cases "pe_selection env")
    case (Some f)
    then have "f (se_space e) (wr_space wr) (wr_start wr) (wr_count wr) 1 \<noteq> Inl EOob" using assms by (simp add: callbacks_ok_def)
    then show ?thesis using Some
      by (cases "f (se_space e) (wr_space wr) (wr_start wr) (wr_count wr) 1") (auto simp: opaque_delivery_def Let_def not_EOob)
  qed (simp add: opaque_delivery_def Let_def)
  then show thesis using that by blast
qed

lemma push_opaque_each_total:
  assumes "callbacks_ok env" "ps_inv ps"
  shows "\<exists>tr' ps' out. push_opaque_each env x wr es tr ps = Inr (tr', ps', out) \<and> ps_inv ps'"
  using assms(2)
proof (induction es arbitrary: tr ps)
  case (Cons e es)
  obtain d where d: "opaque_delivery env x wr e = Inr d" using opaque_delivery_ok [OF assms(1)] .
  have "\<exists>t1 p1 o1. push_opaque_one env x wr e tr ps = Inr (t1, p1, o1) \<and> ps_inv p1"
    using Cons.prems d push_one_item_inv [OF Cons.prems]
    by (fastforce simp: push_opaque_one_def split: prod.splits option.splits)
  then obtain t1 p1 o1 where 1: "push_opaque_one env x wr e tr ps = Inr (t1, p1, o1)" "ps_inv p1" by blast
  then show ?case using Cons.IH [OF 1(2), of t1] by auto
qed simp

definition bf_ok :: "bf_state \<Rightarrow> bool" where
  "bf_ok s \<longleftrightarrow> tr_in_group (bf_tr s) \<and> distinct (map sub_key (tr_subs (bf_tr s))) \<and> ps_inv (bf_ps s)"

definition bf_same :: "(string \<Rightarrow> nat option) \<Rightarrow> bf_state \<Rightarrow> bf_state \<Rightarrow> bool" where
  "bf_same look s s' \<longleftrightarrow> tr_view look (bf_tr s') = tr_view look (bf_tr s) \<and> bf_net s' = bf_net s \<and> bf_ok s'"

lemma bf_same_refl: "bf_ok s \<Longrightarrow> bf_same look s s"
  by (simp add: bf_same_def)

lemma bf_same_trans: "bf_same look s s' \<Longrightarrow> bf_same look s' s'' \<Longrightarrow> bf_same look s s''"
  by (simp add: bf_same_def)

lemma bf_same_ok: "bf_same look s s' \<Longrightarrow> bf_ok s'"
  by (simp add: bf_same_def)

lemma bf_same_view: "bf_ok s \<Longrightarrow> tr_view look tr = tr_view look (bf_tr s) \<Longrightarrow> ps_inv ps \<Longrightarrow> bf_same look s (s\<lparr>bf_tr := tr, bf_ps := ps, bf_trace := t\<rparr>)"
  by (simp add: bf_same_def bf_ok_def tr_view_def)

lemma bf_push_data:
  assumes "callbacks_ok penv" "wr_ok wr" "wr_native wr = []" "bf_ok s"
  obtains s' where "bf_push (push_data_to penv m wr) s = Inr s'" "bf_same (pe_lookup penv) s s'"
proof -
  let ?ps = "(bf_ps s)\<lparr>ps_failed := []\<rparr>"
  have inv: "ps_inv ?ps" and d: "distinct (map se_member (push_targets (wr_path wr) (Some m) (bf_tr s)))"
    using assms(4) by (simp_all add: bf_ok_def ps_inv_def targets_distinct)
  obtain tr ps out where r: "push_subs penv wr (push_targets (wr_path wr) (Some m) (bf_tr s)) (bf_tr s) ?ps = Inr (tr, ps, out)" "ps_inv ps"
    using push_subs_result [OF assms(1,2) inv d, of "bf_tr s"] by blast
  have "wr\<lparr>wr_native := []\<rparr> = wr" using assms(3) by simp
  then have "push_data_to penv m wr (bf_tr s) (bf_ps s) = Inr (tr, ps, out)"
    using assms(2,4) r(1) by (simp add: push_data_to_def push_data_def wr_ok_def bf_ok_def)
  then show thesis using that bf_same_view [OF assms(4) push_subs_view [OF r(1)] r(2)] by (simp add: bf_push_def)
qed

lemma bf_push_opaque:
  assumes "callbacks_ok penv" "bf_ok s"
  obtains s' where "bf_push (push_opaque_to penv m wr) s = Inr s'" "bf_same (pe_lookup penv) s s'"
proof (cases "length (wr_buf wr) = 0")
  case True
  then show thesis using that [of s] assms(2) by (simp add: bf_push_def push_opaque_to_def push_opaque_def bf_same_refl)
next
  case False
  let ?ps = "(bf_ps s)\<lparr>ps_failed := []\<rparr>"
  let ?es = "filter (\<lambda>e. se_member e \<noteq> tr_self_id (bf_tr s) \<and> opaque_touches wr e) (push_targets (wr_path wr) (Some m) (bf_tr s))"
  have inv: "ps_inv ?ps" using assms(2) by (simp add: bf_ok_def ps_inv_def)
  obtain tr ps out where r: "push_opaque_each penv DELIVERY_VL_SERIALIZED wr ?es (bf_tr s) ?ps = Inr (tr, ps, out)" "ps_inv ps"
    using push_opaque_each_total [OF assms(1) inv, of DELIVERY_VL_SERIALIZED wr ?es "bf_tr s"] by blast
  then show thesis
    using that bf_same_view [OF assms(2) push_opaque_each_view [OF r(1)] r(2)] False assms(2)
    by (simp add: bf_push_def push_opaque_to_def push_opaque_def bf_ok_def)
qed

lemma release_sources_same: "bf_ok s \<Longrightarrow> bf_same look s (release_sources penv s)"
  using drain_borrowed_inv [of "bf_ps s" penv] by (simp add: bf_same_def bf_ok_def release_sources_def)

text \<open>
  What the code relies on of HDF5: a decoded selection lies in its extent and counts its elements,
  a read fills the buffer of that many elements of the memory type, and a read of variable-length
  elements yields readable ones.
\<close>

definition sel_ok :: "dspace \<Rightarrow> bool" where
  "sel_ok sp \<longleftrightarrow>
     (if ds_scalar sp then ds_npoints sp = Some 1
      else case ds_dims sp of
        None \<Rightarrow> True
      | Some dims \<Rightarrow> dims = [] \<or> prod_list dims \<le> U64_MAX \<and>
          (case ds_sel sp of
             SEL_ALL \<Rightarrow> ds_npoints sp = Some (prod_list dims)
           | SEL_HYPERSLABS (Some blocks) \<Rightarrow> list_all (block_ok dims) blocks \<and> ds_npoints sp = Some (length (concat (map (block_elems dims) blocks)))
           | _ \<Rightarrow> True))"

definition obj_ok :: "back_api \<Rightarrow> back_obj \<Rightarrow> bool" where
  "obj_ok api obj \<longleftrightarrow> (\<forall>ty. bo_native obj = Some ty \<longrightarrow>
     (\<forall>sp n buf. bo_space obj = Some sp \<and> b_extent api sp = Some n \<and> bo_read obj None = Some buf \<longrightarrow>
        length buf = n * H5Tget_size ty \<and> n \<le> U64_MAX) \<and>
     (\<forall>bs sel n buf. b_decode_space api bs = Some sel \<and> ds_npoints sel = Some n \<and> bo_read obj (Some sel) = Some buf \<longrightarrow>
        length buf = n * H5Tget_size ty) \<and>
     (\<forall>sel vs. bo_read_vl obj sel = Some vs \<longrightarrow> list_all (vl_ok (type_vl_kind ty) (vl_base (type_vl_kind ty) ty)) vs))"

definition back_ok :: "back_api \<Rightarrow> bool" where
  "back_ok api \<longleftrightarrow> (\<forall>bs sel. b_decode_space api bs = Some sel \<longrightarrow> sel_ok sel) \<and>
     (\<forall>f a obj. b_open api f a = Some obj \<longrightarrow> obj_ok api obj)"

lemma canon_bound:
  assumes "\<forall>x \<in> set xs. x < n" "r \<in> set (canon xs)"
  shows "run_start r + run_count r \<le> n"
  using runs_elems_bound [of "canon xs" n r] assms pushes_pos [of "[]" xs] by (simp add: canon_def [symmetric])

lemma block_ok_pos: "block_ok dims blk \<Longrightarrow> list_all (\<lambda>d. 0 < d) dims"
  by (fastforce simp: block_ok_def list_all2_conv_all_nth list_all_length)

lemma flat_runs_ok:
  assumes "sel_ok sp" "0 < m"
  shows "flat_runs sp m = Some (Inl EFail) \<or>
    (\<exists>runs. flat_runs sp m = Some (Inr runs) \<and> (\<forall>r \<in> set runs. run_start r + run_count r \<le> U64_MAX) \<and>
       ds_npoints sp = Some (length (runs_elems runs)))"
proof (cases "\<not> ds_scalar sp \<and> (\<exists>dims blocks. ds_dims sp = Some dims \<and> dims \<noteq> [] \<and> ds_sel sp = SEL_HYPERSLABS (Some blocks) \<and> blocks \<noteq> [])")
  case True
  then obtain dims blocks where h: "\<not> ds_scalar sp" "ds_dims sp = Some dims" "dims \<noteq> []" "ds_sel sp = SEL_HYPERSLABS (Some blocks)" "blocks \<noteq> []"
    by blast
  let ?xs = "concat (map (block_elems dims) blocks)"
  have ok: "prod_list dims \<le> U64_MAX" "list_all (block_ok dims) blocks" "ds_npoints sp = Some (length ?xs)"
    using assms(1) h by (auto simp: sel_ok_def)
  have ext: "ext_ok dims" using ok(1,2) h(5) block_ok_pos [of dims "hd blocks"] by (cases blocks) (auto simp: ext_ok_def)
  have "\<forall>x \<in> set ?xs. x < U64_MAX" using block_elems_bound [OF ok(2)] ok(1) by fastforce
  then have "\<forall>r \<in> set (canon ?xs). run_start r + run_count r \<le> U64_MAX" using canon_bound by blast
  then show ?thesis
    using flat_runs_hyperslabs [OF h(1,2,3) ext h(4,5) ok(2) assms(2)] ok(3) by (simp add: bounded_def)
next
  case False
  then show ?thesis
    using assms by (auto simp: flat_runs_def flat_runs_range_def sel_ok_def Let_def run_elems_def U64_MAX_val
        split: option.split h5sel.split if_splits)
qed

lemma back_write_ok:
  assumes "0 < H5Tget_size mtype" "length buf = n * H5Tget_size mtype" "start + n \<le> U64_MAX"
  shows "wr_ok (back_write api mtype space path k buf start n)" "wr_native (back_write api mtype space path k buf start n) = []"
  using assms by (simp_all add: wr_ok_def back_write_def)

lemma backfill_runs_total:
  assumes "callbacks_ok penv" "0 < H5Tget_size mtype" "bf_ok s"
    and "\<forall>r \<in> set runs. run_start r + run_count r \<le> U64_MAX" "(off + length (runs_elems runs)) * H5Tget_size mtype \<le> length wbuf"
  shows "\<exists>s'. backfill_runs api penv m path k mtype space wbuf off runs s = Inr s' \<and> bf_same (pe_lookup penv) s s'"
  using assms(3-5)
proof (induction runs arbitrary: off s)
  case (Cons r rs)
  let ?z = "H5Tget_size mtype"
  have "(off + run_count r) * ?z \<le> (off + length (runs_elems (r # rs))) * ?z" by (intro mult_le_mono1) simp
  then have le: "off * ?z + run_count r * ?z \<le> length wbuf" using Cons.prems(3) by (simp add: add_mult_distrib)
  let ?b = "take (run_count r * ?z) (drop (off * ?z) wbuf)"
  have "length ?b = run_count r * ?z" using le by simp
  note ok = back_write_ok [OF assms(2) this, of "run_start r" api space path k]
  obtain s1 where 1: "bf_push (push_data_to penv m (back_write api mtype space path k ?b (run_start r) (run_count r))) s = Inr s1" "bf_same (pe_lookup penv) s s1"
    using bf_push_data [OF assms(1) ok Cons.prems(1)] Cons.prems(2) by auto
  have "\<exists>s'. backfill_runs api penv m path k mtype space wbuf (off + run_count r) rs s1 = Inr s' \<and> bf_same (pe_lookup penv) s1 s'"
    using Cons.prems(2,3) by (intro Cons.IH [OF bf_same_ok [OF 1(2)]]) (simp_all add: ac_simps)
  then show ?case using 1 le by (auto simp: mem_read_ok intro: bf_same_trans)
qed (simp add: bf_same_refl)

lemma obj_ok_reads:
  assumes "obj_ok api obj" "bo_native obj = Some ty"
  shows "bo_space obj = Some sp \<Longrightarrow> b_extent api sp = Some n \<Longrightarrow> bo_read obj None = Some buf \<Longrightarrow> length buf = n * H5Tget_size ty \<and> n \<le> U64_MAX"
    and "b_decode_space api bs = Some sel \<Longrightarrow> ds_npoints sel = Some n \<Longrightarrow> bo_read obj (Some sel) = Some buf \<Longrightarrow> length buf = n * H5Tget_size ty"
    and "bo_read_vl obj so = Some vs \<Longrightarrow> list_all (vl_ok (type_vl_kind ty) (vl_base (type_vl_kind ty) ty)) vs"
  using assms unfolding obj_ok_def by blast+

lemma backfill_entries_total:
  assumes "callbacks_ok penv" "back_ok api" "obj_ok api obj" "bo_native obj = Some mtype" "0 < H5Tget_size mtype" "bf_ok s"
  shows "\<exists>s' w. backfill_entries api penv m path k obj mtype space es s = Some (Inr (s', w)) \<and> bf_same (pe_lookup penv) s s'"
  using assms(6)
proof (induction es arbitrary: s)
  case (Cons e es)
  show ?case
  proof (cases "if is_write_of path e then b_decode_space api (en_space_enc e) else None")
    case None
    then show ?thesis using Cons by simp
  next
    case (Some sel)
    then have dec: "b_decode_space api (en_space_enc e) = Some sel" by (simp split: if_splits)
    then have sel: "sel_ok sel" using assms(2) by (simp add: back_ok_def)
    show ?thesis
    proof (cases "ds_npoints sel = None \<or> ds_npoints sel = Some 0 \<or> bo_read obj (Some sel) = None")
      case True
      have "0 < MAX_PUSH_RUNS" by (simp add: MAX_PUSH_RUNS_def)
      then show ?thesis using True Cons Some flat_runs_ok [OF sel, of MAX_PUSH_RUNS] bf_same_refl by (auto split: option.split)
    next
      case False
      then obtain n wbuf where n: "ds_npoints sel = Some n" "n \<noteq> 0" "bo_read obj (Some sel) = Some wbuf" by auto
      have len: "length wbuf = n * H5Tget_size mtype" using obj_ok_reads(2) [OF assms(3,4) dec n(1,3)] .
      consider "flat_runs sel MAX_PUSH_RUNS = Some (Inl EFail)" | "flat_runs sel MAX_PUSH_RUNS = Some (Inr [])"
        | runs where "flat_runs sel MAX_PUSH_RUNS = Some (Inr runs)" "runs \<noteq> []" "\<forall>r \<in> set runs. run_start r + run_count r \<le> U64_MAX" "n = length (runs_elems runs)"
        using flat_runs_ok [OF sel, of MAX_PUSH_RUNS] n(1) by (auto simp: MAX_PUSH_RUNS_def)
      then show ?thesis
      proof cases
        case 3
        obtain s1 where 1: "backfill_runs api penv m path k mtype space wbuf 0 runs s = Inr s1" "bf_same (pe_lookup penv) s s1"
          using backfill_runs_total [OF assms(1,5) Cons.prems 3(3), of 0 wbuf api m path k space] len 3(4) by auto
        note 2 = release_sources_same [OF bf_same_ok [OF 1(2)], of "pe_lookup penv" penv]
        show ?thesis using Cons.IH [OF bf_same_ok [OF 2]] 1 3 n Some by (auto intro: bf_same_trans [OF bf_same_trans [OF 1(2) 2]])
      qed (use Cons.prems n Some bf_same_refl in \<open>auto split: option.split\<close>)
    qed
  qed
qed (auto simp: bf_same_refl)

lemma backfill_whole_total:
  assumes "callbacks_ok penv" "obj_ok api obj" "bo_native obj = Some mtype" "bo_space obj = Some space" "b_extent api space = Some n" "0 < H5Tget_size mtype" "bf_ok s"
  shows "\<exists>s'. backfill_whole api penv m path k obj mtype space n s = Inr s' \<and> bf_same (pe_lookup penv) s s'"
proof (cases "bo_read obj None")
  case (Some buf)
  have "length buf = n * H5Tget_size mtype" "n \<le> U64_MAX" using obj_ok_reads(1) [OF assms(2,3,4,5) Some] by simp_all
  then have ok: "wr_ok (back_write api mtype space path k buf 0 n)" "wr_native (back_write api mtype space path k buf 0 n) = []"
    using back_write_ok [OF assms(6), of buf n 0] by simp_all
  obtain s1 where 1: "bf_push (push_data_to penv m (back_write api mtype space path k buf 0 n)) s = Inr s1" "bf_same (pe_lookup penv) s s1"
    using bf_push_data [OF assms(1) ok assms(7)] .
  then show ?thesis using Some release_sources_same [OF bf_same_ok [OF 1(2)]] by (auto simp: backfill_whole_def intro: bf_same_trans)
qed (use assms(7) in \<open>simp add: backfill_whole_def bf_same_refl\<close>)

lemma push_vl_total:
  assumes "callbacks_ok penv" "type_vl_kind mtype \<noteq> VL_NONE" "bf_ok s"
    and "list_all (vl_ok (type_vl_kind mtype) (vl_base (type_vl_kind mtype) mtype)) vs"
  shows "\<exists>s'. push_vl api penv m path k mtype space vs start n s = Inr s' \<and> bf_same (pe_lookup penv) s s'"
proof -
  have "vl_serialize (type_vl_kind mtype) mtype vs = Inl EFail \<or> (\<exists>ser. vl_serialize (type_vl_kind mtype) mtype vs = Inr ser)"
    using assms(2,4) vl_serialize_loop_ok by (auto simp: vl_serialize_def vl_base_size_eq)
  then consider "vl_serialize (type_vl_kind mtype) mtype vs = Inl EFail" | ser where "vl_serialize (type_vl_kind mtype) mtype vs = Inr ser" by blast
  then show ?thesis
  proof cases
    case 1
    then show ?thesis using assms(3) by (simp add: push_vl_def bf_same_refl)
  next
    case 2
    obtain s1 where 1: "bf_push (push_opaque_to penv m (back_write api mtype space path k ser start n)) s = Inr s1" "bf_same (pe_lookup penv) s s1"
      using bf_push_opaque [OF assms(1,3)] .
    then show ?thesis using 2 release_sources_same [OF bf_same_ok [OF 1(2)]] by (auto simp: push_vl_def intro: bf_same_trans)
  qed
qed

lemma backfill_vl_entries_total:
  assumes "callbacks_ok penv" "back_ok api" "obj_ok api obj" "bo_native obj = Some mtype" "type_vl_kind mtype \<noteq> VL_NONE" "bf_ok s"
  shows "\<exists>s'. backfill_vl_entries api penv m path k obj mtype space es s = Some (Inr s') \<and> bf_same (pe_lookup penv) s s'"
  using assms(6)
proof (induction es arbitrary: s)
  case (Cons e es)
  show ?case
  proof (cases "if is_write_of path e then b_decode_space api (en_space_enc e) else None")
    case (Some sel)
    then have sel: "sel_ok sel" using assms(2) by (auto simp: back_ok_def split: if_splits)
    consider "flat_runs sel 1 = Some (Inl EFail)" | runs where "flat_runs sel 1 = Some (Inr runs)" "length runs \<noteq> 1 \<or> bo_read_vl obj (Some sel) = None"
      | run vs where "flat_runs sel 1 = Some (Inr [run])" "bo_read_vl obj (Some sel) = Some vs"
      using flat_runs_ok [OF sel, of 1] by (cases "bo_read_vl obj (Some sel)") (auto simp: length_Suc_conv)
    then show ?thesis
    proof cases
      case 3
      obtain s1 where 1: "push_vl api penv m path k mtype space vs (run_start run) (run_count run) s = Inr s1" "bf_same (pe_lookup penv) s s1"
        using push_vl_total [OF assms(1,5) Cons.prems obj_ok_reads(3) [OF assms(3,4) 3(2)]] by blast
      show ?thesis using Cons.IH [OF Cons.prems] Cons.IH [OF bf_same_ok [OF 1(2)]] 1 3 Some by (auto split: option.split intro: bf_same_trans)
    qed (use Cons Some in \<open>auto split: option.split list.split\<close>)
  qed (use Cons in simp)
qed (simp add: bf_same_refl)

lemma backfill_one_total:
  assumes "callbacks_ok penv" "back_ok api" "bf_ok s"
  shows "\<exists>s'. backfill_one api penv m path k step s = Some (Inr s') \<and> bf_same (pe_lookup penv) s s'"
proof (cases "open_back api path k")
  case (Some obj)
  then have obj: "obj_ok api obj" using assms(2) by (auto simp: back_ok_def open_back_def split: if_splits)
  show ?thesis
  proof (cases "bo_native obj = None \<or> bo_space obj = None")
    case False
    then obtain ty sp where t: "bo_native obj = Some ty" "bo_space obj = Some sp" by auto
    show ?thesis
    proof (cases "type_vl_kind ty = VL_NONE")
      case True
      show ?thesis
      proof (cases "H5Tget_size ty = 0 \<or> b_extent api sp = None \<or> b_extent api sp = Some 0")
        case False
        then obtain n where n: "0 < H5Tget_size ty" "b_extent api sp = Some n" "0 < n" by auto
        note w = backfill_whole_total [OF assms(1) obj t n(2,1)]
        obtain s1 b where e: "backfill_entries api penv m path k obj ty sp (the step) s = Some (Inr (s1, b))" "bf_same (pe_lookup penv) s s1"
          using backfill_entries_total [OF assms(1,2) obj t(1) n(1) assms(3)] by blast
        then show ?thesis
          using True Some t n w [OF assms(3), of m path k] w [OF bf_same_ok [OF e(2)], of m path k] bf_same_trans [OF e(2)]
          by (cases b) (auto simp: backfill_one_def)
      qed (use True Some t bf_same_refl [OF assms(3)] in \<open>auto simp: backfill_one_def\<close>)
    next
      case False
      note v = push_vl_total [OF assms(1) False assms(3)] and e = backfill_vl_entries_total [OF assms(1,2) obj t(1) False assms(3)]
      show ?thesis
        using False Some t v obj_ok_reads(3) [OF obj t(1)] e bf_same_refl [OF assms(3)]
        by (fastforce simp: backfill_one_def backfill_vl_def split: option.split)
    qed
  qed (use Some bf_same_refl [OF assms(3)] in \<open>auto simp: backfill_one_def Let_def split: option.split\<close>)
qed (simp add: backfill_one_def bf_same_refl [OF assms(3)])

section \<open>What a member hears\<close>

text \<open>The steps announced to the process at an address, in the order it will wait for them.\<close>

definition heard :: "bf_state \<Rightarrow> nat \<Rightarrow> nat list option" where
  "heard s a = map_option (\<lambda>t. map fst (tr_pending t)) (bf_net s a)"

definition reaches :: "link_env \<Rightarrow> member_id \<Rightarrow> nat \<Rightarrow> tr \<Rightarrow> bool" where
  "reaches env m a tr \<longleftrightarrow> le_deliver env Known a \<noteq> Lost \<and> (\<forall>m'. snd (member_addr (le_lookup env) m' tr) = Some a \<longleftrightarrow> m' = m)"

lemma reaches_view: "tr_view (le_lookup env) tr' = tr_view (le_lookup env) tr \<Longrightarrow> reaches env m a tr' = reaches env m a tr"
  by (simp add: reaches_def tr_view_def fun_eq_iff)

definition told :: "member_id \<Rightarrow> backfill_action list \<Rightarrow> nat list" where
  "told m acts = concat (map (\<lambda>act. case act of Announce m' k \<Rightarrow> if m' = m then [k] else [] | _ \<Rightarrow> []) acts)"

lemma told_simps [simp]:
  "told m [] = []" "told m (Push m' p k # acts) = told m acts"
  "told m (Announce m' k # acts) = (if m' = m then k # told m acts else told m acts)" "told m (xs @ ys) = told m xs @ told m ys"
  by (simp_all add: told_def)

text \<open>The hypotheses the lemmas below share: contracts of the callbacks and of HDF5, one address lookup, and a state that is well-formed.\<close>

definition served_ok :: "back_api \<Rightarrow> push_env \<Rightarrow> link_env \<Rightarrow> member_id \<Rightarrow> nat \<Rightarrow> bf_state \<Rightarrow> bool" where
  "served_ok api penv env m a s \<longleftrightarrow> callbacks_ok penv \<and> back_ok api \<and> pe_lookup penv = le_lookup env \<and> bf_ok s \<and> reaches env m a (bf_tr s)"

lemma served_ok_same: "served_ok api penv env m a s \<Longrightarrow> tr_view (le_lookup env) (bf_tr s') = tr_view (le_lookup env) (bf_tr s) \<Longrightarrow> bf_ok s' \<Longrightarrow> served_ok api penv env m a s'"
  using reaches_view [of env "bf_tr s'" "bf_tr s" m a] by (simp add: served_ok_def)

lemma perform_total:
  assumes "served_ok api penv env m a s"
  shows "\<exists>s'. perform api penv env act s = Some (Inr s') \<and> tr_view (le_lookup env) (bf_tr s') = tr_view (le_lookup env) (bf_tr s) \<and> bf_ok s' \<and>
    heard s' a = map_option (\<lambda>h. h @ told m [act]) (heard s a)"
proof (cases act)
  case (Push m' p k)
  obtain s' where s': "backfill_one api penv m' p k (b_step api k) s = Some (Inr s')" "bf_same (le_lookup env) s s'"
    using assms backfill_one_total [of penv api s m' p k "b_step api k"] by (auto simp: served_ok_def)
  then show ?thesis using Push by (simp add: bf_same_def perform_def heard_def option.map_ident)
next
  case (Announce m' k)
  obtain tr net r where c: "call_member env Known step_ready (k, 0, tr_self_id (bf_tr s)) m' (bf_tr s) (bf_net s) = (tr, net, r)"
    by (cases "call_member env Known step_ready (k, 0, tr_self_id (bf_tr s)) m' (bf_tr s) (bf_net s)")
  note cs = call_step_ready [OF c]
  have grp: "tr_in_group (bf_tr s)" using assms by (simp add: served_ok_def bf_ok_def)
  let ?s = "s\<lparr>bf_tr := tr, bf_ps := drain_pushes penv (bf_ps s), bf_net := net, bf_trace := bf_trace s @ [Told m' k]\<rparr>"
  have p: "perform api penv env act s = Some (Inr ?s)"
    using Announce grp c by (simp add: perform_def announce_to_def Let_def)
  have v: "tr_view (le_lookup env) tr = tr_view (le_lookup env) (bf_tr s)" by (simp add: cs(1))
  moreover have "bf_ok ?s"
    using assms v drain_pushes_inv [of "bf_ps s" penv] by (simp add: served_ok_def bf_ok_def tr_view_def)
  moreover have "heard ?s a = map_option (\<lambda>h. h @ told m [act]) (heard s a)"
    using assms Announce
    by (cases "bf_net s a") (auto simp: cs(2) heard_def served_ok_def reaches_def step_ready_def push_pending_def note_writer_def)
  ultimately show ?thesis using p by simp
qed

lemma perform_all_total:
  assumes "served_ok api penv env m a s"
  shows "\<exists>s'. perform_all api penv env acts s = Some (Inr s') \<and> tr_view (le_lookup env) (bf_tr s') = tr_view (le_lookup env) (bf_tr s) \<and> bf_ok s' \<and>
    heard s' a = map_option (\<lambda>h. h @ told m acts) (heard s a)"
  using assms
proof (induction acts arbitrary: s)
  case (Cons act acts)
  obtain s1 where 1: "perform api penv env act s = Some (Inr s1)" "tr_view (le_lookup env) (bf_tr s1) = tr_view (le_lookup env) (bf_tr s)" "bf_ok s1"
      "heard s1 a = map_option (\<lambda>h. h @ told m [act]) (heard s a)"
    using perform_total [OF Cons.prems] by blast
  have "told m (act # acts) = told m [act] @ told m acts" using told_simps(4) [of m "[act]" acts] by simp
  then show ?case
    using Cons.IH [OF served_ok_same [OF Cons.prems 1(2,3)]] 1 by (auto simp: option.map_comp comp_def)
qed (use assms in \<open>auto simp: served_ok_def option.map_ident\<close>)

lemma serve_backfill_told:
  assumes "\<not> fs_is_reader fs" "fs_transport fs" "pi_ok (rd_paths (fs_reader fs))"
  obtains acts where "serve_backfill fs m' paths from = Some acts"
    "told m acts = (if m' = m then [from..<fs_physical_step fs] else [])"
proof -
  have "told m (map (\<lambda>p. Push m' p k) ps) = []" for k ps by (induction ps) simp_all
  then have "\<exists>acts. backfill_steps (rd_paths (fs_reader fs)) m' paths ks = Some acts \<and> told m acts = (if m' = m then ks else [])" for ks
    by (induction ks) (auto simp: backfill_pushes_exact [OF assms(3)])
  then show thesis using that assms(1,2) by (auto simp: serve_backfill_def)
qed

subsection \<open>The loop over the pending requests\<close>

definition waiting :: "member_id \<Rightarrow> sub_entry list \<Rightarrow> sub_entry list" where
  "waiting m es = filter (\<lambda>e. se_backfill e = RELEASED \<and> se_member e = m) es"

text \<open>The earliest step a member waits for.\<close>

definition start_of :: "member_id \<Rightarrow> sub_entry list \<Rightarrow> nat" where
  "start_of m es = Min (se_backfill_from ` set (waiting m es))"

definition go_live :: "(member_id \<Rightarrow> bool) \<Rightarrow> sub_entry \<Rightarrow> sub_entry" where
  "go_live P e = (if se_backfill e = RELEASED \<and> P (se_member e) then e\<lparr>se_backfill := LIVE\<rparr> else e)"

lemma go_live_simps [simp]:
  "se_member (go_live P e) = se_member e" "se_path (go_live P e) = se_path e" "se_backfill_from (go_live P e) = se_backfill_from e"
  "se_backfill (go_live P e) = (if se_backfill e = RELEASED \<and> P (se_member e) then LIVE else se_backfill e)"
  by (simp_all add: go_live_def)

lemma go_live_idle: "se_backfill e \<noteq> RELEASED \<or> \<not> P (se_member e) \<Longrightarrow> go_live P e = e"
  by (auto simp: go_live_def)

lemma go_live_twice: "go_live (\<lambda>_. True) (go_live P e) = go_live (\<lambda>_. True) e"
  by (simp add: go_live_def)

lemma waiting_go_live: "waiting m (map (go_live (\<lambda>x. x = m')) es) = (if m = m' then [] else waiting m es)"
  by (induction es) (simp_all add: waiting_def go_live_idle)

lemma released_go_live:
  "filter (\<lambda>e. se_backfill e = RELEASED) (map (go_live (\<lambda>x. x = m)) es) =
     filter (\<lambda>e. se_member e \<noteq> m) (filter (\<lambda>e. se_backfill e = RELEASED) es)"
  by (induction es) (simp_all add: go_live_idle)

lemma foldl_min:
  "foldl (\<lambda>s e. if f e < s then f e else s) (x :: nat) es = Min (insert x (f ` set es))"
proof (induction es arbitrary: x)
  case (Cons e es)
  have "Min (insert (min (f e) x) (f ` set es)) = Min (insert x (f ` set (e # es)))"
    by (cases "es = []") (simp_all add: Min_insert ac_simps min.left_commute)
  moreover have "(if f e < x then f e else x) = min (f e) x" by (simp add: min_def)
  ultimately show ?case using Cons [of "min (f e) x"] by simp
qed simp

lemma take_backfill_cases:
  obtains (none) "\<And>e. e \<in> set (tr_subs tr) \<Longrightarrow> se_backfill e \<noteq> RELEASED" "take_backfill tr = (tr, None)"
    | (some) m paths where "waiting m (tr_subs tr) \<noteq> []"
        "take_backfill tr = (tr\<lparr>tr_subs := map (go_live (\<lambda>x. x = m)) (tr_subs tr)\<rparr>, Some (m, paths, start_of m (tr_subs tr)))"
proof (cases "find (\<lambda>e. se_backfill e = RELEASED) (tr_subs tr)")
  case None
  then have "\<And>e. e \<in> set (tr_subs tr) \<Longrightarrow> se_backfill e \<noteq> RELEASED" by (simp add: find_None_iff)
  then show thesis using none None by (simp add: take_backfill_def)
next
  case (Some e0)
  then have e0: "e0 \<in> set (waiting (se_member e0) (tr_subs tr))" by (auto simp: find_Some_iff waiting_def)
  then have "insert (se_backfill_from e0) (se_backfill_from ` set (waiting (se_member e0) (tr_subs tr))) =
      se_backfill_from ` set (waiting (se_member e0) (tr_subs tr))" by blast
  then have "take_backfill tr = (tr\<lparr>tr_subs := map (go_live (\<lambda>x. x = se_member e0)) (tr_subs tr)\<rparr>,
      Some (se_member e0, map se_path (waiting (se_member e0) (tr_subs tr)), start_of (se_member e0) (tr_subs tr)))"
    using Some by (simp add: take_backfill_def Let_def foldl_min start_of_def flip: waiting_def) (simp add: go_live_def cong: map_cong)
  then show thesis using some e0 by (metis empty_iff list.set(1))
qed

lemma tr_view_subs: "tr_view look (tr\<lparr>tr_subs := es\<rparr>) = (es, snd (tr_view look tr))"
  by (auto simp: tr_view_def member_addr_def split: option.split)

lemma served_ok_subs:
  assumes "served_ok api penv env m a s" "map sub_key es = map sub_key (tr_subs (bf_tr s))"
  shows "served_ok api penv env m a (s\<lparr>bf_tr := (bf_tr s)\<lparr>tr_subs := es\<rparr>\<rparr>)"
proof -
  have "snd (member_addr (le_lookup env) m' ((bf_tr s)\<lparr>tr_subs := es\<rparr>)) = snd (member_addr (le_lookup env) m' (bf_tr s))" for m'
    by (simp add: member_addr_def split: option.split)
  then show ?thesis using assms by (simp add: served_ok_def bf_ok_def reaches_def)
qed

definition serving :: "file_state \<Rightarrow> bool" where
  "serving fs \<longleftrightarrow> \<not> fs_is_reader fs \<and> fs_transport fs \<and> pi_ok (rd_paths (fs_reader fs))"

text \<open>
  Serving the pending requests ends, makes every released subscription live and changes no other
  table; the member at \<open>a\<close> hears the committed steps from the earliest one it asked for, if it
  asked, and nothing otherwise.
\<close>

lemma serve_pending_total:
  assumes "serving fs" "served_ok api penv env m a s"
  shows "\<exists>s'. serve_pending api penv env fs s = Some (Inr s') \<and> bf_ok s' \<and>
    tr_view (le_lookup env) (bf_tr s') = (map (go_live (\<lambda>_. True)) (tr_subs (bf_tr s)), snd (tr_view (le_lookup env) (bf_tr s))) \<and>
    heard s' a = map_option (\<lambda>h. h @ (if waiting m (tr_subs (bf_tr s)) = [] then [] else [start_of m (tr_subs (bf_tr s)) ..< fs_physical_step fs])) (heard s a)"
  using assms(2)
proof (induction "length (filter (\<lambda>e. se_backfill e = RELEASED) (tr_subs (bf_tr s)))" arbitrary: s rule: less_induct)
  case less
  let ?es = "tr_subs (bf_tr s)" and ?look = "le_lookup env"
  have wr: "\<not> fs_is_reader fs" "fs_transport fs" "pi_ok (rd_paths (fs_reader fs))" using assms(1) by (simp_all add: serving_def)
  show ?case
  proof (cases rule: take_backfill_cases [of "bf_tr s"])
    case none
    then have "waiting m ?es = []" "map (go_live (\<lambda>_. True)) ?es = ?es"
      by (auto simp: waiting_def filter_empty_conv go_live_def intro!: map_idI)
    moreover have "serve_pending api penv env fs s = Some (Inr s)" using none(2) wr by (simp add: serve_pending.simps)
    ultimately show ?thesis using less.prems by (simp add: served_ok_def tr_view_def option.map_ident)
  next
    case (some m0 paths)
    let ?live = "map (go_live (\<lambda>x. x = m0)) ?es"
    let ?s0 = "s\<lparr>bf_tr := (bf_tr s)\<lparr>tr_subs := ?live\<rparr>\<rparr>"
    obtain acts where acts: "serve_backfill fs m0 paths (start_of m0 ?es) = Some acts"
        "told m acts = (if m0 = m then [start_of m0 ?es ..< fs_physical_step fs] else [])"
      using serve_backfill_told [OF wr] .
    have ok0: "served_ok api penv env m a ?s0" using less.prems by (intro served_ok_subs) (simp_all add: comp_def)
    obtain s1 where 1: "perform_all api penv env acts ?s0 = Some (Inr s1)" "tr_view ?look (bf_tr s1) = tr_view ?look (bf_tr ?s0)" "bf_ok s1"
        "heard s1 a = map_option (\<lambda>h. h @ told m acts) (heard ?s0 a)"
      using perform_all_total [OF ok0] by blast
    have v1: "tr_view ?look (bf_tr s1) = (?live, snd (tr_view ?look (bf_tr s)))" using 1(2) by (simp add: tr_view_subs)
    then have subs1: "tr_subs (bf_tr s1) = ?live" by (simp add: tr_view_def)
    have fewer: "length (filter (\<lambda>e. se_backfill e = RELEASED) (tr_subs (bf_tr s1))) < length (filter (\<lambda>e. se_backfill e = RELEASED) ?es)"
    proof -
      obtain e where e: "e \<in> set ?es" "se_backfill e = RELEASED" "se_member e = m0"
        using some(1) by (auto simp: waiting_def filter_empty_conv)
      have "length (filter (\<lambda>e. se_member e \<noteq> m0) (filter (\<lambda>e. se_backfill e = RELEASED) ?es)) < length (filter (\<lambda>e. se_backfill e = RELEASED) ?es)"
        using e by (intro length_filter_less [of e]) simp_all
      then show ?thesis unfolding subs1 released_go_live .
    qed
    have step: "serve_pending api penv env fs s = serve_pending api penv env fs s1"
      using some(2) wr acts(1) 1(1) by (subst serve_pending.simps) simp
    have live: "map (go_live (\<lambda>_. True)) ?live = map (go_live (\<lambda>_. True)) ?es" by (simp add: go_live_twice)
    have h0: "heard ?s0 a = heard s a" by (simp add: heard_def)
    show ?thesis
      using less.hyps [OF fewer served_ok_same [OF ok0 1(2,3)]] some(1) acts(2) 1(4)
      unfolding step v1 subs1 live waiting_go_live h0
      by (auto simp: option.map_comp comp_def start_of_def waiting_go_live)
  qed
qed

section \<open>The writer's stream as a sequence of events\<close>

text \<open>
  What happens at the writer, in the order it happens: a subscribe request of a reader, the serving
  of the pending requests (\<open>H5Fbegin_step\<close>, and again before the pushes of \<open>H5Fend_step\<close>), and the
  announcement of the step just committed. The number is \<open>fs->physical_step\<close>.
\<close>

datatype wr_event = Request subscribe_in | Serve file_state | Commit nat

definition wr_event_step ::
  "back_api \<Rightarrow> push_env \<Rightarrow> link_env \<Rightarrow> wr_event \<Rightarrow> nat \<times> bf_state \<Rightarrow> (nat \<times> bf_state) cres option" where
  "wr_event_step api penv env ev ns = (case ns of (n, s) \<Rightarrow>
     (case ev of
        Request q \<Rightarrow> Some (Inr (n, s\<lparr>bf_tr := fst (subscribe q (bf_tr s))\<rparr>))
      | Serve fs \<Rightarrow> obind (serve_pending api penv env (fs\<lparr>fs_physical_step := n\<rparr>) s) (\<lambda>s. Some (Inr (n, s)))
      | Commit wall \<Rightarrow>
          (case broadcast_step_ready penv env n wall (bf_tr s) (bf_ps s) (bf_net s) of
             (tr, ps, net) \<Rightarrow> Some (Inr (Suc n, s\<lparr>bf_tr := tr, bf_ps := ps, bf_net := net\<rparr>)))))"

fun run_events ::
  "back_api \<Rightarrow> push_env \<Rightarrow> link_env \<Rightarrow> wr_event list \<Rightarrow> nat \<times> bf_state \<Rightarrow> (nat \<times> bf_state) cres option" where
  "run_events api penv env [] ns = Some (Inr ns)"
| "run_events api penv env (ev # evs) ns = obind (wr_event_step api penv env ev ns) (run_events api penv env evs)"

lemma run_events_append: "run_events api penv env (xs @ ys) ns = obind (run_events api penv env xs ns) (run_events api penv env ys)"
  by (induction xs arbitrary: ns) (simp_all add: obind_def split: option.split sum.split)

definition commits :: "wr_event list \<Rightarrow> nat" where
  "commits evs = length (filter (\<lambda>ev. \<exists>w. ev = Commit w) evs)"

lemma commits_simps [simp]: "commits [] = 0" "commits (Request q # evs) = commits evs" "commits (Serve fs # evs) = commits evs"
  "commits (Commit w # evs) = Suc (commits evs)" "commits (xs @ ys) = commits xs + commits ys"
  by (simp_all add: commits_def)

abbreviation mine :: "member_id \<Rightarrow> sub_entry list \<Rightarrow> sub_entry list" where
  "mine m \<equiv> filter (\<lambda>e. se_member e = m)"

definition group_ok :: "link_env \<Rightarrow> member_id \<Rightarrow> tr \<Rightarrow> bool" where
  "group_ok env m tr \<longleftrightarrow> tr_is_writer tr \<and> distinct (snapshot_members tr) \<and> m \<in> set (snapshot_members tr) \<and>
     (\<forall>m1 m2 b. snd (member_addr (le_lookup env) m1 tr) = Some b \<and> snd (member_addr (le_lookup env) m2 tr) = Some b \<longrightarrow> m1 = m2)"

lemma group_ok_view: "snd (tr_view (le_lookup env) tr') = snd (tr_view (le_lookup env) tr) \<Longrightarrow> group_ok env m tr' = group_ok env m tr"
  by (simp add: group_ok_def tr_view_def snapshot_members_def fun_eq_iff)

lemma reaches_snd_view: "snd (tr_view (le_lookup env) tr') = snd (tr_view (le_lookup env) tr) \<Longrightarrow> reaches env m a tr' = reaches env m a tr"
  by (simp add: reaches_def tr_view_def fun_eq_iff)

text \<open>The invariant of a stream, and what one event leaves of the member's subscriptions.\<close>

definition stream_ok :: "back_api \<Rightarrow> push_env \<Rightarrow> link_env \<Rightarrow> member_id \<Rightarrow> nat \<Rightarrow> bf_state \<Rightarrow> bool" where
  "stream_ok api penv env m a s \<longleftrightarrow> served_ok api penv env m a s \<and> group_ok env m (bf_tr s)"

lemma stream_ok_view:
  assumes "stream_ok api penv env m a s" "snd (tr_view (le_lookup env) (bf_tr s')) = snd (tr_view (le_lookup env) (bf_tr s))" "bf_ok s'"
  shows "stream_ok api penv env m a s'"
  using assms(1,3) group_ok_view [OF assms(2)] reaches_snd_view [OF assms(2)] by (simp add: stream_ok_def served_ok_def)

definition effect :: "member_id \<Rightarrow> nat \<Rightarrow> sub_entry list \<Rightarrow> wr_event \<Rightarrow> sub_entry list \<times> nat list" where
  "effect m n es ev = (case ev of
     Request q \<Rightarrow> (es, [])
   | Serve fs \<Rightarrow> (map (go_live (\<lambda>_. True)) es, if waiting m es = [] then [] else [start_of m es ..< n])
   | Commit w \<Rightarrow> (es, if list_ex (\<lambda>e. se_backfill e \<noteq> LIVE) es then [] else [n]))"

definition other_event :: "member_id \<Rightarrow> wr_event \<Rightarrow> bool" where
  "other_event m ev \<longleftrightarrow> (case ev of Request q \<Rightarrow> si_member q \<noteq> m | Serve fs \<Rightarrow> serving fs | Commit w \<Rightarrow> True)"

lemma waiting_mine: "waiting m (mine m es) = waiting m es" "start_of m (mine m es) = start_of m es"
  by (simp_all add: waiting_def start_of_def conj_ac cong: conj_cong)

lemma mine_go_live: "mine m (map (go_live P) es) = map (go_live P) (mine m es)"
  by (simp add: filter_map comp_def)

lemma backfilling_mine: "member_backfilling tr m \<longleftrightarrow> list_ex (\<lambda>e. se_backfill e \<noteq> LIVE) (mine m (tr_subs tr))"
  by (auto simp: member_backfilling_def list_ex_iff)

lemma subscribe_other:
  assumes "si_member q \<noteq> m"
  shows "mine m (tr_subs (fst (subscribe q tr))) = mine m (tr_subs tr)"
proof -
  have "mine m (fst (amend_first q p es)) = mine m es" for p es
    using assms by (induction es) (auto simp: amend_sub_def stage_def split: prod.split)
  moreover have "mine m (fst (release_staged (si_member q) es)) = mine m es" for es
    using assms by (induction es) (auto simp: release_staged_def)
  moreover have "se_member (new_sub q p) = si_member q" for p by (simp add: new_sub_def stage_def)
  ultimately show ?thesis
    using assms by (auto simp: subscribe_def Let_def split: option.split prod.split if_splits) (metis fst_conv)+
qed

lemma announce_each_view: "announce_each env q ms tr net = (tr', net') \<Longrightarrow> tr_view (le_lookup env) tr' = tr_view (le_lookup env) tr"
proof (induction ms arbitrary: tr net)
  case (Cons m ms)
  obtain t1 n1 r where c: "call_member env Known step_ready q m tr net = (t1, n1, r)" by (cases "call_member env Known step_ready q m tr net")
  have "tr_view (le_lookup env) t1 = tr_view (le_lookup env) tr" by (simp add: call_step_ready(1) [OF c])
  then show ?case using Cons c by (auto split: if_splits)
qed simp

lemma commit_effect:
  assumes "stream_ok api penv env m a s"
  shows "\<exists>s'. wr_event_step api penv env (Commit w) (n, s) = Some (Inr (Suc n, s')) \<and> bf_ok s' \<and>
    tr_view (le_lookup env) (bf_tr s') = tr_view (le_lookup env) (bf_tr s) \<and>
    heard s' a = map_option (\<lambda>h. h @ (if member_backfilling (bf_tr s) m then [] else [n])) (heard s a)"
proof -
  let ?look = "le_lookup env"
  let ?tr = "(bf_tr s)\<lparr>tr_last_step := Some (n, w)\<rparr>"
  have ok: "tr_in_group (bf_tr s)" "ps_inv (bf_ps s)" "reaches env m a (bf_tr s)" and g: "group_ok env m (bf_tr s)"
    using assms by (simp_all add: stream_ok_def served_ok_def bf_ok_def)
  have v: "tr_view ?look ?tr = tr_view ?look (bf_tr s)" by (auto simp: tr_view_def member_addr_def split: option.split)
  have r': "reaches env m a ?tr" and g': "group_ok env m ?tr" and b': "member_backfilling ?tr m = member_backfilling (bf_tr s) m"
    using ok(3) g reaches_view [OF v] group_ok_view [of env ?tr "bf_tr s" m] v by (simp_all add: member_backfilling_def)
  obtain tr net where ann: "announce_each env (n, w, tr_self_id ?tr) (snapshot_members ?tr) ?tr (bf_net s) = (tr, net)"
    by (cases "announce_each env (n, w, tr_self_id ?tr) (snapshot_members ?tr) ?tr (bf_net s)")
  have net: "net = (\<lambda>b. if announced_at env ?tr (snapshot_members ?tr) b then map_option (\<lambda>t. fst (step_ready (n, w, tr_self_id ?tr) t)) (bf_net s b) else bf_net s b)"
    using announce_each_exact [OF ann] g' by (simp add: group_ok_def)
  have at: "announced_at env ?tr (snapshot_members ?tr) a \<longleftrightarrow> \<not> member_backfilling (bf_tr s) m"
    using r' g' b' by (auto simp: announced_at_def reaches_def group_ok_def)
  let ?s = "s\<lparr>bf_tr := tr, bf_ps := drain_pushes penv (bf_ps s), bf_net := net\<rparr>"
  have "broadcast_step_ready penv env n w (bf_tr s) (bf_ps s) (bf_net s) = (tr, drain_pushes penv (bf_ps s), net)"
    using ok(1) ann by (simp add: broadcast_step_ready_def Let_def)
  then have st: "wr_event_step api penv env (Commit w) (n, s) = Some (Inr (Suc n, ?s))" by (simp add: wr_event_step_def)
  have v': "tr_view ?look tr = tr_view ?look (bf_tr s)" using announce_each_view [OF ann] v by simp
  then have "bf_ok ?s"
    using assms drain_pushes_inv [OF ok(2), of penv] by (simp add: stream_ok_def served_ok_def bf_ok_def tr_view_def)
  moreover have "heard ?s a = map_option (\<lambda>h. h @ (if member_backfilling (bf_tr s) m then [] else [n])) (heard s a)"
    unfolding heard_def using at by (cases "bf_net s a") (simp_all add: net step_ready_def push_pending_def note_writer_def)
  ultimately show ?thesis using st v' by simp
qed

text \<open>One event of another reader, of the writer's own or of the stream, as the member at \<open>a\<close> sees it.\<close>

lemma event_effect:
  assumes "stream_ok api penv env m a s" "other_event m ev"
  shows "\<exists>s'. wr_event_step api penv env ev (n, s) = Some (Inr (n + commits [ev], s')) \<and> stream_ok api penv env m a s' \<and>
    mine m (tr_subs (bf_tr s')) = fst (effect m n (mine m (tr_subs (bf_tr s))) ev) \<and>
    heard s' a = map_option (\<lambda>h. h @ snd (effect m n (mine m (tr_subs (bf_tr s))) ev)) (heard s a)"
proof (cases ev)
  case (Request q)
  let ?tr = "fst (subscribe q (bf_tr s))"
  have "distinct (map sub_key (tr_subs (bf_tr s)))" using assms(1) by (simp add: stream_ok_def served_ok_def bf_ok_def)
  then have d: "distinct (map sub_key (tr_subs ?tr))" using subscribe_keys [of q "bf_tr s"] by auto
  have v: "tr_view (le_lookup env) ?tr = (tr_subs ?tr, snd (tr_view (le_lookup env) (bf_tr s)))"
    by (subst subscribe_frame) (simp add: tr_view_subs)
  have "tr_in_group ?tr = tr_in_group (bf_tr s)" using v by (simp add: tr_view_def)
  then have "bf_ok (s\<lparr>bf_tr := ?tr\<rparr>)" using assms(1) d by (simp add: stream_ok_def served_ok_def bf_ok_def)
  then have "stream_ok api penv env m a (s\<lparr>bf_tr := ?tr\<rparr>)" using stream_ok_view [OF assms(1), of "s\<lparr>bf_tr := ?tr\<rparr>"] v by simp
  then show ?thesis
    using Request assms(2) subscribe_other [of q m "bf_tr s"]
    by (simp add: wr_event_step_def other_event_def effect_def heard_def option.map_ident)
next
  case (Serve fs)
  let ?fs = "fs\<lparr>fs_physical_step := n\<rparr>"
  have "serving ?fs" using Serve assms(2) by (simp add: other_event_def serving_def)
  then obtain s' where s': "serve_pending api penv env ?fs s = Some (Inr s')" "bf_ok s'"
      "tr_view (le_lookup env) (bf_tr s') = (map (go_live (\<lambda>_. True)) (tr_subs (bf_tr s)), snd (tr_view (le_lookup env) (bf_tr s)))"
      "heard s' a = map_option (\<lambda>h. h @ (if waiting m (tr_subs (bf_tr s)) = [] then [] else [start_of m (tr_subs (bf_tr s)) ..< n])) (heard s a)"
    using serve_pending_total [of ?fs api penv env m a s] assms(1) by (auto simp: stream_ok_def)
  have "tr_subs (bf_tr s') = map (go_live (\<lambda>_. True)) (tr_subs (bf_tr s))" using s'(3) by (simp add: tr_view_def)
  then show ?thesis
    using Serve s' stream_ok_view [OF assms(1) _ s'(2)]
    by (simp add: wr_event_step_def effect_def waiting_mine mine_go_live)
next
  case (Commit w)
  obtain s' where s': "wr_event_step api penv env (Commit w) (n, s) = Some (Inr (Suc n, s'))" "bf_ok s'"
      "tr_view (le_lookup env) (bf_tr s') = tr_view (le_lookup env) (bf_tr s)"
      "heard s' a = map_option (\<lambda>h. h @ (if member_backfilling (bf_tr s) m then [] else [n])) (heard s a)"
    using commit_effect [OF assms(1), of w n] by blast
  have "tr_subs (bf_tr s') = tr_subs (bf_tr s)" using s'(3) by (simp add: tr_view_def)
  then show ?thesis using Commit s' stream_ok_view [OF assms(1) _ s'(2)] by (simp add: effect_def backfilling_mine)
qed

text \<open>
  While the member is held back and no served request concerns it, it hears nothing; once all its
  subscriptions are live, it hears every committed step.
\<close>

lemma run_held_back:
  assumes "stream_ok api penv env m a s" "list_all (other_event m) evs" "list_ex (\<lambda>e. se_backfill e \<noteq> LIVE) (mine m (tr_subs (bf_tr s)))"
    and "waiting m (tr_subs (bf_tr s)) = [] \<or> (\<forall>ev \<in> set evs. \<forall>fs. ev \<noteq> Serve fs)"
  shows "\<exists>s'. run_events api penv env evs (n, s) = Some (Inr (n + commits evs, s')) \<and> stream_ok api penv env m a s' \<and>
    mine m (tr_subs (bf_tr s')) = mine m (tr_subs (bf_tr s)) \<and> heard s' a = heard s a"
  using assms
proof (induction evs arbitrary: n s)
  case (Cons ev evs)
  let ?es = "mine m (tr_subs (bf_tr s))"
  have idle: "map (go_live (\<lambda>_. True)) ?es = ?es" if "waiting m (tr_subs (bf_tr s)) = []"
    using that by (auto simp: waiting_def filter_empty_conv go_live_def intro!: map_idI)
  have ef: "effect m n ?es ev = (?es, [])"
    using Cons.prems(3,4) idle by (cases ev) (auto simp: effect_def waiting_mine)
  obtain s1 where 1: "wr_event_step api penv env ev (n, s) = Some (Inr (n + commits [ev], s1))" "stream_ok api penv env m a s1"
      "mine m (tr_subs (bf_tr s1)) = ?es" "heard s1 a = heard s a"
    using event_effect [OF Cons.prems(1), of ev n] Cons.prems(2) ef by (auto simp: option.map_ident)
  have w: "waiting m (tr_subs (bf_tr s1)) = waiting m (tr_subs (bf_tr s))"
    using 1(3) waiting_mine(1) [of m "tr_subs (bf_tr s1)"] waiting_mine(1) [of m "tr_subs (bf_tr s)"] by simp
  have "commits (ev # evs) = commits [ev] + commits evs" using commits_simps(5) [of "[ev]" evs] by simp
  then show ?case
    using Cons.IH [OF 1(2), of "n + commits [ev]"] Cons.prems(2,3,4) 1 w by (auto simp: add.assoc)
qed simp

lemma run_live:
  assumes "stream_ok api penv env m a s" "list_all (other_event m) evs" "\<not> list_ex (\<lambda>e. se_backfill e \<noteq> LIVE) (mine m (tr_subs (bf_tr s)))"
  shows "\<exists>s'. run_events api penv env evs (n, s) = Some (Inr (n + commits evs, s')) \<and> stream_ok api penv env m a s' \<and>
    mine m (tr_subs (bf_tr s')) = mine m (tr_subs (bf_tr s)) \<and> heard s' a = map_option (\<lambda>h. h @ [n ..< n + commits evs]) (heard s a)"
  using assms
proof (induction evs arbitrary: n s)
  case (Cons ev evs)
  let ?es = "mine m (tr_subs (bf_tr s))"
  have live: "\<forall>e \<in> set ?es. se_backfill e = LIVE" using Cons.prems(3) by (auto simp: list_ex_iff)
  then have "map (go_live (\<lambda>_. True)) ?es = ?es" by (intro map_idI) (auto simp: go_live_def)
  moreover have "waiting m ?es = []" using live by (auto simp: waiting_def filter_empty_conv)
  ultimately have ef: "effect m n ?es ev = (?es, [n ..< n + commits [ev]])"
    using Cons.prems(3) by (cases ev) (simp_all add: effect_def)
  obtain s1 where 1: "wr_event_step api penv env ev (n, s) = Some (Inr (n + commits [ev], s1))" "stream_ok api penv env m a s1"
      "mine m (tr_subs (bf_tr s1)) = ?es" "heard s1 a = map_option (\<lambda>h. h @ [n ..< n + commits [ev]]) (heard s a)"
    using event_effect [OF Cons.prems(1), of ev n] Cons.prems(2) ef by auto
  have c: "commits (ev # evs) = commits [ev] + commits evs" using commits_simps(5) [of "[ev]" evs] by simp
  have "[n ..< n + commits [ev]] @ [n + commits [ev] ..< n + commits [ev] + commits evs] = [n ..< n + commits (ev # evs)]"
    unfolding c by (simp add: upt_join add.assoc)
  then show ?case
    using Cons.IH [OF 1(2), of "n + commits [ev]"] Cons.prems(2,3) 1 c by (auto simp: add.assoc option.map_comp comp_def)
qed (simp add: option.map_ident)

subsection \<open>A late joiner\<close>

definition staged :: "member_id \<Rightarrow> sub_entry list \<Rightarrow> sub_entry list" where
  "staged m es = filter (\<lambda>e. se_member e = m \<and> se_backfill e = STAGED) es"

text \<open>The request of \<open>vs_tr_reader_release_backfill\<close>.\<close>

definition is_release :: "member_id \<Rightarrow> subscribe_in \<Rightarrow> bool" where
  "is_release m q \<longleftrightarrow> si_member q = m \<and> si_path q \<noteq> None \<and> si_flags q AND SUB_FLAG_FROM_ONLY \<noteq> 0"

definition release_entry :: "sub_entry \<Rightarrow> sub_entry" where
  "release_entry e = (if se_backfill e = STAGED then e\<lparr>se_backfill := RELEASED\<rparr> else e)"

lemma release_entry_simps [simp]: "se_member (release_entry e) = se_member e" "se_backfill_from (release_entry e) = se_backfill_from e"
  "se_backfill (release_entry e) = (if se_backfill e = STAGED then RELEASED else se_backfill e)"
  by (simp_all add: release_entry_def)

lemma release_held: "list_ex (\<lambda>e. se_backfill e \<noteq> LIVE) es \<Longrightarrow> list_ex (\<lambda>e. se_backfill e \<noteq> LIVE) (map release_entry es)"
  by (induction es) auto

lemma release_waiting: "waiting m es = [] \<Longrightarrow> waiting m (map release_entry (mine m es)) = map release_entry (staged m es)"
  by (induction es) (auto simp: waiting_def staged_def split: if_splits)

lemma release_effect:
  assumes "stream_ok api penv env m a s" "is_release m q" "waiting m (tr_subs (bf_tr s)) = []"
  shows "\<exists>s'. wr_event_step api penv env (Request q) (n, s) = Some (Inr (n, s')) \<and> stream_ok api penv env m a s' \<and>
    mine m (tr_subs (bf_tr s')) = map release_entry (mine m (tr_subs (bf_tr s))) \<and>
    heard s' a = heard s a"
proof -
  let ?rel = "fst (release_staged m (tr_subs (bf_tr s)))"
  let ?s = "s\<lparr>bf_tr := (bf_tr s)\<lparr>tr_subs := ?rel\<rparr>\<rparr>"
  have "tr_is_writer (bf_tr s)" using assms(1) by (simp add: stream_ok_def group_ok_def)
  then have "fst (subscribe q (bf_tr s)) = (bf_tr s)\<lparr>tr_subs := ?rel\<rparr>"
    using assms(2) by (auto simp: subscribe_def is_release_def Let_def split: option.split prod.split)
  then have st: "wr_event_step api penv env (Request q) (n, s) = Some (Inr (n, ?s))" by (simp add: wr_event_step_def)
  have "map sub_key ?rel = map sub_key (tr_subs (bf_tr s))" by (simp add: release_staged_def comp_def)
  then have "bf_ok ?s" using assms(1) by (simp add: stream_ok_def served_ok_def bf_ok_def)
  then have ok: "stream_ok api penv env m a ?s" by (intro stream_ok_view [OF assms(1)]) (simp_all add: tr_view_subs)
  have "mine m (fst (release_staged m es)) = map release_entry (mine m es)" for es
    by (induction es) (auto simp: release_staged_def release_entry_def)
  then show ?thesis using st ok by (simp add: heard_def)
qed

text \<open>
  (C7) A late joiner sees every step once and in order. A reader that has staged its subscriptions hears
  nothing, whatever the writer commits and whoever else it serves; after it has released them
  and the writer has served it, it has heard every step from the earliest one it asked for (or,
  if that was not committed yet, from the next one on) up to the last one committed, each once, in
  order, and from then on it hears each step as it is committed. The requests of other readers may
  come at any point.
\<close>

theorem late_joiner_hears_every_step:
  assumes "callbacks_ok penv" "back_ok api" "pe_lookup penv = le_lookup env" "bf_ok s" "reaches env m a (bf_tr s)" "group_ok env m (bf_tr s)"
    and "staged m (tr_subs (bf_tr s)) \<noteq> []" "waiting m (tr_subs (bf_tr s)) = []"
    and "list_all (other_event m) (before @ between @ after)" "\<forall>ev \<in> set between. \<forall>fs. ev \<noteq> Serve fs" "is_release m q" "serving fs"
  shows "\<exists>s'. run_events api penv env (before @ [Request q] @ between @ [Serve fs] @ after) (n, s) =
      Some (Inr (n + commits (before @ between @ after), s')) \<and> \<not> member_backfilling (bf_tr s') m \<and>
    (\<forall>h. heard s a = Some h \<longrightarrow>
       heard s' a = Some (h @ [min (Min (se_backfill_from ` set (staged m (tr_subs (bf_tr s))))) (n + commits (before @ between)) ..<
                               n + commits (before @ between @ after)]))"
proof -
  let ?es = "mine m (tr_subs (bf_tr s))"
  let ?F = "Min (se_backfill_from ` set (staged m (tr_subs (bf_tr s))))" and ?q = "n + commits before + commits between"
  have ok: "stream_ok api penv env m a s" using assms(1-6) by (simp add: stream_ok_def served_ok_def)
  have held: "list_ex (\<lambda>e. se_backfill e \<noteq> LIVE) ?es" using assms(7) by (auto simp: staged_def filter_empty_conv list_ex_iff)
  obtain s1 where 1: "run_events api penv env before (n, s) = Some (Inr (n + commits before, s1))" "stream_ok api penv env m a s1"
      "mine m (tr_subs (bf_tr s1)) = ?es" "heard s1 a = heard s a"
    using run_held_back [OF ok _ held, of before n] assms(8,9) by auto
  have w1: "waiting m (tr_subs (bf_tr s1)) = []"
    using 1(3) waiting_mine(1) [of m "tr_subs (bf_tr s1)"] waiting_mine(1) [of m "tr_subs (bf_tr s)"] assms(8) by simp
  obtain s2 where 2: "wr_event_step api penv env (Request q) (n + commits before, s1) = Some (Inr (n + commits before, s2))"
      "stream_ok api penv env m a s2" "mine m (tr_subs (bf_tr s2)) = map release_entry ?es" "heard s2 a = heard s a"
    using release_effect [OF 1(2) assms(11) w1, of "n + commits before"] 1(3,4) by auto
  have held2: "list_ex (\<lambda>e. se_backfill e \<noteq> LIVE) (mine m (tr_subs (bf_tr s2)))"
    using release_held [OF held] by (simp add: 2(3))
  obtain s3 where 3: "run_events api penv env between (n + commits before, s2) = Some (Inr (?q, s3))" "stream_ok api penv env m a s3"
      "mine m (tr_subs (bf_tr s3)) = map release_entry ?es" "heard s3 a = heard s a"
    using run_held_back [OF 2(2) _ held2, of between "n + commits before"] assms(9,10) 2(3,4) by auto
  have w3: "waiting m (map release_entry ?es) \<noteq> []" "start_of m (map release_entry ?es) = ?F"
    using assms(7) by (simp_all add: start_of_def release_waiting [OF assms(8)] image_image)
  obtain s4 where 4: "wr_event_step api penv env (Serve fs) (?q, s3) = Some (Inr (?q, s4))" "stream_ok api penv env m a s4"
      "mine m (tr_subs (bf_tr s4)) = map (go_live (\<lambda>_. True)) (map release_entry ?es)"
      "heard s4 a = map_option (\<lambda>h. h @ [?F ..< ?q]) (heard s a)"
    using event_effect [OF 3(2), of "Serve fs" ?q] assms(12) w3 3(3,4) by (auto simp: other_event_def effect_def)
  have live: "\<not> list_ex (\<lambda>e. se_backfill e \<noteq> LIVE) (mine m (tr_subs (bf_tr s4)))"
    using backfill.exhaust by (auto simp: 4(3) list_ex_iff)
  obtain s5 where 5: "run_events api penv env after (?q, s4) = Some (Inr (?q + commits after, s5))" "stream_ok api penv env m a s5"
      "mine m (tr_subs (bf_tr s5)) = mine m (tr_subs (bf_tr s4))" "heard s5 a = map_option (\<lambda>h. h @ [?q ..< ?q + commits after]) (heard s4 a)"
    using run_live [OF 4(2) _ live, of after ?q] assms(9) by auto
  have "run_events api penv env (before @ [Request q] @ between @ [Serve fs] @ after) (n, s) = Some (Inr (?q + commits after, s5))"
    using 1(1) 2(1) 3(1) 4(1) 5(1) by (simp add: run_events_append)
  moreover have "[?F ..< ?q] @ [?q ..< ?q + commits after] = [min ?F ?q ..< ?q + commits after]"
    by (cases "?F \<le> ?q") (simp_all add: upt_join min_def)
  ultimately show ?thesis
    using 4(4) 5(3,4) live by (auto simp: backfilling_mine add.assoc)
qed

definition late_example :: bf_state where
  "late_example = \<lparr>bf_tr = two_readers\<lparr>tr_subs := [(one_sub 8 ''/x'')\<lparr>se_backfill := STAGED, se_backfill_from := 1\<rparr>]\<rparr>,
     bf_ps = ps_start, bf_net = [18 \<mapsto> tr_start 8], bf_trace = []\<rparr>"

definition api_none :: back_api where
  "api_none = \<lparr>b_open = (\<lambda>_ _. None), b_encode_type = (\<lambda>_. None), b_encode_space = (\<lambda>_. None), b_decode_space = (\<lambda>_. None),
     b_extent = (\<lambda>_. None), b_step = (\<lambda>_. None)\<rparr>"

abbreviation penv_late :: push_env where
  "penv_late \<equiv> push_env_example\<lparr>pe_lookup := le_lookup VS_Group.env_example\<rparr>"

abbreviation release_of_8 :: subscribe_in where
  "release_of_8 \<equiv> \<lparr>si_member = 8, si_path = Some '''', si_sel_start = 0, si_sel_count = 0, si_dcpl = [], si_flags = 4, si_pred = [],
     si_space = [], si_type = [], si_start_step = U64_MAX\<rparr>"

theorem late_joiner_hears_every_step_witness:
  "\<exists>s'. run_events api_none penv_late VS_Group.env_example
      [Commit 5, Request release_of_8, Commit 6, Serve ((file_state_init False)\<lparr>fs_transport := True\<rparr>), Commit 7] (2, late_example) = Some (Inr (5, s')) \<and>
    heard s' 18 = Some [1, 2, 3, 4]"
proof -
  let ?fs = "(file_state_init False)\<lparr>fs_transport := True\<rparr>"
  have cb: "callbacks_ok penv_late" "back_ok api_none" "pe_lookup penv_late = le_lookup VS_Group.env_example"
    by (simp_all add: callbacks_ok_def push_env_example_def back_ok_def api_none_def)
  have ok: "bf_ok late_example" by (simp add: bf_ok_def late_example_def two_readers_def ps_inv_def ps_start_def)
  have ad: "snd (member_addr (le_lookup VS_Group.env_example) m' (bf_tr late_example)) = (if m' = 8 then Some 18 else None)" for m'
    by (simp add: member_addr_def late_example_def two_readers_def VS_Group.env_example_def)
  have r: "reaches VS_Group.env_example 8 18 (bf_tr late_example)" unfolding reaches_def ad by (simp add: VS_Group.env_example_def)
  have g: "group_ok VS_Group.env_example 8 (bf_tr late_example)"
    unfolding group_ok_def ad by (auto simp: snapshot_members_def late_example_def two_readers_def tr_start_def split: if_splits)
  have st: "staged 8 (tr_subs (bf_tr late_example)) = [(one_sub 8 ''/x'')\<lparr>se_backfill := STAGED, se_backfill_from := 1\<rparr>]"
      "waiting 8 (tr_subs (bf_tr late_example)) = []"
    by (simp_all add: staged_def waiting_def late_example_def one_sub_def)
  have rel: "is_release 8 release_of_8" by (simp add: is_release_def SUB_FLAG_FROM_ONLY_def)
  have fs: "serving ?fs" by (simp add: serving_def file_state_init_def reader_init_def pi_ok_empty)
  obtain s' where "run_events api_none penv_late VS_Group.env_example ([Commit 5] @ [Request release_of_8] @ [Commit 6] @ [Serve ?fs] @ [Commit 7]) (2, late_example) =
        Some (Inr (2 + commits ([Commit 5] @ [Commit 6] @ [Commit 7]), s'))"
      "heard late_example 18 = Some [] \<longrightarrow> heard s' 18 = Some ([] @ [min 1 (2 + commits ([Commit 5] @ [Commit 6])) ..< 2 + commits ([Commit 5] @ [Commit 6] @ [Commit 7])])"
    using late_joiner_hears_every_step [OF cb ok r g, of "[Commit 5]" "[Commit 6]" "[Commit 7]" release_of_8 ?fs 2] st rel fs
    by (auto simp: other_event_def)
  moreover have "heard late_example 18 = Some []" by (simp add: heard_def late_example_def tr_start_def)
  moreover have "[1..<5] = [1, 2, 3, 4::nat]" by (simp add: upt_rec)
  ultimately show ?thesis by (simp add: numeral_eq_Suc)
qed

section \<open>What a backfill sends\<close>

text \<open>A subscription to a whole path: no selection, predicate, conversion or filter.\<close>

definition plain_sub :: "sub_entry \<Rightarrow> bool" where
  "plain_sub e \<longleftrightarrow> se_space e = [] \<and> se_pred e = [] \<and> se_want_type e = [] \<and> se_dcpl e = [] \<and> se_sel_start e = 0 \<and> se_sel_count e = U64_MAX"

definition back_target :: "push_env \<Rightarrow> string \<Rightarrow> sub_entry \<Rightarrow> bf_state \<Rightarrow> bool" where
  "back_target penv path e s \<longleftrightarrow> plain_sub e \<and> push_targets path (Some (se_member e)) (bf_tr s) = [e] \<and>
     se_member e \<noteq> tr_self_id (bf_tr s) \<and> snd (member_addr (pe_lookup penv) (se_member e) (bf_tr s)) \<noteq> None"

lemma back_target_same: "bf_same (pe_lookup penv) s s' \<Longrightarrow> back_target penv path e s \<Longrightarrow> back_target penv path e s'"
  by (simp add: back_target_def bf_same_def tr_view_def push_targets_def fun_eq_iff)

lemma plain_due:
  assumes "plain_sub e" "wr_ok wr" "callbacks_ok penv"
  shows "due penv wr e = [wr_start wr ..< wr_start wr + wr_count wr]" "overlap_start wr e = wr_start wr"
    "overlap_end wr e = wr_start wr + wr_count wr"
proof -
  show o: "overlap_start wr e = wr_start wr" "overlap_end wr e = wr_start wr + wr_count wr"
    using assms by (auto simp: plain_sub_def overlap_start_def overlap_end_def sub_end_def wr_end_def wr_ok_def wrap64_id)
  then show "due penv wr e = [wr_start wr ..< wr_start wr + wr_count wr]"
    using due_whole [of e penv wr] assms by (simp add: plain_sub_def)
qed

lemma plain_push:
  assumes "callbacks_ok penv" "link_ok penv" "wr_ok wr" "wr_native wr = []" "bf_ok s" "back_target penv (wr_path wr) e s"
  shows "\<exists>s' items. bf_push (push_data_to penv (se_member e) wr) s = Inr s' \<and> bf_same (pe_lookup penv) s s' \<and>
    bf_trace s' = bf_trace s @ map (Sent (se_member e)) items \<and> items_elems items = [wr_start wr ..< wr_start wr + wr_count wr] \<and>
    (\<forall>i \<in> set items. item_ok penv (wr_step wr) (wr_path wr) (wr_source wr) [] i)"
proof -
  let ?ps = "(bf_ps s)\<lparr>ps_failed := []\<rparr>" and ?m = "se_member e"
  have t: "plain_sub e" "push_targets (wr_path wr) (Some ?m) (bf_tr s) = [e]" "?m \<noteq> tr_self_id (bf_tr s)"
      "snd (member_addr (pe_lookup penv) ?m (bf_tr s)) \<noteq> None" using assms(6) by (simp_all add: back_target_def)
  have inv: "ps_inv ?ps" using assms(5) by (simp add: bf_ok_def ps_inv_def)
  obtain tr ps out where r: "push_subs penv wr [e] (bf_tr s) ?ps = Inr (tr, ps, out)" "ps_inv ps" "fst ` set out \<subseteq> {?m}"
      "sub_sent penv wr e True (sent_to ?m out)"
    using push_subs_result [OF assms(1,3) inv, of "[e]" "bf_tr s"] t(3,4) by auto
  have "out = map (Pair ?m) (map snd out)" using r(3) by (induction out) auto
  then have out: "map (\<lambda>(m, i). Sent m i) out = map (Sent ?m) (map snd out)" "sent_to ?m out = map snd out"
    using r(3) sent_to_simps(2) [of ?m ?m "map snd out"] by (induction out) auto
  have "wr\<lparr>wr_native := []\<rparr> = wr" using assms(4) by simp
  then have p: "push_data_to penv ?m wr (bf_tr s) (bf_ps s) = Inr (tr, ps, out)"
    using assms(3,5) r(1) t(2) by (simp add: push_data_to_def push_data_def wr_ok_def bf_ok_def)
  have conv: "convert_source penv (se_want_type e) so x y = Inr (so, 0)" for so x y using t(1) by (simp add: plain_sub_def convert_source_def)
  have "items_elems (map snd out) = [wr_start wr ..< wr_start wr + wr_count wr]"
    using r(4) assms(2) plain_due(1) [OF t(1) assms(3,1)] by (simp add: sub_sent_def out(2))
  moreover have "\<forall>i \<in> set (map snd out). item_ok penv (wr_step wr) (wr_path wr) (wr_source wr) [] i"
    using r(4) t(1) unfolding sub_sent_def out(2) conv by (auto simp: plain_sub_def)
  moreover have "bf_same (pe_lookup penv) s (s\<lparr>bf_tr := tr, bf_ps := ps, bf_trace := bf_trace s @ map (Sent ?m) (map snd out)\<rparr>)"
    by (rule bf_same_view [OF assms(5) push_subs_view [OF r(1)] r(2)])
  ultimately show ?thesis
    using p out(1) by (intro exI [of _ "s\<lparr>bf_tr := tr, bf_ps := ps, bf_trace := bf_trace s @ map (Sent ?m) (map snd out)\<rparr>"] exI [of _ "map snd out"])
      (simp add: bf_push_def)
qed

text \<open>An item that carries elements of the committed copy with the bytes they have there.\<close>

definition copy_item :: "nat \<Rightarrow> string \<Rightarrow> nat \<Rightarrow> byte list \<Rightarrow> data_item \<Rightarrow> bool" where
  "copy_item k path z copy i \<longleftrightarrow> di_step i = k \<and> di_path i = path \<and> di_buf i = concat (map (elem_bytes z copy) (item_elems i))"

lemma upt_subset: "set [a..<a + n] \<subseteq> {s..<s + c} \<Longrightarrow> 0 < n \<Longrightarrow> s \<le> a \<and> a + n \<le> s + (c::nat)"
proof -
  assume a: "set [a..<a + n] \<subseteq> {s..<s + c}" "0 < n"
  then have "a \<in> {s..<s + c}" "a + n - 1 \<in> {s..<s + c}" by force+
  then show ?thesis by auto
qed

lemma item_ok_copy:
  assumes "item_ok penv k path so [] i" "so_buf so = concat (map (elem_bytes z copy) [s..<s + c])" "so_base so = s" "so_elem_size so = z"
    and "set (item_elems i) \<subseteq> {s..<s + c}"
  shows "copy_item k path z copy i"
proof -
  let ?a = "di_elem_start i" and ?n = "di_elem_count i"
  have b: "di_buf i = take (?n * z) (drop ((?a - s) * z) (take (c * z) (drop (s * z) copy)))"
    using assms(1-4) by (simp add: item_ok_def Let_def range_bytes_def elem_bytes_piece)
  have "take (?n * z) (drop ((?a - s) * z) (take (c * z) (drop (s * z) copy))) = take (?n * z) (drop (?a * z) copy)"
  proof (cases "?n = 0")
    case False
    then have w: "s \<le> ?a" "?a + ?n \<le> s + c" using upt_subset [of ?a ?n s c] assms(5) by (simp_all add: item_elems_def)
    have "?a * z = (?a - s) * z + s * z" using w(1) by (simp flip: add_mult_distrib)
    moreover have "?n * z \<le> c * z - (?a - s) * z"
    proof -
      have "?n * z \<le> (c - (?a - s)) * z" using w by (intro mult_le_mono1) simp
      then show ?thesis by (simp add: diff_mult_distrib)
    qed
    ultimately show ?thesis by (simp add: drop_take min_absorb1)
  qed simp
  then show ?thesis using assms(1) b by (simp add: copy_item_def item_ok_def item_elems_def elem_bytes_piece Let_def)
qed

lemma back_write_simps:
  "wr_path (back_write api mtype space path k b start n) = path" "wr_step (back_write api mtype space path k b start n) = k"
  "wr_start (back_write api mtype space path k b start n) = start" "wr_count (back_write api mtype space path k b start n) = n"
  by (simp_all add: back_write_def)

lemma elem_bytes_length: "\<forall>x \<in> set xs. Suc x * z \<le> length copy \<Longrightarrow> length (concat (map (elem_bytes z copy) xs)) = length xs * z"
  by (induction xs) (auto simp: elem_bytes_def)

lemma backfill_runs_exact:
  assumes "callbacks_ok penv" "link_ok penv" "H5Tget_size mtype = z" "0 < z" "bf_ok s" "back_target penv path e s"
    and "\<forall>r \<in> set runs. run_start r + run_count r \<le> U64_MAX" "\<forall>x \<in> set (pre @ runs_elems runs). Suc x * z \<le> length copy"
  shows "\<exists>s' items. backfill_runs api penv (se_member e) path k mtype space (concat (map (elem_bytes z copy) (pre @ runs_elems runs))) (length pre) runs s = Inr s' \<and>
    bf_same (pe_lookup penv) s s' \<and> bf_trace s' = bf_trace s @ map (Sent (se_member e)) items \<and>
    items_elems items = runs_elems runs \<and> list_all (copy_item k path z copy) items"
  using assms(5-8)
proof (induction runs arbitrary: pre s)
  case (Cons r rs)
  let ?eb = "\<lambda>xs. concat (map (elem_bytes z copy) xs)"
  let ?wr = "back_write api mtype space path k (?eb (run_elems r)) (run_start r) (run_count r)"
  have len: "length (?eb (run_elems r)) = run_count r * z" "length (?eb pre) = length pre * z"
    using Cons.prems(4) by (subst elem_bytes_length; simp)+
  have read: "mem_read (?eb (pre @ runs_elems (r # rs))) (length pre * z) (run_count r * z) = Inr (?eb (run_elems r))"
    using mem_read_append [OF len, of "?eb (runs_elems rs)"] by simp
  have ok: "wr_ok ?wr" "wr_native ?wr = []"
    using back_write_ok [of mtype "?eb (run_elems r)" "run_count r" "run_start r"] assms(3,4) len(1) Cons.prems(3) by simp_all
  obtain s1 items where 1: "bf_push (push_data_to penv (se_member e) ?wr) s = Inr s1" "bf_same (pe_lookup penv) s s1"
      "bf_trace s1 = bf_trace s @ map (Sent (se_member e)) items" "items_elems items = run_elems r"
      "\<forall>i \<in> set items. item_ok penv k path (wr_source ?wr) [] i"
    using plain_push [OF assms(1,2) ok Cons.prems(1), of e] Cons.prems(2) unfolding back_write_simps run_elems_def by blast
  have "list_all (copy_item k path z copy) items"
  proof (unfold list_all_iff, rule ballI)
    fix i assume i: "i \<in> set items"
    then have "set (item_elems i) \<subseteq> {run_start r ..< run_start r + run_count r}" using 1(4) by (fastforce simp: run_elems_def dest: arg_cong [where f = set])
    then show "copy_item k path z copy i"
      using i 1(5) item_ok_copy [of penv k path "wr_source ?wr" i z copy "run_start r" "run_count r"] assms(3)
      by (simp add: wr_source_def back_write_def run_elems_def)
  qed
  moreover obtain s2 items' where "backfill_runs api penv (se_member e) path k mtype space (?eb ((pre @ run_elems r) @ runs_elems rs)) (length (pre @ run_elems r)) rs s1 = Inr s2"
      "bf_same (pe_lookup penv) s1 s2" "bf_trace s2 = bf_trace s1 @ map (Sent (se_member e)) items'" "items_elems items' = runs_elems rs" "list_all (copy_item k path z copy) items'"
    using Cons.IH [OF bf_same_ok [OF 1(2)] back_target_same [OF 1(2) Cons.prems(2)], of "pre @ run_elems r"] Cons.prems(3,4) by auto
  ultimately show ?case
    using read 1 assms(3) bf_same_trans [OF 1(2)] by (intro exI [of _ s2] exI [of _ "items @ items'"]) simp
qed (auto simp: bf_same_refl)

text \<open>
  A write of a step to a path, as its manifest lists it: the selection decodes, is not empty and can be
  sent as runs, and reading it back packs the listed elements of the copy.
\<close>

definition wrote :: "back_api \<Rightarrow> back_obj \<Rightarrow> nat \<Rightarrow> byte list \<Rightarrow> string \<Rightarrow> vs_entry \<Rightarrow> flat_run list \<Rightarrow> nat list \<Rightarrow> bool" where
  "wrote api obj z copy path e runs packed \<longleftrightarrow> is_write_of path e \<and>
     (\<exists>sel. b_decode_space api (en_space_enc e) = Some sel \<and> flat_runs sel MAX_PUSH_RUNS = Some (Inr runs) \<and> runs \<noteq> [] \<and>
        (\<exists>n > 0. ds_npoints sel = Some n) \<and>
        bo_read obj (Some sel) = Some (concat (map (elem_bytes z copy) packed)) \<and>
        (\<forall>x \<in> set (runs_elems runs). Suc x * z \<le> length copy))"

lemma backfill_entries_exact:
  assumes "callbacks_ok penv" "link_ok penv" "back_ok api" "H5Tget_size mtype = z" "0 < z"
    and "list_all2 (\<lambda>en runs. wrote api obj z copy path en runs (runs_elems runs)) (filter (is_write_of path) es) runss"
    and "bf_ok s" "back_target penv path e s"
  shows "\<exists>s' items. backfill_entries api penv (se_member e) path k obj mtype space es s = Some (Inr (s', False)) \<and>
    bf_same (pe_lookup penv) s s' \<and> bf_trace s' = bf_trace s @ map (Sent (se_member e)) items \<and>
    items_elems items = concat (map runs_elems runss) \<and> list_all (copy_item k path z copy) items"
  using assms(6-8)
proof (induction es arbitrary: runss s)
  case (Cons en es)
  show ?case
  proof (cases "is_write_of path en")
    case True
    then obtain runs rest where r: "runss = runs # rest" "wrote api obj z copy path en runs (runs_elems runs)"
        "list_all2 (\<lambda>en runs. wrote api obj z copy path en runs (runs_elems runs)) (filter (is_write_of path) es) rest"
      using Cons.prems(1) by (auto simp: list_all2_Cons1)
    obtain sel n where sel: "b_decode_space api (en_space_enc en) = Some sel" "flat_runs sel MAX_PUSH_RUNS = Some (Inr runs)" "runs \<noteq> []"
        "ds_npoints sel = Some n" "0 < n" "bo_read obj (Some sel) = Some (concat (map (elem_bytes z copy) (runs_elems runs)))"
        "\<forall>x \<in> set (runs_elems runs). Suc x * z \<le> length copy"
      using r(2) by (auto simp: wrote_def)
    have "sel_ok sel" "0 < MAX_PUSH_RUNS" using assms(3) sel(1) by (auto simp: back_ok_def MAX_PUSH_RUNS_def)
    then have bd: "\<forall>r \<in> set runs. run_start r + run_count r \<le> U64_MAX" using flat_runs_ok [of sel MAX_PUSH_RUNS] sel(2) by auto
    obtain s1 items where 1: "backfill_runs api penv (se_member e) path k mtype space (concat (map (elem_bytes z copy) (runs_elems runs))) 0 runs s = Inr s1"
        "bf_same (pe_lookup penv) s s1" "bf_trace s1 = bf_trace s @ map (Sent (se_member e)) items" "items_elems items = runs_elems runs" "list_all (copy_item k path z copy) items"
      using backfill_runs_exact [OF assms(1,2,4,5) Cons.prems(2,3) bd, of "[]" copy api k space] sel(7) by auto
    let ?s1 = "release_sources penv s1"
    have same: "bf_same (pe_lookup penv) s ?s1" by (rule bf_same_trans [OF 1(2) release_sources_same [OF bf_same_ok [OF 1(2)]]])
    have t1: "bf_trace ?s1 = bf_trace s1" by (simp add: release_sources_def)
    obtain s2 items' where "backfill_entries api penv (se_member e) path k obj mtype space es ?s1 = Some (Inr (s2, False))"
        "bf_same (pe_lookup penv) ?s1 s2" "bf_trace s2 = bf_trace ?s1 @ map (Sent (se_member e)) items'"
        "items_elems items' = concat (map runs_elems rest)" "list_all (copy_item k path z copy) items'"
      using Cons.IH [OF r(3) bf_same_ok [OF same] back_target_same [OF same Cons.prems(3)]] by blast
    then show ?thesis
      using True sel 1 r(1) t1 bf_same_trans [OF same] by (intro exI [of _ s2] exI [of _ "items @ items'"]) simp
  qed (use Cons in simp)
qed (auto simp: bf_same_refl)


definition write_entry :: "string \<Rightarrow> byte list \<Rightarrow> vs_entry" where
  "write_entry path enc = \<lparr>en_kind = DsetWrite, en_path = Some path, en_type_enc = [], en_space_enc = enc, en_dcpl_enc = None, en_payload_off = 0, en_payload_len = 0\<rparr>"

text \<open>A dataset of six bytes and one write to it, with the selection \<open>sel\<close>, read back as \<open>packed\<close>.\<close>

definition six_bytes :: "byte list" where "six_bytes = [10, 11, 12, 13, 14, 15]"

definition six_obj :: "dspace \<Rightarrow> nat list \<Rightarrow> back_obj" where
  "six_obj sel packed = \<lparr>bo_native = Some (T_ATOMIC 1), bo_space = Some sel,
     bo_read = (\<lambda>s. Some (case s of None \<Rightarrow> six_bytes | Some _ \<Rightarrow> concat (map (elem_bytes 1 six_bytes) packed))), bo_read_vl = (\<lambda>_. None)\<rparr>"

definition six_api :: "dspace \<Rightarrow> nat list \<Rightarrow> back_api" where
  "six_api sel packed = \<lparr>b_open = (\<lambda>_ _. Some (six_obj sel packed)), b_encode_type = (\<lambda>_. None), b_encode_space = (\<lambda>_. None),
     b_decode_space = (\<lambda>_. Some sel), b_extent = (\<lambda>_. Some 6), b_step = (\<lambda>_. None)\<rparr>"

definition back_example :: bf_state where
  "back_example = late_example\<lparr>bf_tr := two_readers\<lparr>tr_subs := [one_sub 8 ''/x'']\<rparr>\<rparr>"

lemma back_example_ok:
  "callbacks_ok penv_late" "link_ok penv_late" "bf_ok back_example" "back_target penv_late ''/x'' (one_sub 8 ''/x'') back_example"
  by (simp_all add: callbacks_ok_def push_env_example_def link_ok_def bf_ok_def back_example_def late_example_def two_readers_def tr_start_def
      ps_inv_def ps_start_def back_target_def plain_sub_def one_sub_def push_targets_def member_addr_def VS_Group.env_example_def)

lemma six_api_ok:
  assumes "sel_ok sel" "ds_npoints sel = Some (length packed)" "\<forall>x \<in> set packed. x < 6"
  shows "back_ok (six_api sel packed)"
proof -
  have "length (concat (map (elem_bytes 1 six_bytes) packed)) = length packed"
  proof -
    have "\<forall>x \<in> set packed. Suc x * 1 \<le> length six_bytes" using assms(3) by (auto simp: six_bytes_def)
    then show ?thesis using elem_bytes_length [of packed 1 six_bytes] by simp
  qed
  then show ?thesis using assms by (auto simp: back_ok_def obj_ok_def six_api_def six_obj_def six_bytes_def U64_MAX_val split: option.splits)
qed

definition two_ranges :: dspace where
  "two_ranges = \<lparr>ds_scalar = False, ds_dims = Some [6], ds_sel = SEL_HYPERSLABS (Some [([1], [2]), ([4], [4])]), ds_npoints = Some 3, ds_bounds = Some ([1], [4])\<rparr>"

lemma two_ranges_ok: "sel_ok two_ranges" "flat_runs two_ranges MAX_PUSH_RUNS = Some (Inr [\<lparr>run_start = 1, run_count = 2\<rparr>, \<lparr>run_start = 4, run_count = 1\<rparr>])"
proof -
  have e: "concat (map (block_elems [6]) [([1], [2]), ([4], [4])]) = [1, 2, 4]" by code_simp
  have ok: "ext_ok [6]" "list_all (block_ok [6]) [([1], [2]), ([4], [4])]" by (simp_all add: ext_ok_def block_ok_def U64_MAX_val)
  then show "sel_ok two_ranges" using e by (simp add: sel_ok_def two_ranges_def ext_ok_def del: list.map concat.simps)
  have "canon [1, 2, 4] = [\<lparr>run_start = 1, run_count = 2\<rparr>, \<lparr>run_start = 4, run_count = 1\<rparr>]" by code_simp
  then show "flat_runs two_ranges MAX_PUSH_RUNS = Some (Inr [\<lparr>run_start = 1, run_count = 2\<rparr>, \<lparr>run_start = 4, run_count = 1\<rparr>])"
    using flat_runs_hyperslabs [of two_ranges, OF _ _ _ ok(1) _ _ ok(2), of MAX_PUSH_RUNS] e
    by (simp add: two_ranges_def bounded_def MAX_PUSH_RUNS_def del: list.map concat.simps)
qed


text \<open>
  (C38) The order matters. Two columns of a 2 by 3 array are listed column by column, but read back row by
  row: the bytes of the elements 2 and 3 reach a late joiner exchanged, although the step's copy
  holds them in place.
\<close>

theorem backfill_exchanges_columns:
  "\<exists>s' items. backfill_one (six_api two_columns (sort [0, 3, 2, 5])) penv_late 8 ''/x'' 3 (Some [write_entry ''/x'' [1]]) back_example = Some (Inr s') \<and>
    bf_trace s' = map (Sent 8) items \<and> items_elems items = [0, 3, 2, 5] \<and> concat (map di_buf items) = [10, 12, 13, 15] \<and>
    concat (map (elem_bytes 1 six_bytes) [0, 3, 2, 5]) = [10, 13, 12, 15]"
proof -
  let ?api = "six_api two_columns (sort [0, 3, 2, 5])" and ?obj = "six_obj two_columns (sort [0, 3, 2, 5])"
  let ?seen = "[10, 11, 13, 12, 14, 15] :: byte list"
  have so: "sort [0, 3, 2, 5] = [0, 2, 3, 5::nat]" by simp
  have selok: "sel_ok two_columns" using two_columns_ok two_columns_elems
    by (simp add: sel_ok_def ext_ok_def del: list.map concat.simps One_nat_def)
  have api: "back_ok ?api" unfolding so by (rule six_api_ok [OF selok]) simp_all
  obtain runs where runs: "flat_runs two_columns MAX_PUSH_RUNS = Some (Inr runs)" "runs_elems runs = [0, 3, 2, 5]"
  proof -
    have "length (canon [0, 3, 2, 5]) = 4" by code_simp
    then have "flat_runs two_columns MAX_PUSH_RUNS = Some (Inr (canon [0, 3, 2, 5]))"
      using flat_runs_hyperslabs [of two_columns, OF _ _ _ two_columns_ok(1) _ _ two_columns_ok(2), of MAX_PUSH_RUNS]
      by (simp add: bounded_def two_columns_elems MAX_PUSH_RUNS_def del: list.map concat.simps One_nat_def)
    then show thesis using that [of "canon [0, 3, 2, 5]"] by simp
  qed
  have seen: "concat (map (elem_bytes 1 six_bytes) [0, 2, 3, 5]) = concat (map (elem_bytes 1 ?seen) [0, 3, 2, 5])"
    by (simp add: elem_bytes_def six_bytes_def)
  have "wrote ?api ?obj 1 ?seen ''/x'' (write_entry ''/x'' [1]) runs (runs_elems runs)"
    unfolding wrote_def using runs seen by (auto simp: is_write_of_def write_entry_def six_api_def six_obj_def so)
  then have w: "list_all2 (\<lambda>en runs. wrote ?api ?obj 1 ?seen ''/x'' en runs (runs_elems runs)) (filter (is_write_of ''/x'') [write_entry ''/x'' [1]]) [runs]"
    by (simp add: is_write_of_def write_entry_def)
  obtain s' items where r: "backfill_entries ?api penv_late 8 ''/x'' 3 ?obj (T_ATOMIC 1) two_columns [write_entry ''/x'' [1]] back_example = Some (Inr (s', False))"
      "bf_trace s' = map (Sent 8) items" "items_elems items = [0, 3, 2, 5]" "list_all (copy_item 3 ''/x'' 1 ?seen) items"
    using backfill_entries_exact [OF back_example_ok(1,2) api _ _ w back_example_ok(3,4), of "T_ATOMIC 1" 3 two_columns] runs(2)
    by (auto simp: one_sub_def back_example_def late_example_def)
  have one: "backfill_one ?api penv_late 8 ''/x'' 3 (Some [write_entry ''/x'' [1]]) back_example = Some (Inr s')"
    using r(1) by (simp add: backfill_one_def open_back_def six_api_def six_obj_def del: backfill_entries.simps)
  have "concat (map di_buf items) = concat (map (elem_bytes 1 ?seen) (items_elems items))"
    using r(4) by (induction items) (auto simp: copy_item_def)
  then have "concat (map di_buf items) = [10, 12, 13, 15]" unfolding r(3) by (simp add: elem_bytes_def)
  moreover have "concat (map (elem_bytes 1 six_bytes) [0, 3, 2, 5]) = [10, 13, 12, 15]" by (simp add: elem_bytes_def six_bytes_def)
  ultimately show ?thesis using one r(2,3) by blast
qed

end
