(* ===== verification/VS_Concentrator.thy ===== *)
theory VS_Concentrator
  imports VS_Manifest
begin

text \<open>
  The dataset writes of a parallel step: \<open>H5VL__stream_write_replica\<close>,
  \<open>H5VL__stream_replay_local_writes\<close> and the concentrator topology of
  \<open>H5VL__stream_replay_concentrated_writes\<close>, in which the first rank of a group of consecutive
  ranks makes the writes of the whole group.

  MPI and the under-VOL are parameters, the members of \<open>penv\<close>; each takes and returns the
  world \<open>'w\<close>. Ranks are processes of their own, so each has its own \<open>h5api\<close>, identifiers and
  file state. A C \<open>int\<close> is an \<open>int\<close> brought into range by \<open>c_int\<close>.
\<close>

definition c_int :: "int \<Rightarrow> int" where
  "c_int n = sint (word_of_int n :: 32 word)"

lemma c_int_id: "- (2 ^ 31) \<le> n \<Longrightarrow> n < 2 ^ 31 \<Longrightarrow> c_int n = n"
  using signed_take_bit_int_eq_self [of 31 n] by (simp add: c_int_def sint_uint unsigned_of_int signed_take_bit_take_bit)

record ('w, 'o) penv =
  pv_rank :: int
  pv_size :: int
  pv_little_endian :: bool
  pv_env_concentration :: "string option"
  pv_cfg_concentration :: nat
  pv_finalize :: "vs_step \<Rightarrow> byte list option"
  pv_as_root :: "byte list \<Rightarrow> vs_step option"
  pv_allgather :: "'w \<Rightarrow> int \<Rightarrow> 'w \<times> int list option"
  pv_allgatherv :: "'w \<Rightarrow> byte list \<Rightarrow> int \<Rightarrow> int list \<Rightarrow> int list \<Rightarrow> 'w \<times> byte list option"
  pv_send_count :: "'w \<Rightarrow> int \<Rightarrow> int \<Rightarrow> 'w \<times> bool"
  pv_recv_count :: "'w \<Rightarrow> int \<Rightarrow> 'w \<times> int option"
  pv_send :: "'w \<Rightarrow> int \<Rightarrow> byte list \<Rightarrow> int \<Rightarrow> 'w \<times> bool"
  pv_recv :: "'w \<Rightarrow> int \<Rightarrow> 'w \<times> byte list option"
  pv_apply_entry :: "nat option list \<Rightarrow> 'w \<Rightarrow> replay_item \<Rightarrow> 'w \<times> bool"
  pv_dataset_open :: "'w \<Rightarrow> path \<Rightarrow> 'w \<times> 'o option"
  pv_dataset_close :: "'w \<Rightarrow> 'o \<Rightarrow> 'w"
  pv_select_npoints :: "hid \<Rightarrow> nat option"
  pv_screate_simple :: "nat \<Rightarrow> hid option"
  pv_dataset_write :: "'w \<Rightarrow> 'o \<Rightarrow> hid \<Rightarrow> hid \<Rightarrow> hid \<Rightarrow> byte list \<Rightarrow> 'w \<times> bool"

section \<open>Dataset writes\<close>

definition write_real ::
  "('w, 'o) penv \<Rightarrow> 'w \<Rightarrow> 'o \<Rightarrow> hid \<Rightarrow> hid \<Rightarrow> byte list \<Rightarrow> 'w \<times> bool" where
  "write_real env w real type_id space_id payload =
     (case pv_select_npoints env space_id of
        None \<Rightarrow> (w, False)
      | Some n \<Rightarrow> (case pv_screate_simple env n of
          None \<Rightarrow> (w, False)
        | Some mem_space \<Rightarrow> pv_dataset_write env w real type_id mem_space space_id payload))"

definition write_replica ::
  "('w, 'o) penv \<Rightarrow> 'w \<Rightarrow> nat \<Rightarrow> path \<Rightarrow> hid \<Rightarrow> hid \<Rightarrow> byte list \<Rightarrow> 'w \<times> unit cres" where
  "write_replica env w physical_step rel_path type_id space_id payload =
     (case pv_dataset_open env w (step_path physical_step rel_path) of
        (w, None) \<Rightarrow> (w, Inl EFail)
      | (w, Some real) \<Rightarrow>
          (case write_real env w real type_id space_id payload of
             (w, ok) \<Rightarrow> (pv_dataset_close env w real, if ok then Inr () else Inl EFail)))"

fun replay_local_writes ::
  "('w, 'o) penv \<Rightarrow> 'w \<Rightarrow> nat \<Rightarrow> pending_entry list \<Rightarrow> 'w \<times> unit cres" where
  "replay_local_writes env w physical_step [] = (w, Inr ())"
| "replay_local_writes env w physical_step (pe # pes) =
     (if pe_kind pe \<noteq> DsetWrite then replay_local_writes env w physical_step pes
      else case write_replica env w physical_step (the (pe_path pe)) (pe_type_id pe) (pe_space_id pe) (pe_payload pe) of
             (w, Inl e) \<Rightarrow> (w, Inl e)
           | (w, Inr _) \<Rightarrow> replay_local_writes env w physical_step pes)"

subsection \<open>The concentrator\<close>

text \<open>\<open>strtol(s, NULL, 10)\<close>: 0 when there is no number, clamped to the range of \<open>long\<close>.\<close>

definition strtol10 :: "string \<Rightarrow> int" where
  "strtol10 s =
     (let (neg, t) = sign_split (dropWhile is_space s);
          v = int (foldl (\<lambda>a c. a * 10 + digit_val c) 0 (takeWhile is_digit t))
      in if neg then max (- (2 ^ 63)) (- v) else min (2 ^ 63 - 1) v)"

definition concentration_factor :: "('w, 'o) penv \<Rightarrow> int" where
  "concentration_factor env =
     (let v = (case pv_env_concentration env of
                 None \<Rightarrow> int (pv_cfg_concentration env)
               | Some s \<Rightarrow> if s = [] then int (pv_cfg_concentration env) else strtol10 s)
      in if v > 1 then c_int v else 1)"

text \<open>A \<open>uint64_t\<close> copied in host byte order.\<close>

definition put_host :: "bool \<Rightarrow> nat \<Rightarrow> byte list" where
  "put_host le n = (if le then put_u64le (of_nat n) else rev (put_u64le (of_nat n)))"

definition get_host :: "bool \<Rightarrow> byte list \<Rightarrow> nat" where
  "get_host le bs = unat (get_u64le (if le then bs else rev bs))"

definition entry_msg :: "bool \<Rightarrow> path \<Rightarrow> byte list \<Rightarrow> byte list \<Rightarrow> byte list \<Rightarrow> byte list" where
  "entry_msg le path type_enc space_enc payload =
     put_host le (length path) @ c_bytes path @
     put_host le (length type_enc) @ type_enc @
     put_host le (length space_enc) @ space_enc @
     put_host le (length payload) @ payload"

definition send_write_entry ::
  "('w, 'o) penv \<Rightarrow> h5api \<Rightarrow> 'w \<Rightarrow> int \<Rightarrow> pending_entry \<Rightarrow> 'w \<times> unit cres" where
  "send_write_entry env h w concentrator pe =
     (case (encode_type h (pe_type_id pe), encode_space h (pe_space_id pe)) of
        (Some type_enc, Some space_enc) \<Rightarrow>
          (let msg = entry_msg (pv_little_endian env) (the (pe_path pe)) type_enc space_enc (pe_payload pe) in
           case pv_send env w concentrator msg (c_int (int (length msg))) of
             (w, ok) \<Rightarrow> (w, if ok then Inr () else Inl EFail))
      | _ \<Rightarrow> (w, Inl EFail))"

text \<open>\<open>H5VL_stream_concentrated_job_t\<close>; the received buffers it owns are not part of it.\<close>

record job =
  jb_path :: path
  jb_type :: hid
  jb_space :: hid
  jb_payload :: "byte list"

text \<open>The path is used as a C string afterwards, so it ends at its first NUL.\<close>

definition c_string :: "byte list \<Rightarrow> string" where
  "c_string bs = map (\<lambda>b. char_of (unat b)) (takeWhile (\<lambda>b. b \<noteq> 0) bs)"

definition decode_entry :: "bool \<Rightarrow> h5api \<Rightarrow> byte list \<Rightarrow> job cres" where
  "decode_entry le h msg =
     cbind (mem_read msg 0 8) (\<lambda>v.
     cbind (mem_read msg 8 (get_host le v)) (\<lambda>pbytes.
     let off = 8 + get_host le v in
     cbind (mem_read msg off 8) (\<lambda>v.
     cbind (mem_read msg (off + 8) (get_host le v)) (\<lambda>type_enc.
     let off = off + 8 + get_host le v in
     case H5Tdecode2 h type_enc of
       None \<Rightarrow> Inl EFail
     | Some type_id \<Rightarrow>
         cbind (mem_read msg off 8) (\<lambda>v.
         case H5Sdecode h (drop (off + 8) msg) of
           None \<Rightarrow> Inl EFail
         | Some space_id \<Rightarrow>
             let off = off + 8 + get_host le v in
             cbind (mem_read msg off 8) (\<lambda>v.
             Inr \<lparr>jb_path = c_string pbytes, jb_type = type_id, jb_space = space_id,
                  jb_payload = drop (off + 8) msg\<rparr>))))))"

definition recv_entry :: "('w, 'o) penv \<Rightarrow> h5api \<Rightarrow> 'w \<Rightarrow> int \<Rightarrow> 'w \<times> job cres" where
  "recv_entry env h w source =
     (case pv_recv env w source of
        (w, None) \<Rightarrow> (w, Inl EFail)
      | (w, Some msg) \<Rightarrow> (w, decode_entry (pv_little_endian env) h msg))"

fun send_entries :: "('w, 'o) penv \<Rightarrow> h5api \<Rightarrow> 'w \<Rightarrow> int \<Rightarrow> pending_entry list \<Rightarrow> 'w \<times> unit cres" where
  "send_entries env h w c [] = (w, Inr ())"
| "send_entries env h w c (pe # pes) =
     (if pe_kind pe \<noteq> DsetWrite then send_entries env h w c pes
      else case send_write_entry env h w c pe of
             (w, Inl e) \<Rightarrow> (w, Inl e)
           | (w, Inr _) \<Rightarrow> send_entries env h w c pes)"

definition is_write :: "pending_entry \<Rightarrow> bool" where
  "is_write pe \<longleftrightarrow> pe_kind pe = DsetWrite"

definition own_job :: "pending_entry \<Rightarrow> job" where
  "own_job pe = \<lparr>jb_path = the (pe_path pe), jb_type = pe_type_id pe, jb_space = pe_space_id pe, jb_payload = pe_payload pe\<rparr>"

definition own_jobs :: "pending_entry list \<Rightarrow> job list" where
  "own_jobs pes = map own_job (filter is_write pes)"

fun recv_jobs :: "('w, 'o) penv \<Rightarrow> h5api \<Rightarrow> 'w \<Rightarrow> int \<Rightarrow> nat \<Rightarrow> job list \<Rightarrow> 'w \<times> job list cres" where
  "recv_jobs env h w m 0 jobs = (w, Inr jobs)"
| "recv_jobs env h w m (Suc k) jobs =
     (case recv_entry env h w m of
        (w, Inl e) \<Rightarrow> (w, Inl e)
      | (w, Inr job) \<Rightarrow> recv_jobs env h w m k (jobs @ [job]))"

fun gather_jobs :: "('w, 'o) penv \<Rightarrow> h5api \<Rightarrow> 'w \<Rightarrow> int list \<Rightarrow> job list \<Rightarrow> 'w \<times> job list cres" where
  "gather_jobs env h w [] jobs = (w, Inr jobs)"
| "gather_jobs env h w (m # ms) jobs =
     (case pv_recv_count env w m of
        (w, None) \<Rightarrow> (w, Inl EFail)
      | (w, Some n_entries) \<Rightarrow>
          (case recv_jobs env h w m (nat n_entries) jobs of
             (w, Inl e) \<Rightarrow> (w, Inl e)
           | (w, Inr jobs) \<Rightarrow> gather_jobs env h w ms jobs))"

text \<open>The inner loop: every job not yet done of the path whose dataset is open.\<close>

fun write_same ::
  "('w, 'o) penv \<Rightarrow> 'o \<Rightarrow> job list \<Rightarrow> path \<Rightarrow> 'w \<Rightarrow> bool list \<Rightarrow> nat list \<Rightarrow> 'w \<times> bool list \<times> bool" where
  "write_same env real jobs p w done_flag [] = (w, done_flag, True)"
| "write_same env real jobs p w done_flag (j # js) =
     (if done_flag ! j \<or> jb_path (jobs ! j) \<noteq> p then write_same env real jobs p w done_flag js
      else case write_real env w real (jb_type (jobs ! j)) (jb_space (jobs ! j)) (jb_payload (jobs ! j)) of
             (w, False) \<Rightarrow> (w, done_flag, False)
           | (w, True) \<Rightarrow> write_same env real jobs p w (done_flag[j := True]) js)"

fun write_groups ::
  "('w, 'o) penv \<Rightarrow> nat \<Rightarrow> job list \<Rightarrow> 'w \<Rightarrow> bool list \<Rightarrow> nat list \<Rightarrow> 'w \<times> unit cres" where
  "write_groups env physical_step jobs w done_flag [] = (w, Inr ())"
| "write_groups env physical_step jobs w done_flag (i # is) =
     (if done_flag ! i then write_groups env physical_step jobs w done_flag is
      else case pv_dataset_open env w (step_path physical_step (jb_path (jobs ! i))) of
             (w, None) \<Rightarrow> (w, Inl EFail)
           | (w, Some real) \<Rightarrow>
               (case write_same env real jobs (jb_path (jobs ! i)) w done_flag [i..<length jobs] of
                  (w, done_flag, False) \<Rightarrow> (pv_dataset_close env w real, Inl EFail)
                | (w, done_flag, True) \<Rightarrow>
                    write_groups env physical_step jobs (pv_dataset_close env w real) done_flag is))"

definition concentrator_of :: "int \<Rightarrow> int \<Rightarrow> int" where
  "concentrator_of group_size r = (r div group_size) * group_size"

definition replay_concentrated_writes ::
  "('w, 'o) penv \<Rightarrow> h5api \<Rightarrow> file_state \<Rightarrow> 'w \<Rightarrow> nat \<Rightarrow> int \<Rightarrow> 'w \<times> unit cres" where
  "replay_concentrated_writes env h fs w physical_step group_size =
     (let my_rank = pv_rank env;
          concentrator = concentrator_of group_size my_rank;
          group_end = min (c_int (concentrator + group_size)) (pv_size env)
      in if my_rank \<noteq> concentrator
         then (case pv_send_count env w concentrator (c_int (int (length (filter is_write (fs_pending fs))))) of
                 (w, False) \<Rightarrow> (w, Inl EFail)
               | (w, True) \<Rightarrow> send_entries env h w concentrator (fs_pending fs))
         else (case gather_jobs env h w [concentrator + 1..group_end - 1] (own_jobs (fs_pending fs)) of
                 (w, Inl e) \<Rightarrow> (w, Inl e)
               | (w, Inr jobs) \<Rightarrow>
                   write_groups env physical_step jobs w (replicate (length jobs) False) [0..<length jobs]))"

section \<open>A concrete environment\<close>

record pworld =
  pw_calls :: nat
  pw_items :: "replay_item list"
  pw_counts :: "int \<Rightarrow> int list"
  pw_inbox :: "int \<Rightarrow> byte list list"
  pw_hist :: "path \<Rightarrow> (hid \<times> hid \<times> byte list) list"
  pw_sent :: "(int \<times> byte list) list"
  pw_sent_counts :: "(int \<times> int) list"

definition pworld_init :: pworld where
  "pworld_init = \<lparr>pw_calls = 0, pw_items = [], pw_counts = (\<lambda>_. []), pw_inbox = (\<lambda>_. []), pw_hist = (\<lambda>_. []),
                  pw_sent = [], pw_sent_counts = []\<rparr>"

definition penv_example :: "int \<Rightarrow> (pworld, path) penv" where
  "penv_example rank =
     \<lparr>pv_rank = rank, pv_size = 2, pv_little_endian = True, pv_env_concentration = None, pv_cfg_concentration = 0,
      pv_finalize = (\<lambda>_. None), pv_as_root = (\<lambda>_. None),
      pv_allgather = (\<lambda>w v. (w\<lparr>pw_calls := Suc (pw_calls w)\<rparr>, Some (if pw_calls w = 0 then [1, 1] else [0, 1]))),
      pv_allgatherv = (\<lambda>w b n ls ds. (w\<lparr>pw_calls := Suc (pw_calls w)\<rparr>, Some (if pw_calls w = 2 then [1, 2] else [7]))),
      pv_send_count = (\<lambda>w c n. (w\<lparr>pw_sent_counts := pw_sent_counts w @ [(c, n)]\<rparr>, True)),
      pv_recv_count = (\<lambda>w m. case pw_counts w m of [] \<Rightarrow> (w, None) | n # ns \<Rightarrow> (w\<lparr>pw_counts := (pw_counts w)(m := ns)\<rparr>, Some n)),
      pv_send = (\<lambda>w c b n. (w\<lparr>pw_sent := pw_sent w @ [(c, b)]\<rparr>, True)),
      pv_recv = (\<lambda>w m. case pw_inbox w m of [] \<Rightarrow> (w, None) | b # bs \<Rightarrow> (w\<lparr>pw_inbox := (pw_inbox w)(m := bs)\<rparr>, Some b)),
      pv_apply_entry = (\<lambda>_ w it. (w\<lparr>pw_items := pw_items w @ [it]\<rparr>, True)),
      pv_dataset_open = (\<lambda>w p. (w, Some p)), pv_dataset_close = (\<lambda>w p. w),
      pv_select_npoints = (\<lambda>_. Some 1), pv_screate_simple = (\<lambda>_. Some 0),
      pv_dataset_write = (\<lambda>w p t ms sp b. (w\<lparr>pw_hist := (pw_hist w)(p := pw_hist w p @ [(t, sp, b)])\<rparr>, True))\<rparr>"

section \<open>Messages to a concentrator\<close>

lemma length_put_host [simp]: "length (put_host le n) = 8"
  by (simp add: put_host_def)

lemma get_put_host [simp]: "n \<le> U64_MAX \<Longrightarrow> get_host le (put_host le n) = n"
  by (simp add: get_host_def put_host_def unat_of_nat U64_MAX_def)

lemma c_string_bytes: "CHR 0x00 \<notin> set p \<Longrightarrow> c_string (c_bytes p) = p"
proof -
  assume p: "CHR 0x00 \<notin> set p"
  have nat: "unat (of_char c :: byte) = of_char c" for c
  proof -
    have "(of_char c :: byte) = of_nat (of_char c)" by (rule of_nat_of_char [symmetric])
    then show ?thesis using nat_of_char_less_256 [of c] by (simp only:) (simp add: unat_of_nat)
  qed
  have nz: "of_char c \<noteq> (0 :: byte)" if "c \<in> set p" for c
  proof
    assume "of_char c = (0 :: byte)"
    then have "(of_char c :: nat) = 0" using nat [of c] by simp
    then have "c = char_of (0 :: nat)" by (metis char_of_char)
    moreover have "char_of (0 :: nat) = CHR 0x00" by (simp add: char_of_def)
    ultimately have "c = CHR 0x00" by simp
    then show False using p that by simp
  qed
  then have "takeWhile (\<lambda>b. b \<noteq> 0) (c_bytes p) = c_bytes p"
    by (auto simp: c_bytes_def takeWhile_eq_all_conv)
  then have "c_string (c_bytes p) = map (\<lambda>b. char_of (unat b)) (c_bytes p)" by (simp only: c_string_def)
  then show ?thesis by (simp add: c_bytes_def comp_def nat)
qed

text \<open>An entry that survives the trip: its encodings decode at the receiver, its message fits an \<open>int\<close>.\<close>

definition sent_msg :: "bool \<Rightarrow> h5api \<Rightarrow> pending_entry \<Rightarrow> byte list" where
  "sent_msg le h pe =
     entry_msg le (the (pe_path pe)) (the (encode_type h (pe_type_id pe))) (the (encode_space h (pe_space_id pe))) (pe_payload pe)"

definition sent_job :: "h5api \<Rightarrow> h5api \<Rightarrow> pending_entry \<Rightarrow> job" where
  "sent_job h hm pe =
     \<lparr>jb_path = the (pe_path pe), jb_type = the (H5Tdecode2 h (the (encode_type hm (pe_type_id pe)))),
      jb_space = the (H5Sdecode h (the (encode_space hm (pe_space_id pe)))), jb_payload = pe_payload pe\<rparr>"

definition sendable :: "bool \<Rightarrow> h5api \<Rightarrow> h5api \<Rightarrow> pending_entry \<Rightarrow> bool" where
  "sendable le h hm pe \<longleftrightarrow> is_write pe \<longrightarrow>
     (\<exists>p te se ty sp. pe_path pe = Some p \<and> CHR 0x00 \<notin> set p \<and>
        encode_type hm (pe_type_id pe) = Some te \<and> encode_space hm (pe_space_id pe) = Some se \<and>
        H5Tdecode2 h te = Some ty \<and> (\<forall>rest. H5Sdecode h (se @ rest) = Some sp) \<and> length (sent_msg le hm pe) < 2 ^ 31)"

lemma decode_entry_msg:
  assumes "CHR 0x00 \<notin> set p" "H5Tdecode2 h te = Some ty" "\<And>rest. H5Sdecode h (se @ rest) = Some sp"
    and "length (entry_msg le p te se pay) \<le> U64_MAX"
  shows "decode_entry le h (entry_msg le p te se pay) = Inr \<lparr>jb_path = p, jb_type = ty, jb_space = sp, jb_payload = pay\<rparr>"
proof -
  let ?m = "entry_msg le p te se pay"
  let ?a = "8 + length p" and ?b = "8 + length p + 8 + length te" and ?c = "8 + length p + 8 + length te + 8 + length se"
  have n: "length p \<le> U64_MAX" "length te \<le> U64_MAX" "length se \<le> U64_MAX" "length pay \<le> U64_MAX"
    using assms(4) by (auto simp: entry_msg_def)
  have pl: "mem_read ?m 0 8 = Inr (put_host le (length p))" "mem_read ?m 8 (length p) = Inr (c_bytes p)"
    by (simp_all add: mem_read_def entry_msg_def)
  have tl: "mem_read ?m ?a 8 = Inr (put_host le (length te))" "mem_read ?m (?a + 8) (length te) = Inr te"
    by (simp_all add: mem_read_def entry_msg_def)
  have sl: "mem_read ?m ?b 8 = Inr (put_host le (length se))" "drop (?b + 8) ?m = se @ put_host le (length pay) @ pay"
    by (simp_all add: mem_read_def entry_msg_def)
  have yl: "mem_read ?m ?c 8 = Inr (put_host le (length pay))" "drop (?c + 8) ?m = pay"
    by (simp_all add: mem_read_def entry_msg_def)
  show ?thesis
    unfolding decode_entry_def Let_def pl cbind_simps get_put_host [OF n(1)] tl get_put_host [OF n(2)] assms(2) option.case
      sl assms(3) get_put_host [OF n(3)] yl c_string_bytes [OF assms(1)] by simp
qed

lemma decode_sent:
  assumes "sendable le h hm pe" "is_write pe"
  shows "decode_entry le h (sent_msg le hm pe) = Inr (sent_job h hm pe)"
proof -
  obtain p te se ty sp where e: "pe_path pe = Some p" "CHR 0x00 \<notin> set p" "encode_type hm (pe_type_id pe) = Some te"
      "encode_space hm (pe_space_id pe) = Some se" "H5Tdecode2 h te = Some ty" "\<And>rest. H5Sdecode h (se @ rest) = Some sp"
      "length (sent_msg le hm pe) < 2 ^ 31"
    using assms unfolding sendable_def by blast
  have "sent_msg le hm pe = entry_msg le p te se (pe_payload pe)" using e by (simp add: sent_msg_def)
  moreover have "sent_job h hm pe = \<lparr>jb_path = p, jb_type = ty, jb_space = sp, jb_payload = pe_payload pe\<rparr>"
    using e(1-5) e(6) [of "[]"] by (simp add: sent_job_def)
  ultimately show ?thesis using decode_entry_msg [OF e(2,5,6)] e(7) by (simp add: U64_MAX_val)
qed

subsection \<open>What a member sends\<close>

definition send_laws :: "('w, 'o) penv \<Rightarrow> ('w \<Rightarrow> (int \<times> byte list) list) \<Rightarrow> ('w \<Rightarrow> (int \<times> int) list) \<Rightarrow> bool" where
  "send_laws env outbox counts \<longleftrightarrow>
     (\<forall>w c b. length b < 2 ^ 31 \<longrightarrow> (\<exists>w'. pv_send env w c b (int (length b)) = (w', True) \<and>
        outbox w' = outbox w @ [(c, b)] \<and> counts w' = counts w)) \<and>
     (\<forall>w c n. \<exists>w'. pv_send_count env w c n = (w', True) \<and> counts w' = counts w @ [(c, n)] \<and> outbox w' = outbox w)"

lemma send_entries_ok:
  assumes "send_laws env outbox counts" "list_all (sendable (pv_little_endian env) h hm) pes"
  shows "\<exists>w'. send_entries env hm w c pes = (w', Inr ()) \<and> counts w' = counts w \<and>
           outbox w' = outbox w @ map (\<lambda>pe. (c, sent_msg (pv_little_endian env) hm pe)) (filter is_write pes)"
  using assms(2)
proof (induction pes arbitrary: w)
  case (Cons pe pes)
  show ?case
  proof (cases "is_write pe")
    case True
    let ?msg = "sent_msg (pv_little_endian env) hm pe"
    have s: "sendable (pv_little_endian env) h hm pe" using Cons.prems by simp
    then have len: "length ?msg < 2 ^ 31" using True unfolding sendable_def by blast
    then have ci: "c_int (int (length ?msg)) = int (length ?msg)" by (intro c_int_id) simp_all
    obtain w1 where w1: "pv_send env w c ?msg (int (length ?msg)) = (w1, True)" "outbox w1 = outbox w @ [(c, ?msg)]" "counts w1 = counts w"
      using assms(1) len unfolding send_laws_def by metis
    have "send_write_entry env hm w c pe = (w1, Inr ())"
      using s True w1(1) ci unfolding sendable_def by (auto simp: send_write_entry_def sent_msg_def Let_def)
    then show ?thesis using Cons.IH [of w1] Cons.prems True w1(2,3) by (simp add: is_write_def)
  next
    case False
    then show ?thesis using Cons.IH [of w] Cons.prems by (simp add: is_write_def)
  qed
qed simp

section \<open>What reaches the file\<close>

text \<open>
  The under-VOL as the writes rely on it: \<open>hist w p\<close> is the sequence of writes, each with its
  datatype, selection and bytes, that the dataset at \<open>p\<close> has received. An existing dataset
  opens, a write through its handle is appended to its history and leaves the other datasets
  alone, opening and closing change nothing.
\<close>

type_synonym history = "path \<Rightarrow> (hid \<times> hid \<times> byte list) list"

definition vol_laws :: "('w, 'o) penv \<Rightarrow> path set \<Rightarrow> ('w \<Rightarrow> history) \<Rightarrow> ('o \<Rightarrow> path) \<Rightarrow> bool" where
  "vol_laws env live hist name \<longleftrightarrow>
     (\<forall>w p. p \<in> live \<longrightarrow> (\<exists>w' real. pv_dataset_open env w p = (w', Some real) \<and> name real = p \<and> hist w' = hist w)) \<and>
     (\<forall>w real t ms sp b. name real \<in> live \<longrightarrow>
        (\<exists>w'. pv_dataset_write env w real t ms sp b = (w', True) \<and>
              hist w' = (hist w)(name real := hist w (name real) @ [(t, sp, b)]))) \<and>
     (\<forall>w real. hist (pv_dataset_close env w real) = hist w) \<and>
     (\<forall>sp. \<exists>n ms. pv_select_npoints env sp = Some n \<and> pv_screate_simple env n = Some ms)"

definition record_job :: "nat \<Rightarrow> history \<Rightarrow> job \<Rightarrow> history" where
  "record_job step H j = (let p = step_path step (jb_path j) in H(p := H p @ [(jb_type j, jb_space j, jb_payload j)]))"

definition job_live :: "path set \<Rightarrow> nat \<Rightarrow> job \<Rightarrow> bool" where
  "job_live live step j \<longleftrightarrow> step_path step (jb_path j) \<in> live"

text \<open>The writes of a list of jobs that go to the dataset at \<open>p\<close>.\<close>

definition writes_to :: "nat \<Rightarrow> job list \<Rightarrow> path \<Rightarrow> (hid \<times> hid \<times> byte list) list" where
  "writes_to step js p =
     map (\<lambda>j. (jb_type j, jb_space j, jb_payload j)) (filter (\<lambda>j. step_path step (jb_path j) = p) js)"

lemma foldl_record: "foldl (record_job step) H js = (\<lambda>p. H p @ writes_to step js p)"
  by (induction js arbitrary: H) (auto simp: record_job_def writes_to_def Let_def fun_eq_iff)

lemma writes_to_append: "writes_to step (xs @ ys) p = writes_to step xs p @ writes_to step ys p"
  by (simp add: writes_to_def)

lemma write_real_ok:
  assumes "vol_laws env live hist name" "name real \<in> live"
  shows "\<exists>w'. write_real env w real t sp b = (w', True) \<and> hist w' = (hist w)(name real := hist w (name real) @ [(t, sp, b)])"
proof -
  obtain n ms where "pv_select_npoints env sp = Some n" "pv_screate_simple env n = Some ms"
    using assms(1) unfolding vol_laws_def by meson
  then show ?thesis using assms by (simp add: write_real_def vol_laws_def)
qed

lemma dataset_open_ok:
  assumes "vol_laws env live hist name" "p \<in> live"
  obtains w' real where "pv_dataset_open env w p = (w', Some real)" "name real = p" "hist w' = hist w"
  using assms unfolding vol_laws_def by meson

lemma dataset_close_hist: "vol_laws env live hist name \<Longrightarrow> hist (pv_dataset_close env w real) = hist w"
  by (simp add: vol_laws_def)

lemma write_replica_ok:
  assumes "vol_laws env live hist name" "step_path step p \<in> live"
  shows "\<exists>w'. write_replica env w step p t sp b = (w', Inr ()) \<and>
    hist w' = record_job step (hist w) \<lparr>jb_path = p, jb_type = t, jb_space = sp, jb_payload = b\<rparr>"
proof -
  obtain w1 real where o: "pv_dataset_open env w (step_path step p) = (w1, Some real)" "name real = step_path step p" "hist w1 = hist w"
    using dataset_open_ok [OF assms] .
  obtain w2 where "write_real env w1 real t sp b = (w2, True)" "hist w2 = (hist w1)(name real := hist w1 (name real) @ [(t, sp, b)])"
    using write_real_ok [OF assms(1), of real w1 t sp b] o(2) assms(2) by auto
  then show ?thesis using o dataset_close_hist [OF assms(1)] by (simp add: write_replica_def record_job_def Let_def)
qed

lemma replay_local_writes_ok:
  assumes "vol_laws env live hist name" "list_all (job_live live step) (own_jobs pes)"
  shows "\<exists>w'. replay_local_writes env w step pes = (w', Inr ()) \<and> hist w' = foldl (record_job step) (hist w) (own_jobs pes)"
  using assms(2)
proof (induction pes arbitrary: w)
  case (Cons pe pes)
  show ?case
  proof (cases "is_write pe")
    case True
    then have "job_live live step (own_job pe)" and rest: "list_all (job_live live step) (own_jobs pes)"
      using Cons.prems by (simp_all add: own_jobs_def)
    then have live: "step_path step (the (pe_path pe)) \<in> live" by (simp add: own_job_def job_live_def)
    obtain w1 where "write_replica env w step (the (pe_path pe)) (pe_type_id pe) (pe_space_id pe) (pe_payload pe) = (w1, Inr ())"
        "hist w1 = record_job step (hist w) (own_job pe)"
      using write_replica_ok [OF assms(1) live, of w "pe_type_id pe" "pe_space_id pe" "pe_payload pe"]
      unfolding own_job_def by blast
    then show ?thesis using Cons.IH [OF rest, of w1] True by (simp add: own_jobs_def is_write_def)
  next
    case False
    then show ?thesis using Cons.IH [of w] Cons.prems by (simp add: own_jobs_def is_write_def)
  qed
qed (simp add: own_jobs_def)

subsection \<open>The grouped writes\<close>

definition undone :: "job list \<Rightarrow> bool list \<Rightarrow> nat list \<Rightarrow> job list" where
  "undone jobs done_flag js = map (nth jobs) (filter (\<lambda>k. \<not> done_flag ! k) js)"

lemma write_same_ok:
  assumes "vol_laws env live hist name" "name real = step_path step p" "step_path step p \<in> live"
    and "distinct js" "\<forall>j \<in> set js. j < length jobs" "length done_flag = length jobs"
  shows "\<exists>w' d'. write_same env real jobs p w done_flag js = (w', d', True) \<and> length d' = length jobs \<and>
    (\<forall>k < length jobs. d' ! k \<longleftrightarrow> done_flag ! k \<or> k \<in> set js \<and> jb_path (jobs ! k) = p) \<and>
    hist w' = foldl (record_job step) (hist w) (filter (\<lambda>j. jb_path j = p) (undone jobs done_flag js))"
  using assms(4-6)
proof (induction js arbitrary: w done_flag)
  case (Cons j js)
  show ?case
  proof (cases "done_flag ! j \<or> jb_path (jobs ! j) \<noteq> p")
    case True
    have "\<exists>w' d'. write_same env real jobs p w done_flag js = (w', d', True) \<and> length d' = length jobs \<and>
      (\<forall>k < length jobs. d' ! k \<longleftrightarrow> done_flag ! k \<or> k \<in> set js \<and> jb_path (jobs ! k) = p) \<and>
      hist w' = foldl (record_job step) (hist w) (filter (\<lambda>j. jb_path j = p) (undone jobs done_flag js))"
      using Cons by simp
    then show ?thesis using True by (auto simp: undone_def)
  next
    case False
    let ?j = "jobs ! j"
    obtain w1 where w1: "write_real env w real (jb_type ?j) (jb_space ?j) (jb_payload ?j) = (w1, True)"
        "hist w1 = (hist w)(name real := hist w (name real) @ [(jb_type ?j, jb_space ?j, jb_payload ?j)])"
      using write_real_ok [OF assms(1)] assms(2,3) by metis
    have rec: "hist w1 = record_job step (hist w) ?j" using w1(2) False assms(2) by (simp add: record_job_def Let_def)
    have "\<forall>x \<in> set js. done_flag[j := True] ! x = done_flag ! x"
      using Cons.prems(1) by (metis distinct.simps(2) nth_list_update_neq)
    then have und: "undone jobs (done_flag[j := True]) js = undone jobs done_flag js"
      unfolding undone_def by (intro arg_cong [of _ _ "map (nth jobs)"] filter_cong) auto
    obtain w' d' where IH: "write_same env real jobs p w1 (done_flag[j := True]) js = (w', d', True)" "length d' = length jobs"
        "\<forall>k < length jobs. d' ! k \<longleftrightarrow> done_flag[j := True] ! k \<or> k \<in> set js \<and> jb_path (jobs ! k) = p"
        "hist w' = foldl (record_job step) (hist w1) (filter (\<lambda>j. jb_path j = p) (undone jobs (done_flag[j := True]) js))"
      using Cons.IH [of "done_flag[j := True]" w1] Cons.prems by auto
    have "\<forall>k < length jobs. d' ! k \<longleftrightarrow> done_flag ! k \<or> k \<in> set (j # js) \<and> jb_path (jobs ! k) = p"
      using IH(3) False Cons.prems(2,3) by (auto simp: nth_list_update)
    moreover have "filter (\<lambda>j. jb_path j = p) (undone jobs done_flag (j # js)) =
        ?j # filter (\<lambda>j. jb_path j = p) (undone jobs done_flag js)"
      using False by (simp add: undone_def)
    ultimately show ?thesis using IH(1,2,4) und rec False w1(1) by simp
  qed
qed (simp add: undone_def)

text \<open>A path's writes are taken out of the undone jobs, the others keep their order.\<close>

lemma writes_split:
  assumes "\<forall>k < length jobs. d' ! k \<longleftrightarrow> d ! k \<or> k \<in> set js \<and> jb_path (jobs ! k) = p" "\<forall>j \<in> set js. j < length jobs"
  shows "writes_to step (filter (\<lambda>j. jb_path j = p) (undone jobs d js)) P @ writes_to step (undone jobs d' js) P =
    writes_to step (undone jobs d js) P"
proof -
  have inj: "step_path step q = step_path step p \<longleftrightarrow> q = p" for q by (simp add: step_path_def)
  have "undone jobs d' js = filter (\<lambda>j. jb_path j \<noteq> p) (undone jobs d js)"
    using assms by (auto simp: undone_def filter_map comp_def intro!: arg_cong [of _ _ "map (nth jobs)"] filter_cong)
  then show ?thesis
    using inj by (cases "P = step_path step p")
      (auto simp: writes_to_def conj_commute intro!: arg_cong [of _ _ "map _"] filter_cong)
qed

lemma write_groups_ok:
  assumes "vol_laws env live hist name" "list_all (job_live live step) jobs"
    and "length done_flag = length jobs" "i \<le> length jobs"
  shows "\<exists>w'. write_groups env step jobs w done_flag [i..<length jobs] = (w', Inr ()) \<and>
    hist w' = foldl (record_job step) (hist w) (undone jobs done_flag [i..<length jobs])"
  using assms(3,4)
proof (induction "length jobs - i" arbitrary: i w done_flag)
  case 0
  then show ?case by (simp add: undone_def)
next
  case (Suc k)
  then have i: "i < length jobs" and upt: "[i..<length jobs] = i # [Suc i..<length jobs]" by (simp_all add: upt_rec)
  have IH: "\<exists>w'. write_groups env step jobs w d [Suc i..<length jobs] = (w', Inr ()) \<and>
      hist w' = foldl (record_job step) (hist w) (undone jobs d [Suc i..<length jobs])" if "length d = length jobs" for w d
    using Suc.hyps(1) [of "Suc i" d w] Suc.hyps(2) that i by simp
  show ?case
  proof (cases "done_flag ! i")
    case True
    then show ?thesis using IH [OF Suc.prems(1), of w] by (simp add: upt undone_def)
  next
    case False
    let ?p = "jb_path (jobs ! i)" and ?js = "[i..<length jobs]"
    have live: "step_path step ?p \<in> live" using assms(2) i by (simp add: list_all_length job_live_def)
    obtain w1 real where o: "pv_dataset_open env w (step_path step ?p) = (w1, Some real)" "name real = step_path step ?p" "hist w1 = hist w"
      using dataset_open_ok [OF assms(1) live] .
    obtain w2 d2 where s: "write_same env real jobs ?p w1 done_flag ?js = (w2, d2, True)" "length d2 = length jobs"
        "\<forall>k < length jobs. d2 ! k \<longleftrightarrow> done_flag ! k \<or> k \<in> set ?js \<and> jb_path (jobs ! k) = ?p"
        "hist w2 = foldl (record_job step) (hist w1) (filter (\<lambda>j. jb_path j = ?p) (undone jobs done_flag ?js))"
      using write_same_ok [OF assms(1) o(2) live, of ?js jobs done_flag w1] Suc.prems(1) by auto
    obtain w' where w': "write_groups env step jobs (pv_dataset_close env w2 real) d2 [Suc i..<length jobs] = (w', Inr ())"
        "hist w' = foldl (record_job step) (hist w2) (undone jobs d2 [Suc i..<length jobs])"
      using IH [OF s(2), of "pv_dataset_close env w2 real"] dataset_close_hist [OF assms(1)] by auto
    have "d2 ! i" using s(3) i by simp
    then have "undone jobs d2 [Suc i..<length jobs] = undone jobs d2 ?js" by (simp add: upt undone_def)
    then have "hist w' = foldl (record_job step) (hist w) (undone jobs done_flag ?js)"
      using w'(2) s(4) o(3) writes_split [OF s(3), of step] by (simp add: foldl_record)
    moreover have "write_groups env step jobs w done_flag ?js = (w', Inr ())"
      unfolding upt using False o(1) s(1) w'(1) by simp
    ultimately show ?thesis by blast
  qed
qed

subsection \<open>Receiving the members' entries\<close>

definition recv_laws ::
  "('w, 'o) penv \<Rightarrow> ('w \<Rightarrow> int \<Rightarrow> int list) \<Rightarrow> ('w \<Rightarrow> int \<Rightarrow> byte list list) \<Rightarrow> ('w \<Rightarrow> history) \<Rightarrow> bool" where
  "recv_laws env counts inbox hist \<longleftrightarrow>
     (\<forall>w m n ns. counts w m = n # ns \<longrightarrow>
        (\<exists>w'. pv_recv_count env w m = (w', Some n) \<and> counts w' = (counts w)(m := ns) \<and> inbox w' = inbox w \<and> hist w' = hist w)) \<and>
     (\<forall>w m b bs. inbox w m = b # bs \<longrightarrow>
        (\<exists>w'. pv_recv env w m = (w', Some b) \<and> inbox w' = (inbox w)(m := bs) \<and> counts w' = counts w \<and> hist w' = hist w))"

lemma recv_jobs_ok:
  assumes "recv_laws env counts inbox hist" "inbox w m = map (sent_msg (pv_little_endian env) hm) ps"
    and "list_all (\<lambda>pe. is_write pe \<and> sendable (pv_little_endian env) h hm pe) ps"
  shows "\<exists>w'. recv_jobs env h w m (length ps) js = (w', Inr (js @ map (sent_job h hm) ps)) \<and>
    inbox w' = (inbox w)(m := []) \<and> counts w' = counts w \<and> hist w' = hist w"
  using assms(2,3)
proof (induction ps arbitrary: w js)
  case Nil
  then show ?case by (simp add: fun_upd_idem)
next
  case (Cons pe ps)
  obtain w1 where w1: "pv_recv env w m = (w1, Some (sent_msg (pv_little_endian env) hm pe))"
      "inbox w1 = (inbox w)(m := map (sent_msg (pv_little_endian env) hm) ps)" "counts w1 = counts w" "hist w1 = hist w"
    using assms(1) Cons.prems(1) unfolding recv_laws_def by (metis list.simps(9))
  have "recv_entry env h w m = (w1, Inr (sent_job h hm pe))"
    using w1(1) decode_sent [of "pv_little_endian env" h hm pe] Cons.prems(2) by (simp add: recv_entry_def)
  moreover have "(inbox w1)(m := []) = (inbox w)(m := [])" using w1(2) by (simp only: fun_upd_upd)
  moreover have "inbox w1 m = map (sent_msg (pv_little_endian env) hm) ps" using w1(2) by simp
  ultimately show ?case using Cons.IH [of w1 "js @ [sent_job h hm pe]"] w1(3,4) Cons.prems(2) by (simp del: fun_upd_apply)
qed

lemma gather_jobs_ok:
  assumes "recv_laws env counts inbox hist" "distinct ms"
    and "\<And>m. m \<in> set ms \<Longrightarrow> counts w m = [int (length (filter is_write (pend m)))] \<and>
           inbox w m = map (sent_msg (pv_little_endian env) (hm m)) (filter is_write (pend m))"
    and "\<And>m. m \<in> set ms \<Longrightarrow> list_all (sendable (pv_little_endian env) h (hm m)) (pend m)"
  shows "\<exists>w'. gather_jobs env h w ms js =
      (w', Inr (js @ concat (map (\<lambda>m. map (sent_job h (hm m)) (filter is_write (pend m))) ms))) \<and> hist w' = hist w"
  using assms(2-4)
proof (induction ms arbitrary: w js)
  case (Cons m ms)
  let ?ps = "filter is_write (pend m)"
  have cm: "counts w m = int (length ?ps) # []" "inbox w m = map (sent_msg (pv_little_endian env) (hm m)) ?ps"
    using Cons.prems(2) by simp_all
  obtain w1 where w1: "pv_recv_count env w m = (w1, Some (int (length ?ps)))" "counts w1 = (counts w)(m := [])"
      "inbox w1 = inbox w" "hist w1 = hist w"
    using assms(1) cm(1) unfolding recv_laws_def by blast
  have "list_all (\<lambda>pe. is_write pe \<and> sendable (pv_little_endian env) h (hm m) pe) ?ps"
    using Cons.prems(3) [of m] by (auto simp: list_all_iff)
  then obtain w2 where w2: "recv_jobs env h w1 m (length ?ps) js = (w2, Inr (js @ map (sent_job h (hm m)) ?ps))"
      "inbox w2 = (inbox w1)(m := [])" "counts w2 = counts w1" "hist w2 = hist w1"
    using recv_jobs_ok [OF assms(1), of w1 m "hm m" ?ps h js] cm(2) w1(3) by auto
  have ne: "n \<noteq> m" if "n \<in> set ms" for n using Cons.prems(1) that by auto
  have "\<exists>w'. gather_jobs env h w2 ms (js @ map (sent_job h (hm m)) ?ps) =
      (w', Inr ((js @ map (sent_job h (hm m)) ?ps) @ concat (map (\<lambda>m. map (sent_job h (hm m)) (filter is_write (pend m))) ms))) \<and> hist w' = hist w2"
  proof (rule Cons.IH)
    show "distinct ms" using Cons.prems(1) by simp
    show "counts w2 n = [int (length (filter is_write (pend n)))] \<and>
        inbox w2 n = map (sent_msg (pv_little_endian env) (hm n)) (filter is_write (pend n))" if "n \<in> set ms" for n
      using Cons.prems(2) [of n] that ne [OF that] w1(2,3) w2(2,3) by simp
    show "list_all (sendable (pv_little_endian env) h (hm n)) (pend n)" if "n \<in> set ms" for n
      using Cons.prems(3) [of n] that by simp
  qed
  then show ?case using w1(1,4) w2(1,4) by simp
qed simp

lemma group_members:
  assumes "0 < g" "c = concentrator_of g c" "0 \<le> c"
  shows "[c + 1..min (c + g) n - 1] = filter (\<lambda>m. concentrator_of g m = c \<and> m \<noteq> c) [0..n - 1]"
proof (rule sorted_distinct_set_unique)
  obtain k where k: "c = k * g" using assms(2) by (metis concentrator_of_def)
  have eq: "concentrator_of g m = c \<longleftrightarrow> c \<le> m \<and> m < c + g" for m
  proof -
    have "concentrator_of g m = c \<longleftrightarrow> m div g = k" using assms(1) k by (simp add: concentrator_of_def)
    also have "\<dots> \<longleftrightarrow> c \<le> m \<and> m < c + g"
    proof
      assume "m div g = k"
      then have "m = c + m mod g" using k by (metis div_mult_mod_eq)
      moreover have "0 \<le> m mod g" "m mod g < g" using assms(1) by simp_all
      ultimately show "c \<le> m \<and> m < c + g" by linarith
    next
      assume "c \<le> m \<and> m < c + g"
      then have "(m - c) div g = 0" by simp
      moreover have "m div g = ((m - c) + k * g) div g" using k by simp
      ultimately show "m div g = k" using assms(1) by simp
    qed
    finally show ?thesis .
  qed
  show "set [c + 1..min (c + g) n - 1] = set (filter (\<lambda>m. concentrator_of g m = c \<and> m \<noteq> c) [0..n - 1])"
    using assms(3) by (auto simp: eq)
qed (auto simp: sorted_wrt_filter)

text \<open>
  (C15) Routing writes through a concentrator changes nothing in the file. When the ranks of its
  group have sent it their dataset writes, the concentrator finishes without error and every
  dataset has received exactly the writes that the ranks of the group captured for it, the
  concentrator's own first and then those of the other ranks in rank order, each rank's in
  capture order, with the datatype, selection and bytes they were captured with; no write is
  lost, repeated or made to another dataset, although writes to one dataset are brought together.
\<close>

theorem concentrated_writes_exact:
  fixes env :: "('w, 'o) penv" and g :: int and fs :: file_state and h :: h5api
    and hm :: "int \<Rightarrow> h5api" and pend :: "int \<Rightarrow> pending_entry list"
  defines "c \<equiv> pv_rank env" and "le \<equiv> pv_little_endian env"
  defines "ms \<equiv> filter (\<lambda>m. concentrator_of g m = c \<and> m \<noteq> c) [0..pv_size env - 1]"
  defines "jobs \<equiv> own_jobs (fs_pending fs) @ concat (map (\<lambda>m. map (sent_job h (hm m)) (filter is_write (pend m))) ms)"
  assumes "1 < g" and "concentrator_of g c = c" and "0 \<le> c" and "c + g < 2 ^ 31"
    and "vol_laws env live hist name" and "recv_laws env counts inbox hist"
    and "\<And>m. m \<in> set ms \<Longrightarrow> counts w m = [int (length (filter is_write (pend m)))] \<and>
           inbox w m = map (sent_msg le (hm m)) (filter is_write (pend m))"
    and "\<And>m. m \<in> set ms \<Longrightarrow> list_all (sendable le h (hm m)) (pend m)"
    and "list_all (job_live live step) jobs"
  shows "\<exists>w'. replay_concentrated_writes env h fs w step g = (w', Inr ()) \<and>
    (\<forall>p. hist w' p = hist w p @ writes_to step jobs p)"
proof -
  have ci: "c_int (c + g) = c + g" using assms(5,7,8) by (intro c_int_id) auto
  have ms: "[c + 1..min (c + g) (pv_size env) - 1] = ms"
    using group_members [of g c "pv_size env"] assms(5-7) by (simp add: ms_def)
  have "distinct ms" by (simp add: ms_def)
  then obtain w1 where w1: "gather_jobs env h w ms (own_jobs (fs_pending fs)) = (w1, Inr jobs)" "hist w1 = hist w"
    using gather_jobs_ok [OF assms(10), of ms w pend hm h "own_jobs (fs_pending fs)"] assms(11,12)
    by (auto simp: jobs_def le_def)
  obtain w2 where w2: "write_groups env step jobs w1 (replicate (length jobs) False) [0..<length jobs] = (w2, Inr ())"
      "hist w2 = foldl (record_job step) (hist w1) (undone jobs (replicate (length jobs) False) [0..<length jobs])"
    using write_groups_ok [OF assms(9,13), of "replicate (length jobs) False" 0 w1] by auto
  have "undone jobs (replicate (length jobs) False) [0..<length jobs] = map (nth jobs) [0..<length jobs]"
    unfolding undone_def by (intro arg_cong [of _ _ "map (nth jobs)"] filter_True) simp
  then have "undone jobs (replicate (length jobs) False) [0..<length jobs] = jobs" by (simp add: map_nth)
  then have "\<forall>p. hist w2 p = hist w p @ writes_to step jobs p" using w2(2) w1(2) by (simp add: foldl_record)
  moreover have "replay_concentrated_writes env h fs w step g = (w2, Inr ())"
    using assms(6) ci ms w1(1) w2(1) by (simp add: replay_concentrated_writes_def Let_def c_def)
  ultimately show ?thesis by blast
qed

lemma example_laws:
  "vol_laws (penv_example rank) UNIV pw_hist id"
  "recv_laws (penv_example rank) pw_counts pw_inbox pw_hist"
  "send_laws (penv_example rank) pw_sent pw_sent_counts"
  by (simp_all add: vol_laws_def recv_laws_def send_laws_def penv_example_def)

abbreviation write_example :: "byte \<Rightarrow> pending_entry" where
  "write_example b \<equiv>
     \<lparr>pe_kind = DsetWrite, pe_path = Some ''/d'', pe_type_id = 3, pe_space_id = 4, pe_dcpl_id = -1, pe_payload = [b]\<rparr>"

lemma sendable_example: "sendable True h5_example h5_example (write_example b)"
proof -
  have "length (sent_msg True h5_example (write_example b)) < 2 ^ 31"
    by (simp add: sent_msg_def entry_msg_def h5_example_def encode_type_def encode_space_def)
  then show ?thesis unfolding sendable_def by (simp add: h5_example_def encode_type_def encode_space_def)
qed

theorem concentrated_writes_exact_witness:
  "\<exists>w'. replay_concentrated_writes (penv_example 0) h5_example ((file_state_init False)\<lparr>fs_pending := [write_example 1]\<rparr>)
      (pworld_init\<lparr>pw_counts := (\<lambda>_. [1]), pw_inbox := (\<lambda>_. [sent_msg True h5_example (write_example 2)])\<rparr>) 5 2 = (w', Inr ()) \<and>
    pw_hist w' (step_path 5 ''/d'') = [(3, 4, [1]), (3, 4, [2])]"
proof -
  let ?w = "pworld_init\<lparr>pw_counts := (\<lambda>_. [1]), pw_inbox := (\<lambda>_. [sent_msg True h5_example (write_example 2)])\<rparr>"
  let ?fs = "(file_state_init False)\<lparr>fs_pending := [write_example 1]\<rparr>"
  have pe: "pv_rank (penv_example 0) = 0" "pv_little_endian (penv_example 0) = True" "pv_size (penv_example 0) = 2"
    by (simp_all add: penv_example_def)
  have "[0..1] = [0, 1 :: int]" by (simp add: upto_rec1)
  then have ms: "filter (\<lambda>m. concentrator_of 2 m = 0 \<and> m \<noteq> 0) [0..pv_size (penv_example 0) - 1] = [1]"
    by (simp add: pe concentrator_of_def)
  have jobs: "own_jobs (fs_pending ?fs) @ concat (map (\<lambda>m. map (sent_job h5_example h5_example) (filter is_write [write_example 2])) [1 :: int]) =
      [\<lparr>jb_path = ''/d'', jb_type = 3, jb_space = 4, jb_payload = [1]\<rparr>, \<lparr>jb_path = ''/d'', jb_type = 3, jb_space = 4, jb_payload = [2]\<rparr>]"
    by (simp add: own_jobs_def own_job_def is_write_def sent_job_def h5_example_def encode_type_def encode_space_def)
  have "\<exists>w'. replay_concentrated_writes (penv_example 0) h5_example ?fs ?w 5 2 = (w', Inr ()) \<and>
    (\<forall>p. pw_hist w' p = pw_hist ?w p @ writes_to 5 (own_jobs (fs_pending ?fs) @
        concat (map (\<lambda>m. map (sent_job h5_example h5_example) (filter is_write [write_example 2]))
          (filter (\<lambda>m. concentrator_of 2 m = pv_rank (penv_example 0) \<and> m \<noteq> pv_rank (penv_example 0)) [0..pv_size (penv_example 0) - 1]))) p)"
    by (rule concentrated_writes_exact [where pend = "\<lambda>_. [write_example 2]" and hm = "\<lambda>_. h5_example" and live = UNIV and name = id
          and counts = pw_counts and inbox = pw_inbox])
       (simp_all add: pe example_laws sendable_example is_write_def list_all_iff job_live_def concentrator_of_def)
  then show ?thesis unfolding pe(1) ms jobs by (auto simp: writes_to_def pworld_init_def)
qed

text \<open>
  (C39) A rank that is not its group's concentrator sends it the number of its dataset writes and
  then one message for each of them, in capture order, and writes nothing itself; each message
  decodes at the concentrator to the path, datatype, selection and bytes it was made from.
\<close>

theorem member_sends_its_writes:
  fixes env :: "('w, 'o) penv" and g :: int
  defines "c \<equiv> concentrator_of g (pv_rank env)" and "le \<equiv> pv_little_endian env"
  assumes "pv_rank env \<noteq> c" and "send_laws env outbox counts" and "list_all (sendable le h hm) (fs_pending fs)"
    and "length (fs_pending fs) < 2 ^ 31"
  shows "\<exists>w'. replay_concentrated_writes env hm fs w step g = (w', Inr ()) \<and>
    counts w' = counts w @ [(c, int (length (filter is_write (fs_pending fs))))] \<and>
    outbox w' = outbox w @ map (\<lambda>pe. (c, sent_msg le hm pe)) (filter is_write (fs_pending fs)) \<and>
    map (decode_entry le h \<circ> sent_msg le hm) (filter is_write (fs_pending fs)) =
      map (Inr \<circ> sent_job h hm) (filter is_write (fs_pending fs))"
proof -
  let ?n = "length (filter is_write (fs_pending fs))"
  have "?n < 2 ^ 31" using length_filter_le [of is_write "fs_pending fs"] assms(6) by (rule le_less_trans)
  then have ci: "c_int (int ?n) = int ?n" by (intro c_int_id) simp_all
  obtain w1 where w1: "pv_send_count env w c (int ?n) = (w1, True)" "counts w1 = counts w @ [(c, int ?n)]" "outbox w1 = outbox w"
    using assms(4) unfolding send_laws_def by metis
  obtain w2 where w2: "send_entries env hm w1 c (fs_pending fs) = (w2, Inr ())" "counts w2 = counts w1"
      "outbox w2 = outbox w1 @ map (\<lambda>pe. (c, sent_msg le hm pe)) (filter is_write (fs_pending fs))"
    using send_entries_ok [OF assms(4), of h hm "fs_pending fs" w1 c] assms(5) by (auto simp: le_def)
  have dec: "map (decode_entry le h \<circ> sent_msg le hm) (filter is_write (fs_pending fs)) =
      map (Inr \<circ> sent_job h hm) (filter is_write (fs_pending fs))"
    using assms(5) by (auto simp: list_all_iff intro!: decode_sent)
  have "replay_concentrated_writes env hm fs w step g = (w2, Inr ())"
    using assms(3) ci w1(1) w2(1) by (simp add: replay_concentrated_writes_def Let_def c_def)
  then show ?thesis using w1(2,3) w2(2,3) dec by (intro exI [of _ w2]) simp
qed

theorem member_sends_its_writes_witness:
  "\<exists>w'. replay_concentrated_writes (penv_example 1) h5_example ((file_state_init False)\<lparr>fs_pending := [write_example 2]\<rparr>)
      pworld_init 5 2 = (w', Inr ()) \<and>
    pw_sent_counts w' = [(0, 1)] \<and> pw_sent w' = [(0, sent_msg True h5_example (write_example 2))]"
proof -
  have pe: "concentrator_of 2 1 = 0" "pv_little_endian (penv_example 1) = True" "pv_rank (penv_example 1) = 1"
    by (simp_all add: penv_example_def concentrator_of_def)
  have len: "length (fs_pending ((file_state_init False)\<lparr>fs_pending := [write_example 2]\<rparr>)) < 2 ^ 31" by simp
  show ?thesis
    using member_sends_its_writes [of "penv_example 1" 2, OF _ example_laws(3) _ len, of h5_example h5_example pworld_init 5]
    by (simp add: pe sendable_example is_write_def pworld_init_def) blast
qed

end
