(* ===== verification/VS_Parallel.thy ===== *)
theory VS_Parallel
  imports VS_Concentrator
begin

text \<open>
  The end of a step of a parallel writer: \<open>H5VL__stream_replay_step_parallel\<close> and the exchange of
  metadata it makes. Every rank encodes its dataset creations and attributes, the ranks exchange
  these manifests, every rank merges them and replays the merged manifest; the dataset writes
  are not exchanged and are made as in \<open>VS_Concentrator\<close>.
\<close>

section \<open>Aggregated metadata\<close>

definition is_agg :: "vs_kind \<Rightarrow> bool" where
  "is_agg k \<longleftrightarrow> k = DsetCreate \<or> k = Attr"

text \<open>A payload buffer, NULL until the first bytes are appended to it.\<close>

definition buf_len :: "byte list option \<Rightarrow> nat" where
  "buf_len b = (case b of None \<Rightarrow> 0 | Some b \<Rightarrow> length b)"

definition add_bytes :: "byte list option \<Rightarrow> byte list \<Rightarrow> byte list option" where
  "add_bytes b bs = (if bs = [] then b else Some ((case b of None \<Rightarrow> [] | Some b \<Rightarrow> b) @ bs))"

fun agg_entries ::
  "h5api \<Rightarrow> byte list option \<Rightarrow> pending_entry list \<Rightarrow> (vs_entry list \<times> byte list option) cres" where
  "agg_entries h buf [] = Inr ([], buf)"
| "agg_entries h buf (pe # pes) =
     (if \<not> is_agg (pe_kind pe) then agg_entries h buf pes
      else
        case (encode_type h (pe_type_id pe), encode_space h (pe_space_id pe),
              (if pe_dcpl_id pe \<ge> 0 then map_option Some (encode_dcpl h (pe_dcpl_id pe)) else Some None)) of
          (Some type_enc, Some space_enc, Some dcpl_enc) \<Rightarrow>
            (let this_off = buf_len buf;
                 carried = (if pe_kind pe = Attr then pe_payload pe else []);
                 this_len = length carried;
                 buf = add_bytes buf carried
             in cbind (agg_entries h buf pes) (\<lambda>(es, b).
                  Inr (\<lparr>en_kind = pe_kind pe, en_path = pe_path pe, en_type_enc = type_enc, en_space_enc = space_enc,
                        en_dcpl_enc = dcpl_enc, en_payload_off = this_off, en_payload_len = this_len\<rparr> # es, b)))
        | _ \<Rightarrow> Inl EFail)"

text \<open>The root table both functions write: no logical identifiers are added to it.\<close>

definition agg_step :: "h5api \<Rightarrow> file_state \<Rightarrow> vs_entry list \<Rightarrow> nat \<Rightarrow> vs_step" where
  "agg_step h fs es plen =
     \<lparr>st_physical_step = fs_physical_step fs, st_logical_ids = [], st_wall_time_ns = fs_wall_time_ns fs,
      st_hdf5_version = hdf5_version h, st_entries = es, st_payload_bytes = plen\<rparr>"

definition build_agg_manifest ::
  "h5api \<Rightarrow> (vs_step \<Rightarrow> byte list option) \<Rightarrow> file_state \<Rightarrow> (byte list \<times> byte list option) cres" where
  "build_agg_manifest h finalize fs =
     cbind (agg_entries h None (fs_pending fs)) (\<lambda>(es, payload).
       case finalize (agg_step h fs es (buf_len payload)) of
         None \<Rightarrow> Inl EFail
       | Some m \<Rightarrow> Inr (m, payload))"

subsection \<open>The merge\<close>

text \<open>
  The wiring array is the list of the indices into this rank's pending entries whose
  \<open>owner_wrapper\<close> a slot gets, \<open>None\<close> for a slot that stays zeroed.
\<close>

record merge_state =
  mg_seen :: "(vs_kind \<times> path) list"
  mg_entries :: "vs_entry list"
  mg_payload :: "byte list option"
  mg_wiring :: "nat option list"

definition merge_init :: merge_state where
  "merge_init = \<lparr>mg_seen = [], mg_entries = [], mg_payload = None, mg_wiring = []\<rparr>"

fun find_pending :: "nat \<Rightarrow> pending_entry list \<Rightarrow> vs_kind \<Rightarrow> path \<Rightarrow> nat option" where
  "find_pending pj [] kind path = None"
| "find_pending pj (pe # pes) kind path =
     (if pe_kind pe = kind \<and> pe_path pe = Some path then Some pj else find_pending (Suc pj) pes kind path)"

text \<open>
  One entry of rank \<open>r\<close>. Its payload is read from the gathered buffer \<open>flat\<close> at the rank's
  displacement; an entry without a path would be dereferenced.
\<close>

definition merge_entry ::
  "pending_entry list \<Rightarrow> bool \<Rightarrow> byte list \<Rightarrow> nat \<Rightarrow> merge_state \<Rightarrow> vs_entry \<Rightarrow> merge_state cres" where
  "merge_entry pending mine flat pdispl s e =
     (case en_path e of
        None \<Rightarrow> Inl EOob
      | Some path \<Rightarrow>
          if (en_kind e, path) \<in> set (mg_seen s) then Inr s
          else
            let plen = en_payload_len e; new_off = buf_len (mg_payload s) in
            cbind (if plen > 0
                   then cbind (mem_read flat (pdispl + en_payload_off e) plen) (\<lambda>bs. Inr (add_bytes (mg_payload s) bs))
                   else Inr (mg_payload s)) (\<lambda>payload.
              Inr \<lparr>mg_seen = mg_seen s @ [(en_kind e, path)],
                   mg_entries = mg_entries s @
                     [\<lparr>en_kind = en_kind e, en_path = Some path, en_type_enc = en_type_enc e, en_space_enc = en_space_enc e,
                       en_dcpl_enc = (case en_dcpl_enc e of Some d \<Rightarrow> if d \<noteq> [] then Some d else None | None \<Rightarrow> None),
                       en_payload_off = new_off, en_payload_len = plen\<rparr>],
                   mg_payload = payload,
                   mg_wiring = mg_wiring s @ [if mine then find_pending 0 pending (en_kind e) path else None]\<rparr>))"

fun merge_entries ::
  "pending_entry list \<Rightarrow> bool \<Rightarrow> byte list \<Rightarrow> nat \<Rightarrow> merge_state \<Rightarrow> vs_entry list \<Rightarrow> merge_state cres" where
  "merge_entries pending mine flat pdispl s [] = Inr s"
| "merge_entries pending mine flat pdispl s (e # es) =
     cbind (merge_entry pending mine flat pdispl s e) (\<lambda>s. merge_entries pending mine flat pdispl s es)"

text \<open>The loop over the ranks; \<open>slots\<close> holds a rank's length and its two displacements.\<close>

fun merge_ranks ::
  "(byte list \<Rightarrow> vs_step option) \<Rightarrow> pending_entry list \<Rightarrow> int \<Rightarrow> byte list \<Rightarrow> byte list \<Rightarrow> merge_state
     \<Rightarrow> int \<Rightarrow> (int \<times> nat \<times> nat) list \<Rightarrow> merge_state cres" where
  "merge_ranks as_root pending my_rank bufs payloads s r [] = Inr s"
| "merge_ranks as_root pending my_rank bufs payloads s r ((len, displ, pdispl) # slots) =
     cbind (if len \<le> 0 then Inr s
            else merge_entries pending (r = my_rank) payloads pdispl s
                   (case as_root (drop displ bufs) of None \<Rightarrow> [] | Some step \<Rightarrow> st_entries step))
       (\<lambda>s. merge_ranks as_root pending my_rank bufs payloads s (r + 1) slots)"

definition merge_agg_manifests ::
  "h5api \<Rightarrow> (vs_step \<Rightarrow> byte list option) \<Rightarrow> (byte list \<Rightarrow> vs_step option) \<Rightarrow> file_state \<Rightarrow> int \<Rightarrow> byte list \<Rightarrow> byte list
     \<Rightarrow> (int \<times> nat \<times> nat) list \<Rightarrow> (byte list \<times> byte list option \<times> nat option list) cres" where
  "merge_agg_manifests h finalize as_root fs my_rank bufs payloads slots =
     cbind (merge_ranks as_root (fs_pending fs) my_rank bufs payloads merge_init 0 slots) (\<lambda>s.
       case finalize (agg_step h fs (mg_entries s) (buf_len (mg_payload s))) of
         None \<Rightarrow> Inl EFail
       | Some m \<Rightarrow> Inr (m, mg_payload s, mg_wiring s))"

section \<open>The step\<close>

fun displs :: "int \<Rightarrow> int list \<Rightarrow> int list" where
  "displs acc [] = []"
| "displs acc (l # ls) = acc # displs (c_int (acc + l)) ls"

definition replay_step_parallel ::
  "('w, 'o) penv \<Rightarrow> h5api \<Rightarrow> file_state \<Rightarrow> 'w \<Rightarrow> (file_state \<times> 'w \<times> unit cres) option" where
  "replay_step_parallel env h fs w =
     (case build_agg_manifest h (pv_finalize env) fs of
        Inl e \<Rightarrow> Some (fs, w, Inl e)
      | Inr (my_buf, payload) \<Rightarrow>
          (let my_len = c_int (int (length my_buf));
               my_payload_len = c_int (int (buf_len payload));
               my_payload = (case payload of None \<Rightarrow> [0] | Some b \<Rightarrow> b)
           in case pv_allgather env w my_len of
                (w, None) \<Rightarrow> Some (fs, w, Inl EFail)
              | (w, Some lens) \<Rightarrow>
           (case pv_allgather env w my_payload_len of
                (w, None) \<Rightarrow> Some (fs, w, Inl EFail)
              | (w, Some payload_lens) \<Rightarrow>
           (case pv_allgatherv env w my_buf my_len lens (displs 0 lens) of
                (w, None) \<Rightarrow> Some (fs, w, Inl EFail)
              | (w, Some bufs) \<Rightarrow>
           (case pv_allgatherv env w my_payload my_payload_len payload_lens (displs 0 payload_lens) of
                (w, None) \<Rightarrow> Some (fs, w, Inl EFail)
              | (w, Some payloads) \<Rightarrow>
           (case merge_agg_manifests h (pv_finalize env) (pv_as_root env) fs (pv_rank env) bufs payloads
                   (zip lens (zip (map nat (displs 0 lens)) (map nat (displs 0 payload_lens)))) of
                Inl e \<Rightarrow> Some (fs, w, Inl e)
              | Inr (merged, merged_payload, wiring) \<Rightarrow>
                  Option.bind
                    (replay_manifest h (pv_as_root env) (pv_apply_entry env wiring) merged merged_payload
                       (if wiring = [] then None
                        else Some (replicate (length wiring)
                          \<lparr>pe_kind = DsetCreate, pe_path = None, pe_type_id = 0, pe_space_id = 0, pe_dcpl_id = 0, pe_payload = []\<rparr>))
                       fs w)
                    (\<lambda>(fs, w, r).
                       case r of
                         Inl e \<Rightarrow> Some (fs, w, Inl e)
                       | Inr _ \<Rightarrow>
                           (let group_size = concentration_factor env in
                            case (if group_size > 1
                                  then replay_concentrated_writes env h fs w (fs_physical_step fs) group_size
                                  else replay_local_writes env w (fs_physical_step fs) (fs_pending fs)) of
                              (w, r) \<Rightarrow> Some (fs, w, r)))))))))"

section \<open>What the merge computes\<close>

text \<open>A creation or attribute as it is exchanged, and the entries a list of them is laid out as.\<close>

record agg_item =
  ag_kind :: vs_kind
  ag_path :: path
  ag_type :: "byte list"
  ag_space :: "byte list"
  ag_dcpl :: "byte list option"
  ag_payload :: "byte list"

definition agg_of :: "h5api \<Rightarrow> pending_entry \<Rightarrow> agg_item" where
  "agg_of h pe =
     \<lparr>ag_kind = pe_kind pe, ag_path = the (pe_path pe), ag_type = the (encode_type h (pe_type_id pe)),
      ag_space = the (encode_space h (pe_space_id pe)),
      ag_dcpl = (if pe_dcpl_id pe \<ge> 0 then encode_dcpl h (pe_dcpl_id pe) else None),
      ag_payload = (if pe_kind pe = Attr then pe_payload pe else [])\<rparr>"

definition aggs :: "h5api \<Rightarrow> pending_entry list \<Rightarrow> agg_item list" where
  "aggs h pes = map (agg_of h) (filter (\<lambda>pe. is_agg (pe_kind pe)) pes)"

definition agg_key :: "agg_item \<Rightarrow> vs_kind \<times> path" where
  "agg_key a = (ag_kind a, ag_path a)"

definition agg_bytes :: "agg_item list \<Rightarrow> byte list" where
  "agg_bytes as = concat (map ag_payload as)"

definition lay :: "nat \<Rightarrow> agg_item \<Rightarrow> vs_entry" where
  "lay off a = \<lparr>en_kind = ag_kind a, en_path = Some (ag_path a), en_type_enc = ag_type a, en_space_enc = ag_space a,
                en_dcpl_enc = ag_dcpl a, en_payload_off = off, en_payload_len = length (ag_payload a)\<rparr>"

fun agg_layout :: "nat \<Rightarrow> agg_item list \<Rightarrow> vs_entry list" where
  "agg_layout off [] = []"
| "agg_layout off (a # as) = lay off a # agg_layout (off + length (ag_payload a)) as"

text \<open>The first entry of each kind and path, each with the rank it came from.\<close>

fun first_seen :: "(vs_kind \<times> path) set \<Rightarrow> (int \<times> agg_item) list \<Rightarrow> (int \<times> agg_item) list" where
  "first_seen ks [] = []"
| "first_seen ks (qa # qas) =
     (if agg_key (snd qa) \<in> ks then first_seen ks qas
      else qa # first_seen (insert (agg_key (snd qa)) ks) qas)"

fun tagged :: "int \<Rightarrow> agg_item list list \<Rightarrow> (int \<times> agg_item) list" where
  "tagged q [] = []"
| "tagged q (as # ass) = map (Pair q) as @ tagged (q + 1) ass"

lemma add_bytes_simps [simp]:
  "add_bytes b [] = b"
  "add_bytes (add_bytes b xs) ys = add_bytes b (xs @ ys)"
  "buf_len (add_bytes b xs) = buf_len b + length xs"
  "buf_len None = 0"
  by (auto simp: add_bytes_def buf_len_def split: option.splits)

lemma agg_bytes_simps [simp]:
  "agg_bytes [] = []" "agg_bytes (a # as) = ag_payload a @ agg_bytes as" "agg_bytes (as @ bs) = agg_bytes as @ agg_bytes bs"
  by (simp_all add: agg_bytes_def)

lemma agg_layout_append: "agg_layout off (as @ bs) = agg_layout off as @ agg_layout (off + length (agg_bytes as)) bs"
  by (induction as arbitrary: off) (simp_all add: add.assoc)

lemma length_agg_layout [simp]: "length (agg_layout off as) = length as"
  by (induction as arbitrary: off) simp_all

lemma agg_layout_nth:
  "i < length as \<Longrightarrow> agg_layout off as ! i = lay (off + length (agg_bytes (take i as))) (as ! i)"
proof (induction as arbitrary: off i)
  case (Cons a as)
  then show ?case by (cases i) (simp_all add: add.assoc)
qed simp

text \<open>What a captured entry must satisfy beyond being encodable: a path, and no empty encoding of a property list.\<close>

definition agg_ok :: "h5api \<Rightarrow> pending_entry \<Rightarrow> bool" where
  "agg_ok h pe \<longleftrightarrow> (is_agg (pe_kind pe) \<longrightarrow>
     pe_path pe \<noteq> None \<and> (pe_dcpl_id pe \<ge> 0 \<longrightarrow> encode_dcpl h (pe_dcpl_id pe) \<noteq> Some []))"

lemma agg_entries_layout:
  "agg_entries h buf pes = Inr (es, b) \<Longrightarrow> list_all (agg_ok h) pes \<Longrightarrow>
     es = agg_layout (buf_len buf) (aggs h pes) \<and> b = add_bytes buf (agg_bytes (aggs h pes))"
proof (induction pes arbitrary: buf es b)
  case (Cons pe pes)
  show ?case
  proof (cases "is_agg (pe_kind pe)")
    case True
    then obtain te se de es1 where e: "encode_type h (pe_type_id pe) = Some te" "encode_space h (pe_space_id pe) = Some se"
        "(if pe_dcpl_id pe \<ge> 0 then map_option Some (encode_dcpl h (pe_dcpl_id pe)) else Some None) = Some de"
        "agg_entries h (add_bytes buf (if pe_kind pe = Attr then pe_payload pe else [])) pes = Inr (es1, b)"
        "es = \<lparr>en_kind = pe_kind pe, en_path = pe_path pe, en_type_enc = te, en_space_enc = se,
               en_dcpl_enc = de, en_payload_off = buf_len buf,
               en_payload_len = length (if pe_kind pe = Attr then pe_payload pe else [])\<rparr> # es1"
      using Cons.prems(1) by (auto simp: Let_def split: option.splits prod.splits)
    obtain p where p: "pe_path pe = Some p" using True Cons.prems(2) by (auto simp: agg_ok_def)
    have "de = ag_dcpl (agg_of h pe)" using e(3) by (auto simp: agg_of_def split: if_splits)
    then have "es = lay (buf_len buf) (agg_of h pe) # es1" using e p by (simp add: lay_def agg_of_def)
    moreover have "ag_payload (agg_of h pe) = (if pe_kind pe = Attr then pe_payload pe else [])" by (simp add: agg_of_def)
    ultimately show ?thesis using Cons.IH [OF e(4)] Cons.prems(2) True by (simp add: aggs_def)
  next
    case False
    then show ?thesis using Cons.IH [of buf es b] Cons.prems by (simp add: aggs_def)
  qed
qed (simp add: aggs_def)

definition own_slot :: "pending_entry list \<Rightarrow> int \<Rightarrow> int \<times> agg_item \<Rightarrow> nat option" where
  "own_slot pending my_rank qa =
     (if fst qa = my_rank then find_pending 0 pending (ag_kind (snd qa)) (ag_path (snd qa)) else None)"

text \<open>The state of the merge that holds the items \<open>qas\<close>.\<close>

definition merged_state :: "pending_entry list \<Rightarrow> int \<Rightarrow> (int \<times> agg_item) list \<Rightarrow> merge_state" where
  "merged_state pending my_rank qas =
     \<lparr>mg_seen = map (agg_key \<circ> snd) qas, mg_entries = agg_layout 0 (map snd qas),
      mg_payload = add_bytes None (agg_bytes (map snd qas)), mg_wiring = map (own_slot pending my_rank) qas\<rparr>"

lemma merge_entry_lay:
  assumes "pdispl + off + length (ag_payload a) \<le> length flat"
    and "take (length (ag_payload a)) (drop (pdispl + off) flat) = ag_payload a" and "ag_dcpl a \<noteq> Some []"
  shows "merge_entry pending (q = my_rank) flat pdispl (merged_state pending my_rank qas) (lay off a) =
    Inr (merged_state pending my_rank (if agg_key a \<in> agg_key ` snd ` set qas then qas else qas @ [(q, a)]))"
proof -
  have rd: "mem_read flat (pdispl + off) (length (ag_payload a)) = Inr (ag_payload a)"
    using assms(1,2) by (simp add: mem_read_ok)
  have dc: "(case ag_dcpl a of Some d \<Rightarrow> if d \<noteq> [] then Some d else None | None \<Rightarrow> None) = ag_dcpl a"
    using assms(3) by (auto split: option.splits)
  have sn: "(ag_kind a, ag_path a) \<in> set (map (agg_key \<circ> snd) qas) \<longleftrightarrow> agg_key a \<in> agg_key ` snd ` set qas"
    by (auto simp: agg_key_def)
  show ?thesis
    using rd dc sn
    by (auto simp: merge_entry_def merged_state_def lay_def Let_def agg_layout_append agg_key_def own_slot_def)
qed

lemma merge_entries_layout:
  assumes "pdispl + off + length (agg_bytes as) \<le> length flat"
    and "take (length (agg_bytes as)) (drop (pdispl + off) flat) = agg_bytes as"
    and "list_all (\<lambda>a. ag_dcpl a \<noteq> Some []) as"
  shows "merge_entries pending (q = my_rank) flat pdispl (merged_state pending my_rank qas) (agg_layout off as) =
    Inr (merged_state pending my_rank (qas @ first_seen (agg_key ` snd ` set qas) (map (Pair q) as)))"
  using assms
proof (induction as arbitrary: off qas)
  case (Cons a as)
  let ?n = "length (ag_payload a)"
  have eq: "take (?n + length (agg_bytes as)) (drop (pdispl + off) flat) = ag_payload a @ agg_bytes as"
    using Cons.prems(2) by simp
  have a: "take ?n (drop (pdispl + off) flat) = ag_payload a"
    using arg_cong [OF eq, of "take ?n"] by (simp add: min_def)
  have as: "take (length (agg_bytes as)) (drop (pdispl + (off + ?n)) flat) = agg_bytes as"
    using arg_cong [OF eq, of "drop ?n"] by (simp add: drop_take ac_simps)
  have one: "merge_entry pending (q = my_rank) flat pdispl (merged_state pending my_rank qas) (lay off a) =
      Inr (merged_state pending my_rank (if agg_key a \<in> agg_key ` snd ` set qas then qas else qas @ [(q, a)]))"
    using merge_entry_lay [of pdispl off a flat] a Cons.prems(1,3) by simp
  note IH = Cons.IH [of "off + ?n", OF _ as]
  show ?case
    using one IH [of qas] IH [of "qas @ [(q, a)]"] Cons.prems(1,3)
    by (cases "agg_key a \<in> agg_key ` snd ` set qas") (simp_all add: add.assoc)
qed simp

lemma first_seen_append:
  "first_seen ks (xs @ ys) = first_seen ks xs @ first_seen (ks \<union> agg_key ` snd ` set (first_seen ks xs)) ys"
  by (induction xs arbitrary: ks) auto

text \<open>Rank \<open>i\<close>'s share of the gathered buffers is what it contributed.\<close>

definition slot_ok ::
  "(byte list \<Rightarrow> vs_step option) \<Rightarrow> byte list \<Rightarrow> byte list \<Rightarrow> agg_item list \<Rightarrow> int \<times> nat \<times> nat \<Rightarrow> bool" where
  "slot_ok as_root bufs payloads as slot \<longleftrightarrow>
     (case slot of (len, displ, pdispl) \<Rightarrow>
        len > 0 \<and> (\<exists>st. as_root (drop displ bufs) = Some st \<and> st_entries st = agg_layout 0 as) \<and>
        pdispl + length (agg_bytes as) \<le> length payloads \<and>
        take (length (agg_bytes as)) (drop pdispl payloads) = agg_bytes as \<and>
        list_all (\<lambda>a. ag_dcpl a \<noteq> Some []) as)"

lemma merge_ranks_ok:
  assumes "list_all2 (slot_ok as_root bufs payloads) ass slots"
  shows "merge_ranks as_root pending my_rank bufs payloads (merged_state pending my_rank qas) q slots =
    Inr (merged_state pending my_rank (qas @ first_seen (agg_key ` snd ` set qas) (tagged q ass)))"
  using assms
proof (induction ass slots arbitrary: q qas rule: list_all2_induct)
  case (Cons as ass slot slots)
  obtain len displ pdispl where slot: "slot = (len, displ, pdispl)" by (cases slot)
  obtain st where st: "as_root (drop displ bufs) = Some st" "st_entries st = agg_layout 0 as"
    using Cons.hyps(1) by (auto simp: slot_ok_def slot)
  have len: "\<not> len \<le> 0" using Cons.hyps(1) by (simp add: slot_ok_def slot)
  have "merge_entries pending (q = my_rank) payloads pdispl (merged_state pending my_rank qas) (agg_layout 0 as) =
      Inr (merged_state pending my_rank (qas @ first_seen (agg_key ` snd ` set qas) (map (Pair q) as)))"
    using merge_entries_layout [of pdispl 0 as] Cons.hyps(1) by (simp add: slot_ok_def slot)
  then show ?case
    using Cons.IH st len by (simp add: slot first_seen_append image_Un)
qed simp

lemma merge_init_state: "merge_init = merged_state pending my_rank []"
  by (simp add: merge_init_def merged_state_def)

section \<open>Replaying the merged manifest\<close>

definition agg_item_of :: "h5api \<Rightarrow> agg_item list \<Rightarrow> nat \<Rightarrow> replay_item" where
  "agg_item_of h as i = (let a = as ! i in
     \<lparr>ri_index = i, ri_kind = ag_kind a, ri_path = Some (ag_path a), ri_type = the (H5Tdecode2 h (ag_type a)),
      ri_space = the (H5Sdecode h (ag_space a)), ri_dcpl = Option.bind (ag_dcpl a) (H5Pdecode h), ri_payload = ag_payload a\<rparr>)"

definition agg_decodes :: "h5api \<Rightarrow> agg_item \<Rightarrow> bool" where
  "agg_decodes h a \<longleftrightarrow> is_agg (ag_kind a) \<and> H5Tdecode2 h (ag_type a) \<noteq> None \<and> H5Sdecode h (ag_space a) \<noteq> None \<and>
     (case ag_dcpl a of None \<Rightarrow> True | Some d \<Rightarrow> d \<noteq> [] \<and> H5Pdecode h d \<noteq> None)"

text \<open>Datasets first, attributes after them.\<close>

definition agg_order :: "agg_item list \<Rightarrow> nat list" where
  "agg_order as = filter (\<lambda>i. ag_kind (as ! i) = DsetCreate) [0..<length as] @
                  filter (\<lambda>i. ag_kind (as ! i) = Attr) [0..<length as]"

lemma agg_bytes_slice:
  assumes "i < length as"
  shows "take (length (ag_payload (as ! i))) (drop (length (agg_bytes (take i as))) (agg_bytes as)) = ag_payload (as ! i)"
    and "length (agg_bytes (take i as)) + length (ag_payload (as ! i)) \<le> length (agg_bytes as)"
proof -
  have "agg_bytes as = agg_bytes (take i as) @ ag_payload (as ! i) @ agg_bytes (drop (Suc i) as)"
    using arg_cong [OF id_take_nth_drop [OF assms], of agg_bytes] by simp
  then show "take (length (ag_payload (as ! i))) (drop (length (agg_bytes (take i as))) (agg_bytes as)) = ag_payload (as ! i)"
    and "length (agg_bytes (take i as)) + length (ag_payload (as ! i)) \<le> length (agg_bytes as)"
    by simp_all
qed

lemma agg_payload_found:
  assumes "i < length as"
  defines "off \<equiv> length (agg_bytes (take i as))" and "len \<equiv> length (ag_payload (as ! i))"
    and "buf \<equiv> add_bytes None (agg_bytes as)"
  shows "\<not> (len > 0 \<and> buf \<noteq> None \<and> (off > length (agg_bytes as) \<or> len > length (agg_bytes as) - off))"
    and "\<not> (len > 0 \<and> entry_src buf wiring i off = None)"
    and "(if len = 0 then Inr [] else case entry_src buf wiring i off of None \<Rightarrow> Inr [] | Some (b, o') \<Rightarrow> mem_read b o' len) =
           Inr (ag_payload (as ! i))"
proof -
  note sl = agg_bytes_slice [OF assms(1), folded off_def len_def]
  have buf: "len > 0 \<Longrightarrow> buf = Some (agg_bytes as)" using sl(2) by (auto simp: buf_def add_bytes_def)
  show "\<not> (len > 0 \<and> buf \<noteq> None \<and> (off > length (agg_bytes as) \<or> len > length (agg_bytes as) - off))"
    using sl(2) by auto
  show "\<not> (len > 0 \<and> entry_src buf wiring i off = None)" using buf by (auto simp: entry_src_def)
  show "(if len = 0 then Inr [] else case entry_src buf wiring i off of None \<Rightarrow> Inr [] | Some (b, o') \<Rightarrow> mem_read b o' len) =
           Inr (ag_payload (as ! i))"
    using buf sl by (auto simp: entry_src_def mem_read_ok len_def)
qed

lemma replay_entry_agg:
  assumes "i < length as" "agg_decodes h (as ! i)" "pi_ok x"
  shows "\<exists>x'. replay_entry h (add_bytes None (agg_bytes as)) wiring (length (agg_bytes as)) n tc x i (agg_layout 0 as ! i) =
           Some ((tc, x'), Inr (agg_item_of h as i)) \<and> pi_ok x'"
proof -
  let ?a = "as ! i"
  obtain ty sp where d: "H5Tdecode2 h (ag_type ?a) = Some ty" "H5Sdecode h (ag_space ?a) = Some sp" and agg: "is_agg (ag_kind ?a)"
    using assms(2) by (auto simp: agg_decodes_def)
  have nw: "ag_kind ?a \<noteq> DsetWrite" using agg by (auto simp: is_agg_def)
  obtain x' where x': "(case Some (ag_path ?a) of
                 None \<Rightarrow> Some x
               | Some path \<Rightarrow>
                   if ag_kind ?a = DsetCreate \<or> ag_kind ?a = Attr \<or> ag_kind ?a = Link
                   then Option.bind (path_index_add x path n) (\<lambda>x. if ag_kind ?a = Link then path_index_mark_link x path else Some x)
                   else Some x) = Some x'" "pi_ok x'"
    using replay_paths_ok [OF assms(3)] by blast
  have dc: "(case ag_dcpl ?a of
       Some d \<Rightarrow> if (ag_kind ?a = DsetCreate \<or> ag_kind ?a = Attr) \<and> d \<noteq> [] then map_option Some (H5Pdecode h d) else Some None
     | None \<Rightarrow> Some None) = Some (Option.bind (ag_dcpl ?a) (H5Pdecode h))"
    using assms(2) by (auto simp: agg_decodes_def is_agg_def split: option.splits)
  have e: "agg_layout 0 as ! i = lay (length (agg_bytes (take i as))) ?a" by (simp add: agg_layout_nth [OF assms(1)])
  have f: "en_kind (lay off ?a) = ag_kind ?a" "en_path (lay off ?a) = Some (ag_path ?a)" "en_type_enc (lay off ?a) = ag_type ?a"
    "en_space_enc (lay off ?a) = ag_space ?a" "en_payload_off (lay off ?a) = off"
    "en_payload_len (lay off ?a) = length (ag_payload ?a)" "en_dcpl_enc (lay off ?a) = ag_dcpl ?a" for off
    by (simp_all add: lay_def)
  note pf = agg_payload_found [OF assms(1)]
  have "replay_entry h (add_bytes None (agg_bytes as)) wiring (length (agg_bytes as)) n tc x i (agg_layout 0 as ! i) =
      Some ((tc, x'), Inr (agg_item_of h as i))"
    unfolding replay_entry_def e Let_def f if_not_P [OF pf(1)] if_not_P [OF pf(2)] pf(3) dc x'(1)
    using nw d x'(1) by (simp add: agg_item_of_def Let_def)
  then show ?thesis using x'(2) by blast
qed

lemma replay_entries_agg:
  assumes "list_all (agg_decodes h) as" "\<And>w it. snd (app w it)" "\<forall>i \<in> set is. i < length as" "pi_ok x"
  shows "\<exists>x'. replay_entries h app (add_bytes None (agg_bytes as)) wiring (length (agg_bytes as)) n (agg_layout 0 as) (tc, x) w is =
           Some ((tc, x'), foldl (\<lambda>w it. fst (app w it)) w (map (agg_item_of h as) is), Inr ()) \<and> pi_ok x'"
  using assms(3,4)
proof (induction "is" arbitrary: x w)
  case (Cons i "is")
  have i: "i < length as" "agg_decodes h (as ! i)" using Cons.prems(1) assms(1) by (simp_all add: list_all_length)
  obtain x1 where one: "replay_entry h (add_bytes None (agg_bytes as)) wiring (length (agg_bytes as)) n tc x i (agg_layout 0 as ! i) =
           Some ((tc, x1), Inr (agg_item_of h as i))" "pi_ok x1"
    using replay_entry_agg [OF i Cons.prems(2)] by blast
  obtain w1 where app: "app w (agg_item_of h as i) = (w1, True)"
    using assms(2) [of w "agg_item_of h as i"] by (cases "app w (agg_item_of h as i)") simp
  have "\<forall>i \<in> set is. i < length as" using Cons.prems(1) by simp
  then show ?case using Cons.IH [OF _ one(2), of w1] one(1) app by simp
qed simp

lemma agg_layout_order:
  assumes "list_all (agg_decodes h) as"
  shows "replay_order (agg_layout 0 as) = agg_order as"
proof -
  have "is_late (agg_layout 0 as ! i) = (ag_kind (as ! i) = Attr)" "ag_kind (as ! i) = DsetCreate \<or> ag_kind (as ! i) = Attr"
    if "i < length as" for i
    using assms that by (auto simp: agg_layout_nth lay_def is_late_def list_all_length agg_decodes_def is_agg_def)
  then show ?thesis
    unfolding replay_order_split agg_order_def length_agg_layout
    by (intro arg_cong2 [where f = append] filter_cong) auto
qed

lemma replay_merged:
  assumes "as_root m = Some (agg_step h fs (agg_layout 0 as) (length (agg_bytes as)))"
    and "list_all (agg_decodes h) as" "\<And>w it. snd (app w it)" "pi_ok (rd_paths (fs_reader fs))"
    and "H5get_libversion h = (maj, minor, rel)" "rel < 1000" "maj * 1000000 + minor * 1000 + rel < 2 ^ 32"
    and "\<And>ps. wiring = Some ps \<Longrightarrow> length ps = length as"
  shows "\<exists>x. replay_manifest h as_root app m (add_bytes None (agg_bytes as)) wiring fs w =
      Some (fs\<lparr>fs_reader := (fs_reader fs)\<lparr>rd_paths := x\<rparr>\<rparr>,
        foldl (\<lambda>w it. fst (app w it)) w (map (agg_item_of h as) (agg_order as)), Inr ())"
proof -
  have "\<forall>i \<in> set (agg_order as). i < length as" by (auto simp: agg_order_def)
  then obtain x where x: "replay_entries h app (add_bytes None (agg_bytes as)) wiring (length (agg_bytes as)) (fs_physical_step fs)
        (agg_layout 0 as) (fs_replay_cache fs, rd_paths (fs_reader fs)) w (agg_order as) =
      Some ((fs_replay_cache fs, x), foldl (\<lambda>w it. fst (app w it)) w (map (agg_item_of h as) (agg_order as)), Inr ())"
    using replay_entries_agg [of h as app, OF assms(2,3) _ assms(4)] by blast
  have cmp: "\<not> (case wiring of None \<Rightarrow> False | Some ps \<Rightarrow> length (agg_layout 0 as) \<noteq> length ps)"
    using assms(8) by (cases wiring) simp_all
  have ver: "hdf5_version h div 1000 = (maj * 1000 + minor) mod 2 ^ 32" by (rule hdf5_version_minor [OF assms(5-7)])
  have st: "st_entries (agg_step h fs es k) = es" "st_hdf5_version (agg_step h fs es k) = hdf5_version h"
      "st_payload_bytes (agg_step h fs es k) = k" "st_physical_step (agg_step h fs es k) = fs_physical_step fs" for es k
    by (simp_all add: agg_step_def)
  have "replay_manifest h as_root app m (add_bytes None (agg_bytes as)) wiring fs w =
      Some (fs\<lparr>fs_replay_cache := fs_replay_cache fs, fs_reader := (fs_reader fs)\<lparr>rd_paths := x\<rparr>\<rparr>,
        foldl (\<lambda>w it. fst (app w it)) w (map (agg_item_of h as) (agg_order as)), Inr ())"
    unfolding replay_manifest_def assms(1) option.case st if_not_P [OF cmp] ver agg_layout_order [OF assms(2)] x
    using assms(5) by simp
  then show ?thesis by (intro exI [of _ x]) simp
qed

section \<open>The exchange\<close>

definition blocks_apart :: "int list \<Rightarrow> int list \<Rightarrow> bool" where
  "blocks_apart ds ls \<longleftrightarrow> length ds = length ls \<and> (\<forall>i < length ls. 0 \<le> ds ! i \<and> (\<forall>j < i. ds ! j + ls ! j \<le> ds ! i))"

definition gathered :: "byte list list \<Rightarrow> int list \<Rightarrow> byte list \<Rightarrow> bool" where
  "gathered blocks ds flat \<longleftrightarrow> (\<forall>i < length blocks.
     nat (ds ! i) + length (blocks ! i) \<le> length flat \<and>
     take (length (blocks ! i)) (drop (nat (ds ! i)) flat) = blocks ! i)"

lemma length_displs [simp]: "length (displs acc ls) = length ls"
  by (induction ls arbitrary: acc) simp_all

lemma displs_sum:
  assumes "0 \<le> acc" "list_all (\<lambda>l. 0 \<le> l) ls" "acc + sum_list ls < 2 ^ 31" "i < length ls"
  shows "displs acc ls ! i = acc + sum_list (take i ls)"
  using assms
proof (induction ls arbitrary: acc i)
  case (Cons l ls)
  have "0 \<le> sum_list ls" using Cons.prems(2) by (auto simp: list_all_iff intro: sum_list_nonneg)
  then have "c_int (acc + l) = acc + l" using Cons.prems by (intro c_int_id) auto
  then show ?case using Cons by (cases i) simp_all
qed simp

lemma displs_apart:
  assumes "list_all (\<lambda>l. 0 \<le> l) ls" "sum_list ls < 2 ^ 31"
  shows "blocks_apart (displs 0 ls) ls"
proof -
  have nn: "0 \<le> sum_list (take i ls)" for i
    using assms(1) by (auto simp: list_all_iff intro!: sum_list_nonneg dest: in_set_takeD)
  have "sum_list (take j ls) + ls ! j \<le> sum_list (take i ls)" if "j < i" "i < length ls" for i j
  proof -
    have "sum_list (take i ls) = sum_list (take j ls) + ls ! j + sum_list (drop (Suc j) (take i ls))"
      using arg_cong [OF id_take_nth_drop [of j "take i ls"], of sum_list] that by (simp add: min_def)
    moreover have "0 \<le> sum_list (drop (Suc j) (take i ls))"
      using assms(1) by (auto simp: list_all_iff intro!: sum_list_nonneg dest!: in_set_takeD in_set_dropD)
    ultimately show ?thesis by simp
  qed
  then show ?thesis using displs_sum [of 0 ls] assms nn by (auto simp: blocks_apart_def)
qed

text \<open>
  The four collective calls as rank \<open>r\<close> sees them, \<open>sends ! q\<close> being the manifest and the payload
  of rank \<open>q\<close>: an all-gather returns every rank's value in rank order, and a gather with displacements
  whose blocks do not overlap puts each rank's bytes at its displacement.
\<close>

definition exchanged ::
  "('w, 'o) penv \<Rightarrow> (byte list \<times> byte list option) list \<Rightarrow> nat \<Rightarrow> 'w \<Rightarrow> 'w \<Rightarrow> byte list \<Rightarrow> byte list \<Rightarrow> bool" where
  "exchanged env sends r w w' bufs payloads \<longleftrightarrow>
     (let lens = map (\<lambda>s. int (length (fst s))) sends; plens = map (\<lambda>s. int (buf_len (snd s))) sends in
      \<exists>u v x. pv_allgather env w (lens ! r) = (u, Some lens) \<and> pv_allgather env u (plens ! r) = (v, Some plens) \<and>
        pv_allgatherv env v (fst (sends ! r)) (lens ! r) lens (displs 0 lens) = (x, Some bufs) \<and>
        pv_allgatherv env x (case snd (sends ! r) of None \<Rightarrow> [0] | Some b \<Rightarrow> b) (plens ! r) plens (displs 0 plens) = (w', Some payloads) \<and>
        (blocks_apart (displs 0 lens) lens \<longrightarrow> gathered (map fst sends) (displs 0 lens) bufs) \<and>
        (blocks_apart (displs 0 plens) plens \<longrightarrow>
           gathered (map (\<lambda>s. case snd s of None \<Rightarrow> [] | Some b \<Rightarrow> b) sends) (displs 0 plens) payloads))"

lemma buf_len_default: "length (case b of None \<Rightarrow> [] | Some b \<Rightarrow> b) = buf_len b"
  by (simp add: buf_len_def split: option.split)

lemma build_agg_layout:
  assumes "build_agg_manifest h finalize fs = Inr (m, p)" "list_all (agg_ok h) (fs_pending fs)"
  shows "finalize (agg_step h fs (agg_layout 0 (aggs h (fs_pending fs))) (length (agg_bytes (aggs h (fs_pending fs))))) = Some m"
    and "p = add_bytes None (agg_bytes (aggs h (fs_pending fs)))"
proof -
  obtain es where es: "agg_entries h None (fs_pending fs) = Inr (es, p)" "finalize (agg_step h fs es (buf_len p)) = Some m"
    using assms(1) by (auto simp: build_agg_manifest_def split: option.splits)
  note l = agg_entries_layout [OF es(1) assms(2)]
  then show "p = add_bytes None (agg_bytes (aggs h (fs_pending fs)))" by simp
  then show "finalize (agg_step h fs (agg_layout 0 (aggs h (fs_pending fs))) (length (agg_bytes (aggs h (fs_pending fs))))) = Some m"
    using es(2) l by simp
qed

lemma aggs_dcpl: "list_all (agg_ok h) pes \<Longrightarrow> list_all (\<lambda>a. ag_dcpl a \<noteq> Some []) (aggs h pes)"
  by (auto simp: aggs_def list_all_iff agg_ok_def agg_of_def)

text \<open>Every rank's slot of the gathered buffers holds what that rank built.\<close>

lemma exchanged_slots:
  fixes sends :: "(byte list \<times> byte list option) list"
  defines "lens \<equiv> map (\<lambda>s. int (length (fst s))) sends" and "plens \<equiv> map (\<lambda>s. int (buf_len (snd s))) sends"
  assumes "length hs = n" "length fss = n" "length sends = n"
    and "\<And>q. q < n \<Longrightarrow> build_agg_manifest (hs ! q) finalize (fss ! q) = Inr (sends ! q)"
    and "\<And>q. q < n \<Longrightarrow> list_all (agg_ok (hs ! q)) (fs_pending (fss ! q))"
    and "\<And>st b rest. finalize st = Some b \<Longrightarrow> b \<noteq> [] \<and> as_root (b @ rest) = Some st"
    and "gathered (map fst sends) (displs 0 lens) bufs"
    and "gathered (map (\<lambda>s. case snd s of None \<Rightarrow> [] | Some b \<Rightarrow> b) sends) (displs 0 plens) payloads"
  shows "list_all2 (slot_ok as_root bufs payloads) (map2 (\<lambda>h fs. aggs h (fs_pending fs)) hs fss)
           (zip lens (zip (map nat (displs 0 lens)) (map nat (displs 0 plens))))"
proof (rule list_all2_all_nthI)
  show "length (map2 (\<lambda>h fs. aggs h (fs_pending fs)) hs fss) = length (zip lens (zip (map nat (displs 0 lens)) (map nat (displs 0 plens))))"
    using assms(3-5) by (simp add: lens_def plens_def)
  fix q assume "q < length (map2 (\<lambda>h fs. aggs h (fs_pending fs)) hs fss)"
  then have q: "q < n" using assms(3,4) by simp
  let ?as = "aggs (hs ! q) (fs_pending (fss ! q))"
  let ?st = "agg_step (hs ! q) (fss ! q) (agg_layout 0 ?as) (length (agg_bytes ?as))"
  obtain m p where mp: "sends ! q = (m, p)" by (cases "sends ! q")
  note b = build_agg_layout [OF assms(6) [OF q, unfolded mp] assms(7) [OF q]]
  have m: "m \<noteq> []" "\<And>rest. as_root (m @ rest) = Some ?st" using assms(8) [OF b(1)] by auto
  have bytes: "(case p of None \<Rightarrow> [] | Some b \<Rightarrow> b) = agg_bytes ?as" using b(2) by (simp add: add_bytes_def)
  have gm: "take (length m) (drop (nat (displs 0 lens ! q)) bufs) = m"
    using assms(5,9) q mp by (auto simp: gathered_def)
  have gp: "nat (displs 0 plens ! q) + length (agg_bytes ?as) \<le> length payloads"
      "take (length (agg_bytes ?as)) (drop (nat (displs 0 plens ! q)) payloads) = agg_bytes ?as"
    using assms(5,10) q mp bytes by (auto simp: gathered_def)
  have "drop (nat (displs 0 lens ! q)) bufs = m @ drop (length m) (drop (nat (displs 0 lens ! q)) bufs)"
    using gm by (metis append_take_drop_id)
  then have root: "as_root (drop (nat (displs 0 lens ! q)) bufs) = Some ?st" using m(2) by metis
  have ent: "st_entries ?st = agg_layout 0 ?as" by (simp add: agg_step_def)
  have "lens ! q = int (length m)" using q assms(5) mp by (simp add: lens_def)
  then show "slot_ok as_root bufs payloads (map2 (\<lambda>h fs. aggs h (fs_pending fs)) hs fss ! q)
          (zip lens (zip (map nat (displs 0 lens)) (map nat (displs 0 plens))) ! q)"
    using q assms(3-5) m(1) root ent gp aggs_dcpl [OF assms(7) [OF q]]
    by (simp add: slot_ok_def lens_def plens_def)
qed

definition union_of :: "h5api list \<Rightarrow> file_state list \<Rightarrow> (int \<times> agg_item) list" where
  "union_of hs fss = first_seen {} (tagged 0 (map2 (\<lambda>h fs. aggs h (fs_pending fs)) hs fss))"

lemma exchanged_merge:
  assumes "length hs = n" "length fss = n" "length sends = n" "r < n"
    and "\<And>q. q < n \<Longrightarrow> build_agg_manifest (hs ! q) (pv_finalize env) (fss ! q) = Inr (sends ! q)"
    and "\<And>q. q < n \<Longrightarrow> list_all (agg_ok (hs ! q)) (fs_pending (fss ! q))"
    and "\<And>st b rest. pv_finalize env st = Some b \<Longrightarrow> b \<noteq> [] \<and> pv_as_root env (b @ rest) = Some st"
    and "sum_list (map (\<lambda>s. int (length (fst s))) sends) < 2 ^ 31" "sum_list (map (\<lambda>s. int (buf_len (snd s))) sends) < 2 ^ 31"
    and "exchanged env sends r w w' bufs payloads"
  defines "lens \<equiv> map (\<lambda>s. int (length (fst s))) sends" and "plens \<equiv> map (\<lambda>s. int (buf_len (snd s))) sends"
  shows "merge_ranks (pv_as_root env) (fs_pending (fss ! r)) (int r) bufs payloads merge_init 0
           (zip lens (zip (map nat (displs 0 lens)) (map nat (displs 0 plens)))) =
         Inr (merged_state (fs_pending (fss ! r)) (int r) (union_of hs fss))"
proof -
  have "blocks_apart (displs 0 lens) lens" "blocks_apart (displs 0 plens) plens"
    using assms(8,9) by (auto simp: lens_def plens_def list_all_iff intro!: displs_apart)
  then have "gathered (map fst sends) (displs 0 lens) bufs"
      "gathered (map (\<lambda>s. case snd s of None \<Rightarrow> [] | Some b \<Rightarrow> b) sends) (displs 0 plens) payloads"
    using assms(10) by (auto simp: exchanged_def lens_def plens_def Let_def)
  then have "list_all2 (slot_ok (pv_as_root env) bufs payloads) (map2 (\<lambda>h fs. aggs h (fs_pending fs)) hs fss)
           (zip lens (zip (map nat (displs 0 lens)) (map nat (displs 0 plens))))"
    unfolding lens_def plens_def by (intro exchanged_slots [of hs n fss sends "pv_finalize env"]) (use assms(1-7) in auto)
  from merge_ranks_ok [OF this, of "fs_pending (fss ! r)" "int r" "[]" 0]
  show ?thesis by (simp add: merge_init_state [of "fs_pending (fss ! r)" "int r"] union_of_def)
qed

lemma sum_list_nth_le:
  "q < length ls \<Longrightarrow> list_all (\<lambda>l. (0::int) \<le> l) ls \<Longrightarrow> ls ! q \<le> sum_list ls"
  by (auto simp: list_all_iff intro!: member_le_sum_list)

text \<open>
  (C14) A parallel step replays the union of what its ranks captured. When every rank has built and
  exchanged its manifest, each rank applies the same creations and attributes in the same order:
  of every kind and path the first captured, in rank order and capture order within a rank, datasets
  before attributes, with the datatype, dataspace, property list and payload of the rank that
  captured it; a slot is wired to one of this rank's own entries exactly when this rank's entry is
  the one that was kept; afterwards the rank's dataset writes are made.
\<close>

theorem parallel_step_replays_the_union:
  fixes env :: "('w, 'o) penv"
  assumes "length hs = n" and "length fss = n" and "length sends = n" and "r < n" and "pv_rank env = int r"
    and "\<And>q. q < n \<Longrightarrow> build_agg_manifest (hs ! q) (pv_finalize env) (fss ! q) = Inr (sends ! q)"
    and "\<And>q. q < n \<Longrightarrow> list_all (agg_ok (hs ! q)) (fs_pending (fss ! q))"
    and "\<And>st b rest. pv_finalize env st = Some b \<Longrightarrow> b \<noteq> [] \<and> pv_as_root env (b @ rest) = Some st"
    and "sum_list (map (\<lambda>s. int (length (fst s))) sends) < 2 ^ 31" and "sum_list (map (\<lambda>s. int (buf_len (snd s))) sends) < 2 ^ 31"
    and "exchanged env sends r w w' bufs payloads"
  defines "h \<equiv> hs ! r" and "fs \<equiv> fss ! r" and "as \<equiv> map snd (union_of hs fss)"
    and "wiring \<equiv> map (own_slot (fs_pending (fss ! r)) (int r)) (union_of hs fss)"
  assumes "pv_finalize env (agg_step h fs (agg_layout 0 as) (length (agg_bytes as))) = Some m"
    and "list_all (agg_decodes h) as" and "\<And>w it. snd (pv_apply_entry env wiring w it)" and "pi_ok (rd_paths (fs_reader fs))"
    and "H5get_libversion h = (maj, minor, rel)" and "rel < 1000" and "maj * 1000000 + minor * 1000 + rel < 2 ^ 32"
  shows "\<exists>x. let fs' = fs\<lparr>fs_reader := (fs_reader fs)\<lparr>rd_paths := x\<rparr>\<rparr>;
               w'' = foldl (\<lambda>w it. fst (pv_apply_entry env wiring w it)) w' (map (agg_item_of h as) (agg_order as))
           in replay_step_parallel env h fs w =
              (case (if concentration_factor env > 1
                     then replay_concentrated_writes env h fs' w'' (fs_physical_step fs) (concentration_factor env)
                     else replay_local_writes env w'' (fs_physical_step fs) (fs_pending fs)) of
                 (w, res) \<Rightarrow> Some (fs', w, res))"
proof -
  let ?lens = "map (\<lambda>s. int (length (fst s))) sends" and ?plens = "map (\<lambda>s. int (buf_len (snd s))) sends"
  let ?slots = "zip ?lens (zip (map nat (displs 0 ?lens)) (map nat (displs 0 ?plens)))"
  let ?wired = "if wiring = [] then None
      else Some (replicate (length wiring)
        \<lparr>pe_kind = DsetCreate, pe_path = None, pe_type_id = 0, pe_space_id = 0, pe_dcpl_id = 0, pe_payload = []\<rparr>)"
  obtain my_buf payload where mine: "sends ! r = (my_buf, payload)" by (cases "sends ! r")
  have build: "build_agg_manifest h (pv_finalize env) fs = Inr (my_buf, payload)"
    using assms(6) [OF assms(4)] mine by (simp add: h_def fs_def)
  have nth: "?lens ! r = int (length my_buf)" "?plens ! r = int (buf_len payload)" using assms(3,4) mine by simp_all
  have "?lens ! r \<le> sum_list ?lens" "?plens ! r \<le> sum_list ?plens"
    using sum_list_nth_le [of r ?lens] sum_list_nth_le [of r ?plens] assms(3,4) by (simp_all add: list_all_iff)
  then have ci: "c_int (int (length my_buf)) = int (length my_buf)" "c_int (int (buf_len payload)) = int (buf_len payload)"
    using assms(9,10) nth by (auto intro!: c_int_id)
  obtain u v y where ex: "pv_allgather env w (int (length my_buf)) = (u, Some ?lens)"
      "pv_allgather env u (int (buf_len payload)) = (v, Some ?plens)"
      "pv_allgatherv env v my_buf (int (length my_buf)) ?lens (displs 0 ?lens) = (y, Some bufs)"
      "pv_allgatherv env y (case payload of None \<Rightarrow> [0] | Some b \<Rightarrow> b) (int (buf_len payload)) ?plens (displs 0 ?plens) = (w', Some payloads)"
    using assms(11) nth mine by (auto simp: exchanged_def Let_def)
  have "merge_ranks (pv_as_root env) (fs_pending fs) (int r) bufs payloads merge_init 0 ?slots =
      Inr (merged_state (fs_pending fs) (int r) (union_of hs fss))"
    unfolding fs_def by (rule exchanged_merge [OF assms(1-4,6-11)])
  then have merge: "merge_agg_manifests h (pv_finalize env) (pv_as_root env) fs (pv_rank env) bufs payloads ?slots =
      Inr (m, add_bytes None (agg_bytes as), wiring)"
    using assms(5,16) by (simp add: merge_agg_manifests_def merged_state_def as_def wiring_def fs_def)
  have root: "pv_as_root env m = Some (agg_step h fs (agg_layout 0 as) (length (agg_bytes as)))"
    using assms(8) [OF assms(16), of "[]"] by simp
  have len: "\<And>ps. ?wired = Some ps \<Longrightarrow> length ps = length as"
    by (auto simp: wiring_def as_def split: if_splits)
  obtain x where x: "replay_manifest h (pv_as_root env) (pv_apply_entry env wiring) m (add_bytes None (agg_bytes as)) ?wired fs w' =
      Some (fs\<lparr>fs_reader := (fs_reader fs)\<lparr>rd_paths := x\<rparr>\<rparr>,
        foldl (\<lambda>w it. fst (pv_apply_entry env wiring w it)) w' (map (agg_item_of h as) (agg_order as)), Inr ())"
    using replay_merged [of "pv_as_root env" m h fs as "pv_apply_entry env wiring" maj minor rel ?wired w',
        OF root assms(17,18,19-22) len] by blast
  show ?thesis
    unfolding replay_step_parallel_def build sum.case prod.case Let_def ci ex option.case merge x Option.bind.simps
    by (intro exI [of _ x]) simp
qed

text \<open>Two ranks: both create \<open>/d\<close>, the second also gives it an attribute.\<close>

definition ranks_example :: "file_state list" where
  "ranks_example =
     [(file_state_init False)\<lparr>fs_pending :=
        [\<lparr>pe_kind = DsetCreate, pe_path = Some ''/d'', pe_type_id = 3, pe_space_id = 4, pe_dcpl_id = -1, pe_payload = []\<rparr>]\<rparr>,
      (file_state_init False)\<lparr>fs_pending :=
        [\<lparr>pe_kind = DsetCreate, pe_path = Some ''/d'', pe_type_id = 5, pe_space_id = 6, pe_dcpl_id = -1, pe_payload = []\<rparr>,
         \<lparr>pe_kind = Attr, pe_path = Some ''/d@u'', pe_type_id = 3, pe_space_id = 4, pe_dcpl_id = -1, pe_payload = [7]\<rparr>]\<rparr>]"

definition step_of :: "nat \<Rightarrow> vs_step" where
  "step_of q = (let as = (if q < 2 then aggs h5_example (fs_pending (ranks_example ! q))
                          else map snd (union_of [h5_example, h5_example] ranks_example))
                in agg_step h5_example (ranks_example ! (min q 1)) (agg_layout 0 as) (length (agg_bytes as)))"

definition codec_example :: "(pworld, path) penv" where
  "codec_example = (penv_example 1)\<lparr>
     pv_finalize := (\<lambda>st. if st = step_of 0 then Some [1] else if st = step_of 1 then Some [2]
                          else if st = step_of 2 then Some [3] else None),
     pv_as_root := (\<lambda>b. case b of [] \<Rightarrow> None
                        | x # _ \<Rightarrow> if x = 1 then Some (step_of 0) else if x = 2 then Some (step_of 1)
                                   else if x = 3 then Some (step_of 2) else None)\<rparr>"

theorem parallel_step_replays_the_union_witness:
  "\<exists>fs' w'. replay_step_parallel codec_example h5_example (ranks_example ! 1) pworld_init = Some (fs', w', Inr ()) \<and>
     pw_items w' =
      [\<lparr>ri_index = 0, ri_kind = DsetCreate, ri_path = Some ''/d'', ri_type = 3, ri_space = 4, ri_dcpl = None, ri_payload = []\<rparr>,
       \<lparr>ri_index = 1, ri_kind = Attr, ri_path = Some ''/d@u'', ri_type = 3, ri_space = 4, ri_dcpl = None, ri_payload = [7]\<rparr>]"
proof -
  let ?hs = "[h5_example, h5_example]" and ?sends = "[([1], None), ([2], Some [7])] :: (byte list \<times> byte list option) list"
  let ?a = "\<lparr>ag_kind = DsetCreate, ag_path = ''/d'', ag_type = [3], ag_space = [4], ag_dcpl = None, ag_payload = []\<rparr>"
  let ?b = "\<lparr>ag_kind = Attr, ag_path = ''/d@u'', ag_type = [3], ag_space = [4], ag_dcpl = None, ag_payload = [7]\<rparr>"
  let ?c = "\<lparr>ag_kind = DsetCreate, ag_path = ''/d'', ag_type = [5], ag_space = [6], ag_dcpl = None, ag_payload = []\<rparr>"
  note h5 = h5_example_def encode_type_def encode_space_def
  have ag: "aggs h5_example (fs_pending (ranks_example ! 0)) = [?a]" "aggs h5_example (fs_pending (ranks_example ! 1)) = [?c, ?b]"
    by (simp_all add: ranks_example_def aggs_def agg_of_def is_agg_def h5)
  have two: "ranks_example = [ranks_example ! 0, ranks_example ! 1]" by (simp add: ranks_example_def)
  have u: "union_of ?hs ranks_example = [(0, ?a), (1, ?b)]"
    unfolding union_of_def by (subst two) (simp add: ag [unfolded One_nat_def] agg_key_def)
  have so: "step_of 0 = agg_step h5_example (ranks_example ! 0) (agg_layout 0 [?a]) 0"
      "step_of 1 = agg_step h5_example (ranks_example ! 1) (agg_layout 0 [?c, ?b]) 1"
      "step_of 2 = agg_step h5_example (ranks_example ! 1) (agg_layout 0 [?a, ?b]) 1"
    unfolding step_of_def u by (simp_all add: ag ag [unfolded One_nat_def] Let_def)
  have ne: "step_of 1 \<noteq> step_of 0" "step_of 2 \<noteq> step_of 0" "step_of 2 \<noteq> step_of 1"
    unfolding so by (simp_all add: agg_step_def lay_def)
  have fin: "pv_finalize codec_example (step_of 0) = Some [1]" "pv_finalize codec_example (step_of 1) = Some [2]"
      "pv_finalize codec_example (step_of 2) = Some [3]"
    using ne by (simp_all add: codec_example_def)
  have es: "agg_entries h5_example None (fs_pending (ranks_example ! 0)) = Inr (agg_layout 0 [?a], None)"
      "agg_entries h5_example None (fs_pending (ranks_example ! 1)) = Inr (agg_layout 0 [?c, ?b], Some [7])"
    by (simp_all add: ranks_example_def is_agg_def h5 lay_def add_bytes_def buf_len_def)
  have build: "build_agg_manifest (?hs ! q) (pv_finalize codec_example) (ranks_example ! q) = Inr (?sends ! q)" if "q < 2" for q
  proof -
    have "build_agg_manifest h5_example (pv_finalize codec_example) (ranks_example ! 0) = Inr ([1], None)"
      unfolding build_agg_manifest_def es(1) using fin(1) [unfolded so(1)] by simp
    moreover have "build_agg_manifest h5_example (pv_finalize codec_example) (ranks_example ! 1) = Inr ([2], Some [7])"
      unfolding build_agg_manifest_def es(2) using fin(2) [unfolded so(2)] by (simp add: buf_len_def)
    ultimately show ?thesis using that by (auto simp: less_2_cases_iff)
  qed
  have ci: "c_int 0 = 0" "c_int 1 = 1" "c_int 2 = 2" by (simp_all add: c_int_id)
  have ex: "exchanged codec_example ?sends 1 pworld_init (pworld_init\<lparr>pw_calls := 4\<rparr>) [1, 2] [7]"
    by (simp add: exchanged_def codec_example_def penv_example_def buf_len_def ci gathered_def pworld_init_def All_less_Suc)
  have as: "map snd (union_of ?hs ranks_example) = [?a, ?b]" by (simp add: u)
  have ord: "map (agg_item_of h5_example [?a, ?b]) (agg_order [?a, ?b]) =
      [\<lparr>ri_index = 0, ri_kind = DsetCreate, ri_path = Some ''/d'', ri_type = 3, ri_space = 4, ri_dcpl = None, ri_payload = []\<rparr>,
       \<lparr>ri_index = 1, ri_kind = Attr, ri_path = Some ''/d@u'', ri_type = 3, ri_space = 4, ri_dcpl = None, ri_payload = [7]\<rparr>]"
    by (simp add: agg_order_def agg_item_of_def upt_rec h5_example_def)
  have mrg: "pv_finalize codec_example (agg_step (?hs ! 1) (ranks_example ! 1)
      (agg_layout 0 (map snd (union_of ?hs ranks_example))) (length (agg_bytes (map snd (union_of ?hs ranks_example))))) = Some [3]"
    using fin(3) so(3) unfolding as by simp
  have loc: "replay_local_writes codec_example w k (fs_pending (ranks_example ! 1)) = (w, Inr ())" for w k
    by (simp add: ranks_example_def)
  have cf: "concentration_factor codec_example = 1" by (simp add: concentration_factor_def codec_example_def penv_example_def)
  have app: "pv_apply_entry codec_example wr w it = (w\<lparr>pw_items := pw_items w @ [it]\<rparr>, True)" for wr w it
    by (simp add: codec_example_def penv_example_def)
  have pre: "length ?hs = 2" "length ranks_example = 2" "length ?sends = 2" "1 < (2 :: nat)" "pv_rank codec_example = int 1"
      "sum_list (map (\<lambda>s. int (length (fst s))) ?sends) < 2 ^ 31" "sum_list (map (\<lambda>s. int (buf_len (snd s))) ?sends) < 2 ^ 31"
    by (simp_all add: ranks_example_def codec_example_def penv_example_def buf_len_def)
  have ok: "list_all (agg_ok (?hs ! q)) (fs_pending (ranks_example ! q))" if "q < 2" for q
    using that by (auto simp: less_2_cases_iff ranks_example_def agg_ok_def)
  have codec: "b \<noteq> [] \<and> pv_as_root codec_example (b @ rest) = Some st" if "pv_finalize codec_example st = Some b" for st b rest
    using that by (auto simp: codec_example_def split: if_splits)
  have dec: "list_all (agg_decodes (?hs ! 1)) (map snd (union_of ?hs ranks_example))"
    unfolding as by (simp add: agg_decodes_def is_agg_def h5_example_def)
  have sn: "snd (pv_apply_entry codec_example wr w it)" for wr w it by (simp add: app)
  have rest: "pi_ok (rd_paths (fs_reader (ranks_example ! 1)))" "H5get_libversion (?hs ! 1) = (2, 0, 0)"
    by (simp_all add: ranks_example_def file_state_init_def reader_init_def h5_example_def)
  note inst = parallel_step_replays_the_union [OF pre(1-5) build ok codec pre(6,7) ex mrg dec sn rest]
  have "\<exists>x. let fs' = (ranks_example ! 1)\<lparr>fs_reader := (fs_reader (ranks_example ! 1))\<lparr>rd_paths := x\<rparr>\<rparr>
      in replay_step_parallel codec_example h5_example (ranks_example ! 1) pworld_init =
         Some (fs', foldl (\<lambda>w it. w\<lparr>pw_items := pw_items w @ [it]\<rparr>) (pworld_init\<lparr>pw_calls := 4\<rparr>)
           (map (agg_item_of h5_example [?a, ?b]) (agg_order [?a, ?b])), Inr ())"
    using inst unfolding as cf app by (simp add: loc [unfolded One_nat_def])
  then show ?thesis unfolding ord by (auto simp: pworld_init_def Let_def)
qed

text \<open>
  (C40) Only dataset creations, attributes and dataset writes of a parallel step reach the file: what
  the ranks exchange and what they write is the same as if links and groups had never been
  captured and no logical identifiers had been given to the step.
\<close>

theorem parallel_step_drops_links:
  defines "kept \<equiv> filter (\<lambda>pe. is_agg (pe_kind pe) \<or> is_write pe)"
  shows "build_agg_manifest h finalize (fs\<lparr>fs_pending := pes, fs_logical_ids := ids\<rparr>) =
      build_agg_manifest h finalize (fs\<lparr>fs_pending := kept pes, fs_logical_ids := []\<rparr>) \<and>
    replay_local_writes env w step pes = replay_local_writes env w step (kept pes) \<and>
    send_entries env h w c pes = send_entries env h w c (kept pes) \<and> own_jobs pes = own_jobs (kept pes)"
proof -
  have "agg_entries h buf pes = agg_entries h buf (kept pes)" for buf
    unfolding kept_def by (induction pes arbitrary: buf) (auto simp: Let_def is_agg_def is_write_def split: option.splits)
  moreover have "replay_local_writes env w step pes = replay_local_writes env w step (kept pes)"
    unfolding kept_def by (induction pes arbitrary: w) (auto simp: is_agg_def is_write_def split: prod.splits sum.splits)
  moreover have "send_entries env h w c pes = send_entries env h w c (kept pes)"
    unfolding kept_def by (induction pes arbitrary: w) (auto simp: is_agg_def is_write_def split: prod.splits sum.splits)
  moreover have "own_jobs pes = own_jobs (kept pes)" unfolding own_jobs_def kept_def by (induction pes) auto
  moreover have "agg_step h (fs\<lparr>fs_pending := ps, fs_logical_ids := ids\<rparr>) es k = agg_step h (fs\<lparr>fs_pending := ps', fs_logical_ids := ids'\<rparr>) es k"
    for ps ps' ids ids' es k by (simp add: agg_step_def)
  ultimately show ?thesis by (simp add: build_agg_manifest_def agg_step_def)
qed

end
