(* ===== verification/Spec2Isabelle.thy ===== *)
theory Spec2Isabelle
  imports VS_Predicate VS_Backfill VS_Parallel
begin

text \<open>
  \<^bold>\<open>vol-stream\<close> is an HDF5 VOL connector for streaming: a writer groups what it does to an open file
  into steps, a step is captured in memory and replayed as a whole under \<open>/step/<n>\<close>, and readers
  follow the file or a live channel. This library models its core, \<open>src/src/H5VLstream.c\<close> and
  \<open>src/src/tr_mercury.c\<close>, and proves what makes it correct.

  \<^bold>\<open>The parts of the program and where they are modelled.\<close>

  \<^item> \<^emph>\<open>Foundations.\<close> \<open>VS_Prelude\<close>: machine integers, the result type \<open>cres\<close> (\<open>Inl EFail\<close> is a C
    function returning -1, \<open>Inl EOob\<close> a read outside a buffer), monitored reads, runs of flat element
    indices. \<open>VS_Bytes\<close>: the little-endian codecs. \<open>VS_Text\<close>: decimals, \<open>strtoull\<close> and the paths the
    connector builds. \<open>VS_Tables\<close>: the tables of \<open>vol_stream.fbs\<close>. \<open>VS_Hdf5\<close>: the HDF5 calls as the record
    \<open>h5api\<close>, and the pending entry. \<open>VS_State\<close>: \<open>H5VL_stream_file_state_t\<close> as the record \<open>file_state\<close>.
  \<^item> \<^emph>\<open>Tables of the connector.\<close> \<open>VS_Pathmap\<close> (\<open>H5VL__stream_pathmap_*\<close>) is the open-addressing hash table,
    refined to a map and exported as the locale \<open>path_map\<close>; \<open>VS_TypeCache\<close> (\<open>H5VL__stream_type_cache_*\<close>)
    and \<open>VS_PathIndex\<close> (\<open>H5VL__stream_path_index_*\<close>) are built on it, with the locales
    \<open>type_dictionary\<close> and \<open>step_index\<close>.
  \<^item> \<^emph>\<open>Capture.\<close> \<open>VS_Capture\<close> (\<open>H5VL__stream_pending_*\<close>, \<open>capture_link\<close>, \<open>fold_links\<close>, \<open>fold_group_attrs\<close>):
    the buffer of an open step and its byte limit, links and group attributes. \<open>VS_VL\<close>
    (\<open>H5VL__stream_type_unsafe_to_capture\<close>, \<open>vl_serialize\<close>, \<open>vl_deserialize\<close>, \<open>vl_flatten\<close>): variable-length data.
    \<open>VS_Selection\<close> (\<open>H5VL__stream_space_*\<close>, \<open>gather_mem\<close>, \<open>selection_runs\<close>): selections as runs.
  \<^item> \<^emph>\<open>Manifest and replay.\<close> \<open>VS_Manifest\<close> (\<open>H5VL__stream_build_manifest\<close>, \<open>replay_manifest\<close> up to the decoded
    entry). \<open>VS_Schema\<close> (\<open>H5VL__stream_publish_schema\<close>, \<open>decode_schema\<close>): the schema for live discovery.
  \<^item> \<^emph>\<open>Ending a step.\<close> \<open>VS_Queue\<close> (\<open>H5VL__stream_apply_queue_policy\<close>, \<open>spill_step\<close>, \<open>drain_spill\<close>,
    \<open>apply_retention\<close>) and \<open>VS_Step\<close> (the step handlers of \<open>H5VL_stream_file_optional\<close>, closing, and the
    serving of one backfill request). The writer is a step relation there; its reachable states
    satisfy the writer's invariant.
  \<^item> \<^emph>\<open>Parallel writers.\<close> \<open>VS_Parallel\<close> (\<open>H5VL__stream_build_agg_manifest\<close>, \<open>merge_agg_manifests\<close>,
    \<open>replay_step_parallel\<close>): the exchange and the merge of the ranks' metadata. \<open>VS_Concentrator\<close>
    (\<open>H5VL__stream_write_replica\<close> to \<open>replay_concentrated_writes\<close>): the dataset writes, direct or
    through a concentrator.
  \<^item> \<^emph>\<open>Reading.\<close> \<open>VS_Reader\<close> (\<open>H5VL__stream_reader_build_index\<close>, \<open>reader_advance\<close>): the index of a file and the
    navigation over its steps.
  \<^item> \<^emph>\<open>The live channel.\<close> \<open>VS_Group\<close> is the control plane of \<open>tr_mercury.c\<close>: members, acknowledgements,
    subscriptions, announcements, the waits of a reader. \<open>VS_Push\<close> is the data plane: what one write
    sends to every subscriber. \<open>VS_Predicate\<close> (\<open>H5VL__stream_encode_predicate\<close>, \<open>eval_predicate\<close>) is the value
    filter. \<open>VS_Backfill\<close> (\<open>H5VL__stream_backfill_one\<close>, \<open>serve_backfill\<close>) serves late joiners and composes the
    control plane, the data plane, the path index and the retention floor.

  \<^bold>\<open>How code becomes a definition.\<close> A C function that fails returns a \<open>cres\<close>; one that changes state returns
  the state it leaves behind also when it fails. An array with its length and capacity is a list; the
  failure of an allocation is not modelled. A loop that need not end is a \<open>partial_function (option)\<close>, so
  that \<open>None\<close> means it does not return: the probe of the hash table, the odometer of a selection, the
  waits and \<open>serve_pending\<close>; for each of them the theorems prove that it returns under the stated
  conditions. The polls of the Block policy carry the code's own bound of 600. There is no other fuel.
  Counters are \<open>nat\<close> with \<open>wrap64\<close> where they can wrap, and \<open>int\<close> with \<open>c_int\<close> where the code stores a
  length in a C \<open>int\<close>; scalars on the wire are words.

  \<^bold>\<open>Parameters.\<close> HDF5 (\<open>h5api\<close>, \<open>h5types\<close>, \<open>back_api\<close>), the flat-buffer codec (\<open>finalize\<close>, \<open>as_root\<close>, \<open>verify\<close>), the
  world behind a writer (\<open>env\<close> of \<open>VS_Queue\<close>, \<open>senv\<close> of \<open>VS_Step\<close>, \<open>penv\<close> of \<open>VS_Concentrator\<close>: BAKE, MPI and the
  under-VOL), the network (\<open>link_env\<close> of \<open>VS_Group\<close>) and the callbacks the transport is given (\<open>push_env\<close> of
  \<open>VS_Push\<close>). What a theorem needs of them is a hypothesis of the theorem that states their documented
  behaviour, and its witness satisfies it with concrete functions.

  \<^bold>\<open>What is proved.\<close>

  \<^item> A captured step is replayed as it was captured (\<open>VS_Manifest\<close>), ends atomically and leaves the writer in
    its invariant (\<open>VS_Step\<close>); the queue policies, the spill queue and retention do exactly what they
    promise (\<open>VS_Queue\<close>).
  \<^item> Every rank of a parallel step replays the union of what the ranks captured, and writes routed
    through a concentrator reach every dataset as direct writes would (\<open>VS_Parallel\<close>, \<open>VS_Concentrator\<close>).
  \<^item> A subscription is stored as asked for, announcements are delivered in order and none is lost, a push
    reaches exactly the live subscribers with exactly the elements due, a late joiner hears every step
    once (\<open>VS_Group\<close>, \<open>VS_Push\<close>, \<open>VS_Backfill\<close>).
  \<^item> A reader's index resolves every path to the newest step that carries it (\<open>VS_Reader\<close>).
  \<^item> Decoders of foreign bytes never read outside their input (variable-length payloads, manifests,
    schemas); codecs round-trip; selections, gathers and predicates select exactly what they denote.
  \<^item> Some theorems state where the code does not do what it means to: elements exchanged in a
    backfill of two columns, links and logical identifiers lost by a parallel step, a step lost when
    its spill fails, a predicate that reads past its constant.

  \<^bold>\<open>Not modelled.\<close> The VOL callbacks that pass through to the underlying connector, the dataset and
  attribute callbacks around the capture, the under-VOL calls by which replay makes an entry real, the
  virtual-dataset overlay, refiltering and type conversion (HDF5's own pipelines), start-up and shutdown
  of the transport, asynchronous requests, the BAKE and Diaspora clients, the command-line tool, the
  Python bindings and the examples: they are calls of libraries, or clients of the interface. Threads are
  not modelled either: the transport's handlers run under its lock and are atomic steps here.

  \<^bold>\<open>Plan.\<close> Next are the under-VOL half of \<open>replay_manifest\<close> with its live pushes and
  \<open>carry_forward_resized\<close>, then the capture half of the dataset callbacks.
\<close>

end
